(* ===== verification/Prelude.thy ===== *)
theory Prelude
  imports Main "HOL-Library.Word" "HOL-Library.Monad_Syntax"
begin

text \<open>
  Shared vocabulary of the development.

  \<^item> Names for the machine integers of the Rust sources. Arithmetic on them is the arithmetic of
    the release profile: it wraps.
  \<^item> Saturating and rounding operations of the Rust standard library on unsigned integers.
  \<^item> Ordered maps. A \<open>BTreeMap\<close>, an \<open>OrdMap\<close> and, where only look-up matters, a \<open>HashMap\<close> is
    an association list that is strictly sorted by key; the laws of its operations are collected
    in the locale \<open>finite_map\<close>, which is interpreted on the list operations.
  \<^item> The scan that several pools run over their transactions, which takes a transaction and
    everything that depends on it out of a sorted map.

  A panic of the source (\<open>expect\<close>, \<open>assert!\<close>, \<open>unreachable!\<close>) is the value \<open>None\<close> of an option
  around the result of an operation; an \<open>Err\<close> of the source is \<open>Inl\<close> of a sum.
\<close>

section \<open>Machine integers\<close>

type_synonym u8 = "8 word"
type_synonym u64 = "64 word"
type_synonym usize = "64 word"
type_synonym u128 = "128 word"
type_synonym U256 = "256 word"
type_synonym Address = "160 word"
type_synonym B256 = "256 word"

named_theorems rust_arith \<open>characterisations of the integer operations through unat\<close>

text \<open>The largest value of a width: \<open>u64::MAX\<close> and its kin.\<close>

abbreviation (input) max_of :: "'a::len word" where
  "max_of \<equiv> - 1"

definition saturating_add :: "'a::len word \<Rightarrow> 'a word \<Rightarrow> 'a word" where
  "saturating_add a b = (if unat a + unat b < 2 ^ LENGTH('a) then a + b else max_of)"

definition saturating_sub :: "'a::len word \<Rightarrow> 'a word \<Rightarrow> 'a word" where
  "saturating_sub a b = (if b \<le> a then a - b else 0)"

definition saturating_mul :: "'a::len word \<Rightarrow> 'a word \<Rightarrow> 'a word" where
  "saturating_mul a b = (if unat a * unat b < 2 ^ LENGTH('a) then a * b else max_of)"

definition div_ceil :: "'a::len word \<Rightarrow> 'a word \<Rightarrow> 'a word" where
  "div_ceil a b = (if a mod b = 0 then a div b else a div b + 1)"

lemma unat_max_of: "unat (max_of :: 'a::len word) = 2 ^ LENGTH('a) - 1"
  by (simp add: unsigned_minus_1_eq_mask mask_eq_exp_minus_1)

lemma unat_succ [rust_arith]: "n \<noteq> max_of \<Longrightarrow> unat (n + 1) = Suc (unat n)"
  by (metis add.commute add_eq_0_iff unatSuc)

lemma word_less_succ: "i < n \<Longrightarrow> n \<noteq> max_of \<Longrightarrow> i < n + 1" for i n :: "'a::len word"
  by (simp add: word_less_nat_alt unat_succ)

lemma word_self_less_succ: "n \<noteq> max_of \<Longrightarrow> n < n + 1" for n :: "'a::len word"
  by (simp add: word_less_nat_alt unat_succ)

lemma unat_saturating_add [rust_arith]:
  "unat (saturating_add a b) = min (unat a + unat b) (2 ^ LENGTH('a) - 1)" for a b :: "'a::len word"
  by (auto simp: saturating_add_def unat_word_ariths unat_max_of)

lemma unat_saturating_sub [rust_arith]: "unat (saturating_sub a b) = unat a - unat b"
  by (auto simp: saturating_sub_def unat_sub word_le_nat_alt)

lemma unat_saturating_mul [rust_arith]:
  "unat (saturating_mul a b) = min (unat a * unat b) (2 ^ LENGTH('a) - 1)" for a b :: "'a::len word"
  by (auto simp: saturating_mul_def unat_word_ariths unat_max_of)

lemma unat_div_ceil [rust_arith]:
  assumes "b \<noteq> 0"
  shows "unat (div_ceil a b) = (unat a + unat b - 1) div unat b"
proof -
  have pos: "0 < unat b" using assms by (simp add: unat_gt_0)
  define q r where "q = unat a div unat b" and "r = unat a mod unat b"
  have a: "unat a = unat b * q + r" and r: "r < unat b"
    using pos by (auto simp: q_def r_def)
  have mod0: "a mod b = 0 \<longleftrightarrow> r = 0"
    by (simp add: r_def unat_mod_distrib flip: unat_eq_zero)
  show ?thesis
  proof (cases "r = 0")
    case True
    have "unat a + unat b - 1 = unat b * q + (unat b - 1)"
      using a True pos by simp
    then have "(unat a + unat b - 1) div unat b = q"
      using pos by (metis Suc_pred' div_mult_self4 div_less add_cancel_left_right lessI less_not_refl2)
    then show ?thesis
      using True mod0 by (simp add: div_ceil_def unat_div_distrib q_def)
  next
    case False
    have eq: "unat a + unat b - 1 = unat b * (q + 1) + (r - 1)"
      using a False by (simp add: algebra_simps)
    have "r - 1 < unat b" using r by simp
    then have ceil: "(unat a + unat b - 1) div unat b = q + 1"
      unfolding eq using pos by (simp only: div_mult_self4 [of "unat b" "q + 1" "r - 1"]
          div_less add.commute [of _ "r - 1"] neq0_conv mult.commute [of "unat b"] div_mult_self1)
    have "q < unat a" if "unat b \<noteq> 1"
    proof -
      have "2 * q \<le> unat b * q" using pos that by (intro mult_right_mono) linarith+
      then show ?thesis using a False by linarith
    qed
    moreover have "unat b \<noteq> 1" using r False by auto
    moreover have "unat a < 2 ^ LENGTH('a)" by (rule unsigned_less)
    ultimately have "Suc q < 2 ^ LENGTH('a)" by linarith
    then show ?thesis
      using False mod0 ceil by (simp add: div_ceil_def unat_word_ariths unat_div_distrib q_def)
  qed
qed

section \<open>Ordered maps\<close>

type_synonym ('k, 'v) bmap = "('k \<times> 'v) list"

abbreviation bsorted :: "('k::linorder, 'v) bmap \<Rightarrow> bool" where
  "bsorted m \<equiv> sorted_wrt (<) (map fst m)"

fun bins :: "'k::linorder \<Rightarrow> 'v \<Rightarrow> ('k, 'v) bmap \<Rightarrow> ('k, 'v) bmap" where
  "bins k v [] = [(k, v)]"
| "bins k v ((k', v') # m) =
     (if k < k' then (k, v) # (k', v') # m
      else if k = k' then (k, v) # m
      else (k', v') # bins k v m)"

definition bdel :: "'k \<Rightarrow> ('k, 'v) bmap \<Rightarrow> ('k, 'v) bmap" where
  "bdel k m = filter (\<lambda>e. fst e \<noteq> k) m"

definition bupd :: "'k \<Rightarrow> ('v \<Rightarrow> 'v) \<Rightarrow> ('k, 'v) bmap \<Rightarrow> ('k, 'v) bmap" where
  "bupd k f m = map (\<lambda>e. if fst e = k then (fst e, f (snd e)) else e) m"

text \<open>\<open>range(k..)\<close>, \<open>range((Excluded(k), Unbounded))\<close> and what lies before \<open>k\<close>.\<close>

definition bfrom :: "'k::linorder \<Rightarrow> ('k, 'v) bmap \<Rightarrow> ('k, 'v) bmap" where
  "bfrom k m = filter (\<lambda>e. k \<le> fst e) m"

definition bafter :: "'k::linorder \<Rightarrow> ('k, 'v) bmap \<Rightarrow> ('k, 'v) bmap" where
  "bafter k m = filter (\<lambda>e. k < fst e) m"

definition bbefore :: "'k::linorder \<Rightarrow> ('k, 'v) bmap \<Rightarrow> ('k, 'v) bmap" where
  "bbefore k m = filter (\<lambda>e. fst e < k) m"

definition last_opt :: "'a list \<Rightarrow> 'a option" where
  "last_opt xs = (if xs = [] then None else Some (last xs))"

definition head_opt :: "'a list \<Rightarrow> 'a option" where
  "head_opt xs = (case xs of [] \<Rightarrow> None | x # _ \<Rightarrow> Some x)"

lemma set_fst_bins: "fst ` set (bins k v m) = insert k (fst ` set m)"
  by (induction k v m rule: bins.induct) (simp_all add: insert_commute)

lemma bsorted_bins: "bsorted m \<Longrightarrow> bsorted (bins k v m)"
proof (induction m)
  case (Cons e m)
  obtain k' v' where e: "e = (k', v')" by fastforce
  have "\<forall>x \<in> fst ` set (bins k v m). k' < x" if "k' < k"
    using Cons.prems that by (simp add: set_fst_bins e)
  then show ?case using Cons by (auto simp: e)
qed simp

lemma map_of_bins: "map_of (bins k v m) = (map_of m)(k \<mapsto> v)"
  by (induction m) (auto simp: fun_eq_iff)

lemma bsorted_distinct: "bsorted m \<Longrightarrow> distinct (map fst m)"
  by (simp add: strict_sorted_iff)

lemma bsorted_filter: "bsorted m \<Longrightarrow> bsorted (filter P m)"
  by (induction m) auto

lemma bsorted_bfrom: "bsorted m \<Longrightarrow> bsorted (bfrom k m)"
  by (simp add: bfrom_def bsorted_filter)

lemma map_of_bdel: "map_of (bdel k m) = (map_of m)(k := None)"
  by (induction m) (auto simp: bdel_def fun_eq_iff)

lemma bsorted_bdel: "bsorted m \<Longrightarrow> bsorted (bdel k m)"
  by (simp add: bdel_def bsorted_filter)

lemma map_fst_bupd [simp]: "map fst (bupd k f m) = map fst m"
  by (simp add: bupd_def comp_def if_distrib)

lemma map_of_bupd: "map_of (bupd k f m) = (map_of m)(k := map_option f (map_of m k))"
  by (induction m) (auto simp: bupd_def fun_eq_iff)

lemma map_of_filter_keys:
  "map_of (filter (\<lambda>e. P (fst e)) m) k = (if P k then map_of m k else None)"
  by (induction m) auto

lemma in_set_map_of: "bsorted m \<Longrightarrow> (k, v) \<in> set m \<longleftrightarrow> map_of m k = Some v"
  by (metis bsorted_distinct map_of_eq_Some_iff)

lemma bsorted_append_iff:
  "bsorted (m @ n) \<longleftrightarrow> bsorted m \<and> bsorted n \<and> (\<forall>k \<in> fst ` set m. \<forall>k' \<in> fst ` set n. k < k')"
  by (auto simp: sorted_wrt_append)

lemma bbefore_bfrom: "bsorted m \<Longrightarrow> bbefore k m @ bfrom k m = m"
proof (induction m)
  case (Cons e m)
  have "bbefore k m = []" if "k < fst e"
    using Cons.prems that by (auto simp: bbefore_def filter_empty_conv)
  moreover have "bfrom k m = m" if "k \<le> fst e"
    using Cons.prems that by (auto simp: bfrom_def filter_id_conv)
  moreover have "bbefore k m = []" if "k \<le> fst e"
    using Cons.prems that by (auto simp: bbefore_def filter_empty_conv)
  ultimately show ?case using Cons
    by (cases "fst e < k") (auto simp: bbefore_def bfrom_def not_less)
qed (simp add: bbefore_def bfrom_def)

lemma length_bins:
  "bsorted m \<Longrightarrow> length (bins k v m) = (if map_of m k = None then Suc (length m) else length m)"
proof (induction k v m rule: bins.induct)
  case (2 k v k' v' m)
  have "map_of m k = None" if "k < k'"
    using "2.prems" that by (force simp: map_of_eq_None_iff)
  with 2 show ?case by auto
qed simp

lemma length_bdel:
  "bsorted m \<Longrightarrow> length (bdel k m) = (if map_of m k = None then length m else length m - 1)"
proof (induction m)
  case (Cons e m)
  have "bdel k m = m" if "fst e = k"
    using Cons.prems that by (auto simp: bdel_def filter_id_conv)
  moreover have "0 < length m" if "map_of m k \<noteq> None"
    using that by (cases m) auto
  ultimately show ?case using Cons by (auto simp: bdel_def)
qed (simp add: bdel_def)

lemma bdel_id: "map_of m k = None \<Longrightarrow> bdel k m = m"
  by (auto simp: bdel_def map_of_eq_None_iff filter_id_conv)

lemma bmap_rebuild: "distinct (map fst m) \<Longrightarrow> map (\<lambda>k. (k, the (map_of m k))) (map fst m) = m"
  unfolding map_map comp_def by (rule map_idI) auto

lemma bsorted_map_of_eq:
  assumes "bsorted m" and "bsorted n" and "map_of m = map_of n"
  shows "m = n"
proof -
  have "fst ` set m = fst ` set n"
    using assms(3) by (metis dom_map_of_conv_image_fst)
  then have keys: "map fst m = map fst n"
    using assms(1,2) strict_sorted_equal [of "map fst n" "map fst m"] by simp
  have "m = map (\<lambda>k. (k, the (map_of m k))) (map fst m)"
    by (rule bmap_rebuild [OF bsorted_distinct [OF assms(1)], symmetric])
  also have "\<dots> = map (\<lambda>k. (k, the (map_of n k))) (map fst n)"
    by (simp only: keys assms(3))
  also have "\<dots> = n"
    by (rule bmap_rebuild [OF bsorted_distinct [OF assms(2)]])
  finally show ?thesis .
qed

lemma sum_list_bins:
  "map_of m k = None \<Longrightarrow>
   sum_list (map f (bins k v m)) = f (k, v) + (sum_list (map f m) :: 'a::ab_group_add)"
  by (induction m) (auto simp: algebra_simps split: if_splits)

lemma sum_list_bdel:
  "bsorted m \<Longrightarrow> map_of m k = Some v \<Longrightarrow>
   sum_list (map f (bdel k m)) = (sum_list (map f m) :: 'a::ab_group_add) - f (k, v)"
proof (induction m)
  case (Cons e m)
  show ?case
  proof (cases "fst e = k")
    case True
    have "bdel k m = m" using Cons.prems(1) True by (auto simp: bdel_def filter_id_conv)
    then show ?thesis using Cons.prems(2) True by (cases e) (auto simp: bdel_def)
  next
    case False
    then show ?thesis using Cons by (cases e) (auto simp: bdel_def algebra_simps)
  qed
qed simp

lemma length_filter_bins:
  "map_of m k = None \<Longrightarrow>
   length (filter P (bins k v m)) = length (filter P m) + (if P (k, v) then 1 else 0)"
  by (induction m) (auto split: if_splits)

lemma length_filter_bdel:
  "bsorted m \<Longrightarrow> map_of m k = Some v \<Longrightarrow>
   length (filter P m) = length (filter P (bdel k m)) + (if P (k, v) then 1 else 0)"
proof (induction m)
  case (Cons e m)
  show ?case
  proof (cases "fst e = k")
    case True
    have "bdel k m = m" using Cons.prems(1) True by (auto simp: bdel_def filter_id_conv)
    then show ?thesis using Cons.prems(2) True by (cases e) (auto simp: bdel_def)
  next
    case False
    then show ?thesis using Cons by (cases e) (auto simp: bdel_def)
  qed
qed simp

lemma last_opt_SomeD: "last_opt xs = Some x \<Longrightarrow> xs \<noteq> [] \<and> x = last xs \<and> x \<in> set xs"
  by (auto simp: last_opt_def split: if_splits)

lemma last_opt_None [simp]: "last_opt xs = None \<longleftrightarrow> xs = []"
  by (simp add: last_opt_def)

lemma last_opt_Nil [simp]: "last_opt [] = None"
  by simp

lemma head_opt_SomeD: "head_opt xs = Some x \<Longrightarrow> x \<in> set xs"
  by (auto simp: head_opt_def split: list.splits)

lemma head_opt_None [simp]: "head_opt xs = None \<longleftrightarrow> xs = []"
  by (simp add: head_opt_def split: list.splits)

lemma bins_append: "\<forall>k' \<in> fst ` set m. k' < k \<Longrightarrow> bins k v m = m @ [(k, v)]"
  by (induction m) auto

lemma length_card_dom: "bsorted m \<Longrightarrow> length m = card (dom (map_of m))"
  by (metis bsorted_distinct distinct_card dom_map_of_conv_image_fst length_map list.set_map)

text \<open>Mapping the values of an ordered map.\<close>

definition bvals_map :: "('v \<Rightarrow> 'w) \<Rightarrow> ('k, 'v) bmap \<Rightarrow> ('k, 'w) bmap" where
  "bvals_map f m = map (\<lambda>e. (fst e, f (snd e))) m"

lemma map_fst_bvals_map [simp]: "map fst (bvals_map f m) = map fst m"
  by (simp add: bvals_map_def)

lemma length_bvals_map [simp]: "length (bvals_map f m) = length m"
  by (simp add: bvals_map_def)

lemma map_of_bvals_map: "map_of (bvals_map f m) k = map_option f (map_of m k)"
  by (induction m) (auto simp: bvals_map_def)

lemma bvals_map_bins: "bvals_map f (bins k v m) = bins k (f v) (bvals_map f m)"
  by (induction m) (auto simp: bvals_map_def)

lemma bvals_map_bdel: "bvals_map f (bdel k m) = bdel k (bvals_map f m)"
  by (simp add: bvals_map_def bdel_def filter_map comp_def)

text \<open>The contract of a finite map, and what follows from it for whole batches of removals.\<close>

locale finite_map =
  fixes mget :: "'m \<Rightarrow> 'k \<Rightarrow> 'v option"
    and mins :: "'k \<Rightarrow> 'v \<Rightarrow> 'm \<Rightarrow> 'm"
    and mdel :: "'k \<Rightarrow> 'm \<Rightarrow> 'm"
    and minv :: "'m \<Rightarrow> bool"
  assumes get_ins: "minv m \<Longrightarrow> mget (mins k v m) = (mget m)(k \<mapsto> v)"
    and get_del: "minv m \<Longrightarrow> mget (mdel k m) = (mget m)(k := None)"
    and inv_ins: "minv m \<Longrightarrow> minv (mins k v m)"
    and inv_del: "minv m \<Longrightarrow> minv (mdel k m)"
begin

lemma inv_fold_del: "minv m \<Longrightarrow> minv (fold mdel ks m)"
  by (induction ks arbitrary: m) (auto simp: inv_del)

lemma get_fold_del:
  "minv m \<Longrightarrow> mget (fold mdel ks m) k = (if k \<in> set ks then None else mget m k)"
  by (induction ks arbitrary: m) (auto simp: get_del inv_del)

lemma get_del_ins: "minv m \<Longrightarrow> mget m k = None \<Longrightarrow> mget (mdel k (mins k v m)) = mget m"
  by (auto simp: get_ins get_del inv_ins)

end

interpretation bm: finite_map map_of bins bdel bsorted
  by unfold_locales (simp_all add: map_of_bins map_of_bdel bsorted_bins bsorted_bdel)

lemmas bmap_simps = map_of_bins map_of_bdel map_of_bupd bsorted_bins bsorted_bdel

section \<open>Taking a transaction and its dependents out of a sorted map\<close>

text \<open>
  The loop
  \<^verbatim>\<open>
  while let Some((id, tx)) = iter.next() {
      if bad(tx) { ...; while peek.sender == id.sender { ...; iter.next(); } } else { ... }
  }
  \<close>
  occurs in all sub-pools. \<open>scan_dependents\<close> marks each element: \<open>True\<close> where the loop takes the
  first branch or skips behind it, \<open>False\<close> where it takes the second. The argument \<open>skip\<close> is the
  group (the sender) that is being skipped.
\<close>

fun scan_dependents :: "('a \<Rightarrow> 's) \<Rightarrow> ('a \<Rightarrow> bool) \<Rightarrow> 's option \<Rightarrow> 'a list \<Rightarrow> (bool \<times> 'a) list" where
  "scan_dependents grp bad skip [] = []"
| "scan_dependents grp bad skip (x # xs) =
     (if skip = Some (grp x) then (True, x) # scan_dependents grp bad skip xs
      else if bad x then (True, x) # scan_dependents grp bad (Some (grp x)) xs
      else (False, x) # scan_dependents grp bad None xs)"

definition scan_removed :: "('a \<Rightarrow> 's) \<Rightarrow> ('a \<Rightarrow> bool) \<Rightarrow> 'a list \<Rightarrow> 'a list" where
  "scan_removed grp bad xs = map snd (filter fst (scan_dependents grp bad None xs))"

definition scan_kept :: "('a \<Rightarrow> 's) \<Rightarrow> ('a \<Rightarrow> bool) \<Rightarrow> 'a list \<Rightarrow> 'a list" where
  "scan_kept grp bad xs = map snd (filter (\<lambda>e. \<not> fst e) (scan_dependents grp bad None xs))"

lemma in_snd_bool: "x \<in> snd ` S \<longleftrightarrow> (True, x) \<in> S \<or> (False, x) \<in> S"
proof
  assume "x \<in> snd ` S"
  then obtain b where "(b, x) \<in> S" by auto
  then show "(True, x) \<in> S \<or> (False, x) \<in> S" by (cases b) auto
qed force

lemma in_scan_kept: "x \<in> set (scan_kept grp bad xs) \<longleftrightarrow> (False, x) \<in> set (scan_dependents grp bad None xs)"
  by (auto simp: scan_kept_def intro: image_eqI [where x = "(False, x)"])

lemma in_scan_removed:
  "x \<in> set (scan_removed grp bad xs) \<longleftrightarrow> (True, x) \<in> set (scan_dependents grp bad None xs)"
  by (auto simp: scan_removed_def intro: image_eqI [where x = "(True, x)"])

lemma scan_dependents_snd: "map snd (scan_dependents grp bad skip xs) = xs"
  by (induction xs arbitrary: skip) auto

lemma scan_dependents_kept_good:
  "(False, x) \<in> set (scan_dependents grp bad skip xs) \<Longrightarrow> \<not> bad x"
  by (induction xs arbitrary: skip) (auto split: if_splits)

lemma scan_kept_good: "x \<in> set (scan_kept grp bad xs) \<Longrightarrow> \<not> bad x"
  using scan_dependents_kept_good by (fastforce simp: scan_kept_def)

lemma set_scan_dependents: "snd ` set (scan_dependents grp bad skip xs) = set xs"
  by (metis scan_dependents_snd list.set_map)

lemma scan_partition: "set xs = set (scan_removed grp bad xs) \<union> set (scan_kept grp bad xs)"
  using set_scan_dependents [of grp bad None xs]
  by (auto simp: scan_removed_def scan_kept_def)

lemma subseq_filter_scan:
  "sorted_wrt R (map f xs) \<Longrightarrow>
   sorted_wrt R (map f (map snd (filter P (scan_dependents grp bad skip xs))))"
proof (induction xs arbitrary: skip)
  case (Cons x xs)
  have "R (f x) (f y)" if "(b, y) \<in> set (scan_dependents grp bad s xs)" for b y s
    using Cons.prems that set_scan_dependents [of grp bad s xs] by force
  with Cons show ?case by auto
qed simp

lemma sorted_scan_kept: "sorted_wrt R (map f xs) \<Longrightarrow> sorted_wrt R (map f (scan_kept grp bad xs))"
  unfolding scan_kept_def by (rule subseq_filter_scan)

lemma sorted_scan_removed:
  "sorted_wrt R (map f xs) \<Longrightarrow> sorted_wrt R (map f (scan_removed grp bad xs))"
  unfolding scan_removed_def by (rule subseq_filter_scan)

lemma scan_kept_filter:
  assumes "distinct xs"
  shows "scan_kept grp bad xs = filter (\<lambda>x. x \<notin> set (scan_removed grp bad xs)) xs"
proof -
  have "map snd (filter (\<lambda>e. \<not> fst e) d) = filter (\<lambda>x. x \<notin> snd ` {e \<in> set d. fst e}) (map snd d)"
    if "distinct (map snd d)" for d :: "(bool \<times> 'a) list"
    using that
  proof (induction d)
    case (Cons e d)
    let ?S = "snd ` {e \<in> set d. fst e}"
    have "{e' \<in> set (e # d). fst e'} = (if fst e then insert e {e \<in> set d. fst e} else {e \<in> set d. fst e})"
      by auto
    then have S: "snd ` {e' \<in> set (e # d). fst e'} = (if fst e then insert (snd e) ?S else ?S)"
      by simp
    have e: "snd e \<notin> set (map snd d)" using Cons.prems by simp
    have "filter (\<lambda>x. x \<notin> snd ` {e' \<in> set (e # d). fst e'}) (map snd d)
        = filter (\<lambda>x. x \<notin> ?S) (map snd d)"
    proof (rule filter_cong [OF refl])
      fix x assume "x \<in> set (map snd d)"
      then have "x \<noteq> snd e" using e by blast
      then show "x \<notin> snd ` {e' \<in> set (e # d). fst e'} \<longleftrightarrow> x \<notin> ?S" unfolding S by simp
    qed
    moreover have "?S \<subseteq> set (map snd d)" by auto
    then have "snd e \<notin> ?S" using e by (rule contra_subsetD)
    then have "snd e \<in> snd ` {e' \<in> set (e # d). fst e'} \<longleftrightarrow> fst e"
      unfolding S by simp
    ultimately show ?case using Cons by simp
  qed simp
  from this [of "scan_dependents grp bad None xs"] show ?thesis
    using assms by (simp add: scan_dependents_snd scan_kept_def scan_removed_def)
qed

end
