(* ===== verification/Pool_Types.thy ===== *)
theory Pool_Types
  imports Prelude
begin

text \<open>
  The data that every part of the transaction pool shares.

  \<^item> \<open>identifier.rs\<close>: sender identifiers and transaction identifiers with their order.
  \<^item> \<open>traits.rs\<close>, \<open>validate/mod.rs\<close>: a pooled transaction, seen through the accessors of the
    trait \<open>PoolTransaction\<close>, and \<open>ValidPoolTransaction\<close> with the replacement rule
    \<open>is_underpriced\<close>.
  \<^item> \<open>config.rs\<close>: limits, price bumps and the local-transaction rules.
  \<^item> \<open>ordering.rs\<close>, \<open>pool/size.rs\<close>: priorities and the size tracker.

  The lemmas show that the sender identifiers stay a bijection, that transaction identifiers are
  ordered so that the transactions of one sender are a contiguous block, and what a replacement
  must pay.
\<close>

section \<open>identifier.rs\<close>

type_synonym SenderId = u64

record sender_identifiers =
  next_sender :: u64
  address_to_id :: "(Address, SenderId) bmap"
  sender_to_address :: "(SenderId, Address) bmap"

definition default_identifiers :: sender_identifiers where
  "default_identifiers = \<lparr>next_sender = 0, address_to_id = [], sender_to_address = []\<rparr>"

definition address :: "sender_identifiers \<Rightarrow> SenderId \<Rightarrow> Address option" where
  "address s i = map_of (sender_to_address s) i"

definition sender_id :: "sender_identifiers \<Rightarrow> Address \<Rightarrow> SenderId option" where
  "sender_id s a = map_of (address_to_id s) a"

definition next_id :: "sender_identifiers \<Rightarrow> SenderId \<times> sender_identifiers" where
  "next_id s = (next_sender s, s\<lparr>next_sender := next_sender s + 1\<rparr>)"

definition sender_id_or_create ::
    "sender_identifiers \<Rightarrow> Address \<Rightarrow> SenderId \<times> sender_identifiers" where
  "sender_id_or_create s a =
     (case sender_id s a of
        Some i \<Rightarrow> (i, s)
      | None \<Rightarrow>
          (let (i, s1) = next_id s
           in (i, s1\<lparr>address_to_id := bins a i (address_to_id s1),
                     sender_to_address := bins i a (sender_to_address s1)\<rparr>)))"

fun sender_ids_or_create ::
    "sender_identifiers \<Rightarrow> Address list \<Rightarrow> SenderId list \<times> sender_identifiers" where
  "sender_ids_or_create s [] = ([], s)"
| "sender_ids_or_create s (a # as) =
     (let (i, s1) = sender_id_or_create s a; (is, s2) = sender_ids_or_create s1 as
      in (i # is, s2))"

datatype TransactionId = TransactionId (sender: SenderId) (nonce: u64)

text \<open>
  Rust's \<open>Ordering\<close> with \<open>then_with\<close>, and \<open>cmp\<close> on machine integers. The derived order of
  \<open>TransactionId\<close> compares the fields in the order of their declaration: lexicographic, sender first.
\<close>

datatype Ordering = Less | Equal | Greater

definition cmp :: "'a::linorder \<Rightarrow> 'a \<Rightarrow> Ordering" where
  "cmp a b = (if a < b then Less else if a = b then Equal else Greater)"

definition then_with :: "Ordering \<Rightarrow> Ordering \<Rightarrow> Ordering" where
  "then_with c d = (case c of Equal \<Rightarrow> d | _ \<Rightarrow> c)"

definition transaction_id_cmp :: "TransactionId \<Rightarrow> TransactionId \<Rightarrow> Ordering" where
  "transaction_id_cmp a b = then_with (cmp (sender a) (sender b)) (cmp (nonce a) (nonce b))"

lemma cmp_iff:
  "cmp a b = Less \<longleftrightarrow> a < b"
  "cmp a b = Equal \<longleftrightarrow> a = b"
  "cmp a b = Greater \<longleftrightarrow> b < a"
  by (auto simp: cmp_def)

lemma transaction_id_cmp_iff:
  "transaction_id_cmp a b = Less \<longleftrightarrow>
     sender a < sender b \<or> sender a = sender b \<and> nonce a < nonce b"
  "transaction_id_cmp a b = Greater \<longleftrightarrow>
     sender b < sender a \<or> sender a = sender b \<and> nonce b < nonce a"
  by (auto simp: transaction_id_cmp_def then_with_def cmp_def)

instantiation TransactionId :: linorder
begin

definition less_eq_TransactionId :: "TransactionId \<Rightarrow> TransactionId \<Rightarrow> bool" where
  "less_eq_TransactionId a b \<longleftrightarrow> transaction_id_cmp a b \<noteq> Greater"

definition less_TransactionId :: "TransactionId \<Rightarrow> TransactionId \<Rightarrow> bool" where
  "less_TransactionId a b \<longleftrightarrow> transaction_id_cmp a b = Less"

instance
  by intro_classes
    (auto simp: less_eq_TransactionId_def less_TransactionId_def transaction_id_cmp_iff
      TransactionId.expand)

end

lemma tid_le:
  fixes a b :: TransactionId
  shows "a \<le> b \<longleftrightarrow> sender a < sender b \<or> sender a = sender b \<and> nonce a \<le> nonce b"
  by (auto simp: less_eq_TransactionId_def transaction_id_cmp_iff)

lemma tid_less:
  fixes a b :: TransactionId
  shows "a < b \<longleftrightarrow> sender a < sender b \<or> sender a = sender b \<and> nonce a < nonce b"
  by (auto simp: less_TransactionId_def transaction_id_cmp_iff)

lemmas tid_order = tid_le tid_less

definition next_nonce :: "TransactionId \<Rightarrow> u64" where
  "next_nonce i = nonce i + 1"

definition descendant :: "TransactionId \<Rightarrow> TransactionId" where
  "descendant i = TransactionId (sender i) (next_nonce i)"

definition unchecked_ancestor :: "TransactionId \<Rightarrow> TransactionId option" where
  "unchecked_ancestor i =
     (if nonce i \<noteq> 0 then Some (TransactionId (sender i) (nonce i - 1)) else None)"

definition ancestor :: "u64 \<Rightarrow> u64 \<Rightarrow> SenderId \<Rightarrow> TransactionId option" where
  "ancestor transaction_nonce on_chain_nonce s =
     (if on_chain_nonce < transaction_nonce
      then Some (TransactionId s (transaction_nonce - 1)) else None)"

definition start_bound :: "SenderId \<Rightarrow> TransactionId" where
  "start_bound s = TransactionId s 0"

text \<open>\<open>BTreeMap::range(sender.range())\<close>: nonces \<open>0\<close> to \<open>u64::MAX\<close> of one sender.\<close>

definition sender_range :: "SenderId \<Rightarrow> (TransactionId, 'v) bmap \<Rightarrow> (TransactionId, 'v) bmap" where
  "sender_range s m =
     filter (\<lambda>e. TransactionId s 0 \<le> fst e \<and> fst e \<le> TransactionId s max_of) m"

section \<open>traits.rs and ordering.rs\<close>

datatype TransactionOrigin = Local | External | Private

definition origin_is_local :: "TransactionOrigin \<Rightarrow> bool" where
  "origin_is_local og \<longleftrightarrow> og = Local"

text \<open>
  The accessors of the trait \<open>PoolTransaction\<close> that the pool calls. Implementations live outside
  this code base; the pool only relies on the accessors being functions of the transaction.
\<close>

record pool_transaction =
  pt_hash :: B256
  pt_sender :: Address
  pt_nonce :: u64
  pt_cost :: U256
  pt_gas_limit :: u64
  pt_max_fee_per_gas :: u128
  pt_max_priority_fee_per_gas :: "u128 option"
  pt_max_fee_per_blob_gas :: "u128 option"
  pt_ty :: u8
  pt_is_eip4844 :: bool
  pt_size :: usize

record block_info =
  bi_last_seen_block_hash :: B256
  bi_last_seen_block_number :: u64
  bi_block_gas_limit :: u64
  bi_pending_basefee :: u64
  bi_pending_blob_fee :: "u128 option"

record pool_size =
  ps_pending :: nat
  ps_pending_size :: usize
  ps_blob :: nat
  ps_blob_size :: usize
  ps_basefee :: nat
  ps_basefee_size :: usize
  ps_queued :: nat
  ps_queued_size :: usize
  ps_total :: nat

record best_attributes =
  ba_basefee :: u64
  ba_blob_fee :: "u64 option"

text \<open>\<open>Priority\<close> is an option whose \<open>None\<close> is below every value; the values are \<open>u128\<close> tips.\<close>

datatype Priority = NoPriority | Priority u128

fun priority_cmp :: "Priority \<Rightarrow> Priority \<Rightarrow> Ordering" where
  "priority_cmp (Priority a) (Priority b) = cmp a b"
| "priority_cmp (Priority _) NoPriority = Greater"
| "priority_cmp NoPriority (Priority _) = Less"
| "priority_cmp NoPriority NoPriority = Equal"

definition priority_partial_cmp :: "Priority \<Rightarrow> Priority \<Rightarrow> Ordering option" where
  "priority_partial_cmp a b = Some (priority_cmp a b)"

text \<open>The operators \<open><=\<close> and \<open><\<close> of Rust read the result of \<open>partial_cmp\<close>.\<close>

instantiation Priority :: linorder
begin

definition less_eq_Priority :: "Priority \<Rightarrow> Priority \<Rightarrow> bool" where
  "less_eq_Priority a b \<longleftrightarrow> priority_partial_cmp a b \<in> {Some Less, Some Equal}"

definition less_Priority :: "Priority \<Rightarrow> Priority \<Rightarrow> bool" where
  "less_Priority a b \<longleftrightarrow> priority_partial_cmp a b = Some Less"

instance
proof
  fix x y z :: Priority
  note defs = less_eq_Priority_def less_Priority_def priority_partial_cmp_def cmp_iff
  show "x < y \<longleftrightarrow> x \<le> y \<and> \<not> y \<le> x" by (cases x; cases y) (auto simp: defs)
  show "x \<le> x" by (cases x) (auto simp: defs)
  show "x \<le> y \<Longrightarrow> y \<le> z \<Longrightarrow> x \<le> z" by (cases x; cases y; cases z) (auto simp: defs)
  show "x \<le> y \<Longrightarrow> y \<le> x \<Longrightarrow> x = y" by (cases x; cases y) (auto simp: defs)
  show "x \<le> y \<or> y \<le> x" by (cases x; cases y) (auto simp: defs)
qed

end

lemma priority_le [simp]:
  "Priority a \<le> Priority b \<longleftrightarrow> a \<le> b"
  "\<not> Priority a \<le> NoPriority"
  "NoPriority \<le> p"
  by (cases p; auto simp: less_eq_Priority_def priority_partial_cmp_def cmp_iff)+

lemma priority_less:
  fixes a b :: Priority
  shows "a < b \<longleftrightarrow> a \<le> b \<and> \<not> b \<le> a"
  by (rule less_le_not_le)

text \<open>
  \<open>CoinbaseTipOrdering\<close>: the priority is the effective tip. How the tip follows from the fees and the
  base fee is defined by the transaction type, outside this code base: it is the parameter
  \<open>effective_tip\<close>.
\<close>

definition priority_from :: "u128 option \<Rightarrow> Priority" where
  "priority_from v = (case v of None \<Rightarrow> NoPriority | Some x \<Rightarrow> Priority x)"

definition coinbase_tip_ordering ::
    "(pool_transaction \<Rightarrow> u64 \<Rightarrow> u128 option) \<Rightarrow> pool_transaction \<Rightarrow> u64 \<Rightarrow> Priority" where
  "coinbase_tip_ordering effective_tip t basefee = priority_from (effective_tip t basefee)"

section \<open>pool/size.rs\<close>

text \<open>
  The tracker is an \<open>isize\<close> that is read back as \<open>usize\<close>: additions, subtractions and the two
  casts are those of the ring of 64-bit words.
\<close>

type_synonym SizeTracker = usize

definition size_reset :: SizeTracker where
  "size_reset = 0"

definition size_add :: "SizeTracker \<Rightarrow> usize \<Rightarrow> SizeTracker" where
  "size_add t n = t + n"

definition size_sub :: "SizeTracker \<Rightarrow> usize \<Rightarrow> SizeTracker" where
  "size_sub t n = t - n"

section \<open>validate/mod.rs: ValidPoolTransaction\<close>

record valid_pool_tx =
  vp_transaction :: pool_transaction
  transaction_id :: TransactionId
  propagate :: bool
  timestamp :: nat
  origin :: TransactionOrigin
  authority_ids :: "SenderId list option"

definition tx_hash :: "valid_pool_tx \<Rightarrow> B256" where
  "tx_hash t = pt_hash (vp_transaction t)"

definition tx_sender_id :: "valid_pool_tx \<Rightarrow> SenderId" where
  "tx_sender_id t = sender (transaction_id t)"

definition tx_nonce :: "valid_pool_tx \<Rightarrow> u64" where
  "tx_nonce t = pt_nonce (vp_transaction t)"

definition tx_cost :: "valid_pool_tx \<Rightarrow> U256" where
  "tx_cost t = pt_cost (vp_transaction t)"

definition max_fee_per_gas :: "valid_pool_tx \<Rightarrow> u128" where
  "max_fee_per_gas t = pt_max_fee_per_gas (vp_transaction t)"

definition max_fee_per_blob_gas :: "valid_pool_tx \<Rightarrow> u128 option" where
  "max_fee_per_blob_gas t = pt_max_fee_per_blob_gas (vp_transaction t)"

definition tx_gas_limit :: "valid_pool_tx \<Rightarrow> u64" where
  "tx_gas_limit t = pt_gas_limit (vp_transaction t)"

definition tx_type :: "valid_pool_tx \<Rightarrow> u8" where
  "tx_type t = pt_ty (vp_transaction t)"

definition is_eip4844 :: "valid_pool_tx \<Rightarrow> bool" where
  "is_eip4844 t = pt_is_eip4844 (vp_transaction t)"

definition tx_size :: "valid_pool_tx \<Rightarrow> usize" where
  "tx_size t = pt_size (vp_transaction t)"

definition tx_is_local :: "valid_pool_tx \<Rightarrow> bool" where
  "tx_is_local t = origin_is_local (origin t)"

definition tx_type_conflicts_with :: "valid_pool_tx \<Rightarrow> valid_pool_tx \<Rightarrow> bool" where
  "tx_type_conflicts_with t other \<longleftrightarrow> is_eip4844 t \<noteq> is_eip4844 other"

lemmas tx_accessors = tx_hash_def tx_sender_id_def tx_nonce_def tx_cost_def max_fee_per_gas_def
  max_fee_per_blob_gas_def tx_gas_limit_def tx_type_def is_eip4844_def tx_size_def tx_is_local_def
  origin_is_local_def tx_type_conflicts_with_def

section \<open>config.rs\<close>

definition EIP4844_TX_TYPE_ID :: u8 where
  "EIP4844_TX_TYPE_ID = 3"

record sub_pool_limit =
  max_txs :: nat
  max_size :: usize

definition limit_is_exceeded :: "sub_pool_limit \<Rightarrow> nat \<Rightarrow> usize \<Rightarrow> bool" where
  "limit_is_exceeded l n sz \<longleftrightarrow> max_txs l < n \<or> max_size l < sz"

definition tx_excess :: "sub_pool_limit \<Rightarrow> nat \<Rightarrow> nat option" where
  "tx_excess l n = (if max_txs l \<le> n then Some (n - max_txs l) else None)"

definition default_sub_pool_limit :: sub_pool_limit where
  "default_sub_pool_limit = \<lparr>max_txs = 10000, max_size = 20 * 1024 * 1024\<rparr>"

definition unlimited :: sub_pool_limit where
  "unlimited = \<lparr>max_txs = 2 ^ 64 - 1, max_size = max_of\<rparr>"

text \<open>Scaling a limit wraps like every multiplication of machine integers.\<close>

definition scale_limit :: "sub_pool_limit \<Rightarrow> usize \<Rightarrow> sub_pool_limit" where
  "scale_limit l k = \<lparr>max_txs = unat (of_nat (max_txs l) * k), max_size = max_size l * k\<rparr>"

record price_bump_config =
  default_price_bump :: u128
  replace_blob_tx_price_bump :: u128

definition price_bump :: "price_bump_config \<Rightarrow> u8 \<Rightarrow> u128" where
  "price_bump c ty =
     (if ty = EIP4844_TX_TYPE_ID then replace_blob_tx_price_bump c else default_price_bump c)"

definition default_price_bumps :: price_bump_config where
  "default_price_bumps = \<lparr>default_price_bump = 10, replace_blob_tx_price_bump = 100\<rparr>"

record local_tx_config =
  no_exemptions :: bool
  local_addresses :: "Address list"
  propagate_local_transactions :: bool

definition default_local_config :: local_tx_config where
  "default_local_config =
     \<lparr>no_exemptions = False, local_addresses = [], propagate_local_transactions = True\<rparr>"

definition set_propagate_local_transactions :: "bool \<Rightarrow> local_tx_config \<Rightarrow> local_tx_config" where
  "set_propagate_local_transactions b c = c\<lparr>propagate_local_transactions := b\<rparr>"

definition contains_local_address :: "local_tx_config \<Rightarrow> Address \<Rightarrow> bool" where
  "contains_local_address c a \<longleftrightarrow> a \<in> set (local_addresses c)"

definition config_is_local :: "local_tx_config \<Rightarrow> TransactionOrigin \<Rightarrow> Address \<Rightarrow> bool" where
  "config_is_local c og a =
     (if no_exemptions c then False else origin_is_local og \<or> contains_local_address c a)"

record pool_config =
  pending_limit :: sub_pool_limit
  basefee_limit :: sub_pool_limit
  queued_limit :: sub_pool_limit
  blob_limit :: sub_pool_limit
  blob_cache_size :: "nat option"
  cfg_max_account_slots :: nat
  cfg_price_bumps :: price_bump_config
  cfg_minimal_protocol_basefee :: u64
  minimum_priority_fee :: "u128 option"
  cfg_gas_limit :: u64
  cfg_local_transactions_config :: local_tx_config
  pending_tx_listener_buffer_size :: nat
  new_tx_listener_buffer_size :: nat
  max_new_pending_txs_notifications :: nat
  max_queued_lifetime_secs :: nat
  max_inflight_delegated_slot_limit :: nat

definition default_pool_config :: pool_config where
  "default_pool_config =
     \<lparr>pending_limit = default_sub_pool_limit, basefee_limit = default_sub_pool_limit,
      queued_limit = default_sub_pool_limit, blob_limit = default_sub_pool_limit,
      blob_cache_size = None, cfg_max_account_slots = 16, cfg_price_bumps = default_price_bumps,
      cfg_minimal_protocol_basefee = 7, minimum_priority_fee = None, cfg_gas_limit = 30000000,
      cfg_local_transactions_config = default_local_config,
      pending_tx_listener_buffer_size = 2048, new_tx_listener_buffer_size = 1024,
      max_new_pending_txs_notifications = 200, max_queued_lifetime_secs = 3 * 60 * 60,
      max_inflight_delegated_slot_limit = 1\<rparr>"

definition with_protocol_base_fee :: "u64 \<Rightarrow> pool_config \<Rightarrow> pool_config" where
  "with_protocol_base_fee fee c = c\<lparr>cfg_minimal_protocol_basefee := fee\<rparr>"

definition with_disabled_protocol_base_fee :: "pool_config \<Rightarrow> pool_config" where
  "with_disabled_protocol_base_fee c = with_protocol_base_fee 0 c"

definition with_max_inflight_delegated_slots :: "nat \<Rightarrow> pool_config \<Rightarrow> pool_config" where
  "with_max_inflight_delegated_slots n c = c\<lparr>max_inflight_delegated_slot_limit := n\<rparr>"

definition config_is_exceeded :: "pool_config \<Rightarrow> pool_size \<Rightarrow> bool" where
  "config_is_exceeded c s \<longleftrightarrow>
     limit_is_exceeded (blob_limit c) (ps_blob s) (ps_blob_size s) \<or>
     limit_is_exceeded (pending_limit c) (ps_pending s) (ps_pending_size s) \<or>
     limit_is_exceeded (basefee_limit c) (ps_basefee s) (ps_basefee_size s) \<or>
     limit_is_exceeded (queued_limit c) (ps_queued s) (ps_queued_size s)"

section \<open>The replacement rule\<close>

definition required_bumped_fee :: "u128 \<Rightarrow> u128 \<Rightarrow> u128" where
  "required_bumped_fee bump fee = div_ceil (saturating_mul fee (100 + bump)) 100"

definition is_underpriced :: "valid_pool_tx \<Rightarrow> valid_pool_tx \<Rightarrow> price_bump_config \<Rightarrow> bool" where
  "is_underpriced t maybe_replacement bumps =
     (let required = required_bumped_fee (price_bump bumps (tx_type t));
          old_tip = (case pt_max_priority_fee_per_gas (vp_transaction t) of
                       None \<Rightarrow> 0 | Some f \<Rightarrow> f);
          new_tip = (case pt_max_priority_fee_per_gas (vp_transaction maybe_replacement) of
                       None \<Rightarrow> 0 | Some f \<Rightarrow> f)
      in if max_fee_per_gas maybe_replacement < required (max_fee_per_gas t) then True
         else if old_tip \<noteq> 0 \<and> new_tip \<noteq> 0 \<and> new_tip < required old_tip then True
         else case max_fee_per_blob_gas t of
                None \<Rightarrow> False
              | Some old_blob \<Rightarrow>
                  (case max_fee_per_blob_gas maybe_replacement of None \<Rightarrow> 0 | Some f \<Rightarrow> f)
                    < required old_blob)"

section \<open>Sender identifiers are a bijection\<close>

text \<open>
  The two maps are inverse to each other and every assigned identifier lies below the counter;
  identifiers are never reused as long as the counter has not wrapped.
\<close>

definition identifiers_ok :: "sender_identifiers \<Rightarrow> bool" where
  "identifiers_ok s \<longleftrightarrow>
     (\<forall>a i. sender_id s a = Some i \<longleftrightarrow> address s i = Some a) \<and>
     (\<forall>a i. sender_id s a = Some i \<longrightarrow> i < next_sender s)"

lemma identifiers_ok_default: "identifiers_ok default_identifiers"
  by (simp add: identifiers_ok_def default_identifiers_def sender_id_def address_def)

lemma sender_id_or_create_known:
  "sender_id s a = Some i \<Longrightarrow> sender_id_or_create s a = (i, s)"
  by (simp add: sender_id_or_create_def)

lemma sender_id_or_create_new:
  assumes "sender_id s a = None" and "sender_id_or_create s a = (i, s')"
  shows "i = next_sender s" and "next_sender s' = next_sender s + 1"
    and "sender_id s' = (sender_id s)(a \<mapsto> i)" and "address s' = (address s)(i \<mapsto> a)"
  using assms
  by (auto simp: sender_id_or_create_def next_id_def sender_id_def address_def map_of_bins fun_eq_iff)

lemma identifiers_ok_create:
  assumes ok: "identifiers_ok s" and room: "next_sender s \<noteq> max_of"
    and create: "sender_id_or_create s a = (i, s')"
  shows "identifiers_ok s' \<and> sender_id s' a = Some i \<and> address s' i = Some a"
proof (cases "sender_id s a")
  case (Some j)
  then show ?thesis
    using ok create by (auto simp: sender_id_or_create_known identifiers_ok_def)
next
  case None
  note new = sender_id_or_create_new [OF None create]
  have fresh: "address s i \<noteq> Some b" for b
    using ok new(1) by (auto simp: identifiers_ok_def)
  have unknown: "address s j \<noteq> Some a" for j
    using ok None unfolding identifiers_ok_def by (metis option.distinct(1))
  have below: "j < next_sender s + 1" if "sender_id s b = Some j" for b j
    using ok room that by (auto simp: identifiers_ok_def intro: word_less_succ)
  have top: "next_sender s < next_sender s + 1"
    using room by (rule word_self_less_succ)
  have "sender_id s' b = Some j \<longleftrightarrow> address s' j = Some b" for b j
    using ok fresh unknown None by (auto simp: identifiers_ok_def new)
  moreover have "j < next_sender s'" if "sender_id s' b = Some j" for b j
    using that below top by (auto simp: new split: if_splits)
  ultimately show ?thesis
    by (simp add: identifiers_ok_def new)
qed

text \<open>A whole batch needs as many free identifiers as it has addresses.\<close>

lemma next_sender_create:
  "sender_id_or_create s a = (i, s') \<Longrightarrow> next_sender s' = next_sender s \<or> next_sender s' = next_sender s + 1"
  by (cases "sender_id s a") (auto simp: sender_id_or_create_known dest: sender_id_or_create_new)

lemma unat_next_sender_create:
  assumes "sender_id_or_create s a = (i, s')" and "unat (next_sender s) < 2 ^ 64 - 1"
  shows "unat (next_sender s') \<le> Suc (unat (next_sender s))"
  using next_sender_create [OF assms(1)] assms(2) by (auto simp: unat_word_ariths)

lemma sender_id_create_mono:
  assumes "sender_id_or_create s a = (i, s')" and "sender_id s b = Some j"
  shows "sender_id s' b = Some j"
proof (cases "sender_id s a")
  case None
  have "sender_id s' = (sender_id s)(a \<mapsto> i)" by (rule sender_id_or_create_new(3) [OF None assms(1)])
  then show ?thesis using None assms(2) by auto
next
  case (Some k)
  then show ?thesis using assms by (simp add: sender_id_or_create_known)
qed

lemma identifiers_ok_create_all:
  "identifiers_ok s \<Longrightarrow> unat (next_sender s) + length as \<le> 2 ^ 64 - 1 \<Longrightarrow>
   sender_ids_or_create s as = (is, s') \<Longrightarrow>
   identifiers_ok s' \<and> list_all2 (\<lambda>a i. sender_id s' a = Some i) as is \<and>
   (\<forall>b j. sender_id s b = Some j \<longrightarrow> sender_id s' b = Some j)"
proof (induction as arbitrary: s "is")
  case (Cons a as)
  obtain i s1 where one: "sender_id_or_create s a = (i, s1)" by fastforce
  obtain is2 s2 where rest: "sender_ids_or_create s1 as = (is2, s2)" by fastforce
  have lt: "unat (next_sender s) < 2 ^ 64 - 1" using Cons.prems(2) by simp
  then have "next_sender s \<noteq> max_of" using unat_max_of [where 'a = 64] by auto
  from identifiers_ok_create [OF Cons.prems(1) this one]
  have ok1: "identifiers_ok s1" and a: "sender_id s1 a = Some i" by simp_all
  have "unat (next_sender s1) + length as \<le> 2 ^ 64 - 1"
    using unat_next_sender_create [OF one lt] Cons.prems(2) by simp
  moreover have rest': "sender_ids_or_create s1 as = (is2, s')" and "is": "is = i # is2"
    using Cons.prems(3) one rest by auto
  ultimately show ?case
    using Cons.IH [OF ok1 _ rest'] a sender_id_create_mono [OF one] by auto
qed simp

section \<open>The transactions of a sender are a contiguous block\<close>

lemma takeWhile_eq_filter:
  assumes "sorted_wrt R xs" and "\<And>x y. x \<in> set xs \<Longrightarrow> R x y \<Longrightarrow> P y \<Longrightarrow> P x"
  shows "takeWhile P xs = filter P xs"
  using assms
proof (induction xs)
  case (Cons x xs)
  have "filter P xs = []" if "\<not> P x"
    using Cons.prems that by (auto simp: filter_empty_conv)
  moreover have "takeWhile P xs = filter P xs"
    using Cons by auto
  ultimately show ?case by simp
qed simp

lemma sorted_wrt_fst: "sorted_wrt R (map fst m) \<Longrightarrow> sorted_wrt (\<lambda>a b. R (fst a) (fst b)) m"
  by (simp add: sorted_wrt_map)

text \<open>The two iterator idioms of the sources, as filters.\<close>

lemma by_sender_filter:
  "bsorted m \<Longrightarrow>
   takeWhile (\<lambda>e. sender (fst e) = s) (bfrom (start_bound s) m) = filter (\<lambda>e. sender (fst e) = s) m"
proof -
  assume sm: "bsorted m"
  have "takeWhile (\<lambda>e. sender (fst e) = s) (bfrom (start_bound s) m)
      = filter (\<lambda>e. sender (fst e) = s) (bfrom (start_bound s) m)"
    by (rule takeWhile_eq_filter [OF sorted_wrt_fst [OF bsorted_bfrom [OF sm]]])
      (auto simp: bfrom_def start_bound_def tid_order)
  also have "\<dots> = filter (\<lambda>e. sender (fst e) = s) m"
    by (auto simp: bfrom_def start_bound_def tid_order intro!: filter_cong)
  finally show ?thesis .
qed

lemma descendants_filter:
  "bsorted m \<Longrightarrow>
   takeWhile (\<lambda>e. sender (fst e) = sender i) (bfrom i m)
     = filter (\<lambda>e. sender (fst e) = sender i \<and> nonce i \<le> nonce (fst e)) m"
proof -
  assume sm: "bsorted m"
  have "takeWhile (\<lambda>e. sender (fst e) = sender i) (bfrom i m)
      = filter (\<lambda>e. sender (fst e) = sender i) (bfrom i m)"
    by (rule takeWhile_eq_filter [OF sorted_wrt_fst [OF bsorted_bfrom [OF sm]]])
      (auto simp: bfrom_def tid_order)
  also have "\<dots> = filter (\<lambda>e. sender (fst e) = sender i \<and> nonce i \<le> nonce (fst e)) m"
    by (auto simp: bfrom_def tid_order intro!: filter_cong)
  finally show ?thesis .
qed

lemma sender_range_filter: "sender_range s m = filter (\<lambda>e. sender (fst e) = s) m"
  by (auto simp: sender_range_def tid_order intro!: filter_cong)

lemma last_sender_range:
  assumes "bsorted m" and "last_opt (sender_range s m) = Some e"
  shows "e \<in> set m" and "sender (fst e) = s"
    and "f \<in> set m \<Longrightarrow> sender (fst f) = s \<Longrightarrow> nonce (fst f) \<le> nonce (fst e)"
proof -
  let ?r = "sender_range s m"
  have e: "?r \<noteq> []" "e = last ?r" using last_opt_SomeD [OF assms(2)] by auto
  then have "e \<in> set ?r" by simp
  then show em: "e \<in> set m" and es: "sender (fst e) = s" by (auto simp: sender_range_filter)
  have r: "?r = butlast ?r @ [e]" using e by simp
  have "bsorted ?r" using assms(1) by (simp add: sender_range_filter bsorted_filter)
  then have "\<forall>f \<in> set (butlast ?r). fst f < fst e"
    by (subst (asm) r) (auto simp: sorted_wrt_append)
  moreover have "f \<in> set ?r" if "f \<in> set m" "sender (fst f) = s"
    using that by (simp add: sender_range_filter)
  moreover have "set ?r = insert e (set (butlast ?r))" by (subst r) simp
  ultimately show "f \<in> set m \<Longrightarrow> sender (fst f) = s \<Longrightarrow> nonce (fst f) \<le> nonce (fst e)"
    using es by (auto simp: tid_order)
qed

text \<open>
  On a map sorted by identifier the scan keeps an entry exactly when neither it nor an entry of the
  same sender with a lower nonce is bad.
\<close>

lemma scan_dependents_kept_iff:
  assumes "bsorted m" and "\<And>s e. skip = Some s \<Longrightarrow> e \<in> set m \<Longrightarrow> s \<le> sender (fst e)"
  shows "(False, e) \<in> set (scan_dependents (\<lambda>e. sender (fst e)) bad skip m) \<longleftrightarrow>
     e \<in> set m \<and> skip \<noteq> Some (sender (fst e)) \<and>
     (\<forall>f \<in> set m. sender (fst f) = sender (fst e) \<and> nonce (fst f) \<le> nonce (fst e) \<longrightarrow> \<not> bad f)"
  using assms
proof (induction m arbitrary: skip)
  case (Cons x m)
  have le: "sender (fst x) \<le> sender (fst f)"
    and lt: "sender (fst x) = sender (fst f) \<Longrightarrow> nonce (fst x) < nonce (fst f)" if "f \<in> set m" for f
    using Cons.prems(1) that by (auto simp: tid_order)
  have sm: "bsorted m" using Cons.prems(1) by simp
  have x: "x \<notin> set m" using lt by blast
  have IH: "(False, e) \<in> set (scan_dependents (\<lambda>e. sender (fst e)) bad skip' m) \<longleftrightarrow>
     e \<in> set m \<and> skip' \<noteq> Some (sender (fst e)) \<and>
     (\<forall>f \<in> set m. sender (fst f) = sender (fst e) \<and> nonce (fst f) \<le> nonce (fst e) \<longrightarrow> \<not> bad f)"
    if "skip' = None \<or> skip' = Some (sender (fst x))" for skip'
    using that le by (intro Cons.IH [OF sm]) auto
  have other: "skip \<noteq> Some (sender (fst f))"
    if "f \<in> set m" and "skip \<noteq> Some (sender (fst x))" for f
    using Cons.prems(2) [of "sender (fst f)" x] le [OF that(1)] that(2) by fastforce
  consider "skip = Some (sender (fst x))" | "skip \<noteq> Some (sender (fst x))" "bad x"
    | "skip \<noteq> Some (sender (fst x))" "\<not> bad x" by blast
  then show ?case
  proof cases
    case 1
    then show ?thesis using x IH [of skip] by auto
  next
    case 2
    then show ?thesis using x IH [of "Some (sender (fst x))"] other [of e] lt [of e]
      by (auto simp: order.strict_iff_not)
  next
    case 3
    have "\<not> (sender (fst f) = sender (fst x) \<and> nonce (fst f) \<le> nonce (fst x))" if "f \<in> set m" for f
      using lt [OF that] by auto
    with 3 show ?thesis using x IH [of None] other [of e] lt [of e] by auto
  qed
qed simp

lemma scan_kept_iff:
  "bsorted m \<Longrightarrow>
   e \<in> set (scan_kept (\<lambda>e. sender (fst e)) bad m) \<longleftrightarrow>
   e \<in> set m \<and> (\<forall>f \<in> set m. sender (fst f) = sender (fst e) \<and> nonce (fst f) \<le> nonce (fst e) \<longrightarrow> \<not> bad f)"
  unfolding in_scan_kept by (subst scan_dependents_kept_iff) simp_all

lemma scan_removed_iff:
  assumes "bsorted m"
  shows "e \<in> set (scan_removed (\<lambda>e. sender (fst e)) bad m) \<longleftrightarrow>
   e \<in> set m \<and> (\<exists>f \<in> set m. sender (fst f) = sender (fst e) \<and> nonce (fst f) \<le> nonce (fst e) \<and> bad f)"
proof -
  let ?d = "scan_dependents (\<lambda>e. sender (fst e)) bad None m"
  have dist: "distinct (map snd ?d)"
    unfolding scan_dependents_snd using bsorted_distinct [OF assms] by (simp add: distinct_map)
  have "\<not> ((True, e) \<in> set ?d \<and> (False, e) \<in> set ?d)"
    using dist inj_onD [of snd "set ?d" "(True, e)" "(False, e)"] by (auto simp: distinct_map)
  moreover have "e \<in> set m \<longleftrightarrow> (True, e) \<in> set ?d \<or> (False, e) \<in> set ?d"
    by (simp only: set_scan_dependents flip: in_snd_bool)
  ultimately show ?thesis
    unfolding in_scan_removed using scan_dependents_kept_iff [OF assms, of None e bad] by auto
qed

section \<open>What a replacement pays\<close>

text \<open>
  With the factor \<open>100 + bump\<close> representable and the product below \<open>2 ^ 128\<close>, the bumped fee is the
  exact product rounded up; otherwise the product saturates.
\<close>

lemma unat_required_bumped_fee:
  assumes "100 + unat bump < 2 ^ 128"
  shows "unat (required_bumped_fee bump fee)
    = (min (unat fee * (100 + unat bump)) (2 ^ 128 - 1) + 99) div 100"
proof -
  have "unat (100 + bump) = 100 + unat bump"
    using assms by (simp add: unat_word_ariths)
  then show ?thesis
    by (simp add: required_bumped_fee_def rust_arith)
qed

lemma required_bumped_fee_le:
  assumes "100 + unat bump < 2 ^ 128" and "unat fee * (100 + unat bump) < 2 ^ 128"
    and "required_bumped_fee bump fee \<le> new"
  shows "unat fee * (100 + unat bump) \<le> 100 * unat new"
proof -
  have "(unat fee * (100 + unat bump) + 99) div 100 \<le> unat new"
    using assms by (simp add: word_le_nat_alt unat_required_bumped_fee min_def split: if_splits)
  then show ?thesis by linarith
qed

lemma not_underpriced_fee:
  "\<not> is_underpriced t r bumps \<Longrightarrow>
   required_bumped_fee (price_bump bumps (tx_type t)) (max_fee_per_gas t) \<le> max_fee_per_gas r"
  by (auto simp: is_underpriced_def Let_def split: if_splits)

lemma not_underpriced_blob_fee:
  "\<not> is_underpriced t r bumps \<Longrightarrow> max_fee_per_blob_gas t = Some f \<Longrightarrow>
   required_bumped_fee (price_bump bumps (tx_type t)) f
     \<le> (case max_fee_per_blob_gas r of None \<Rightarrow> 0 | Some f' \<Rightarrow> f')"
  by (auto simp: is_underpriced_def Let_def split: if_splits option.splits)

section \<open>Transactions for examples\<close>

text \<open>A transaction of sender \<open>s\<close> with nonce \<open>n\<close>, cost, fee cap and size; the hash tells them apart.\<close>

definition example_tx :: "SenderId \<Rightarrow> u64 \<Rightarrow> U256 \<Rightarrow> u128 \<Rightarrow> usize \<Rightarrow> valid_pool_tx" where
  "example_tx s n cost fee sz =
     \<lparr>vp_transaction =
        \<lparr>pt_hash = ucast s * 1000 + ucast n, pt_sender = ucast s, pt_nonce = n, pt_cost = cost,
         pt_gas_limit = 21000, pt_max_fee_per_gas = fee, pt_max_priority_fee_per_gas = Some 0,
         pt_max_fee_per_blob_gas = None, pt_ty = 2, pt_is_eip4844 = False, pt_size = sz\<rparr>,
      transaction_id = TransactionId s n, propagate = True, timestamp = 0, origin = External,
      authority_ids = None\<rparr>"

definition example_blob_tx :: "SenderId \<Rightarrow> u64 \<Rightarrow> u128 \<Rightarrow> u128 \<Rightarrow> valid_pool_tx" where
  "example_blob_tx s n fee blobfee =
     \<lparr>vp_transaction =
        \<lparr>pt_hash = ucast s * 1000 + ucast n, pt_sender = ucast s, pt_nonce = n, pt_cost = 10,
         pt_gas_limit = 21000, pt_max_fee_per_gas = fee, pt_max_priority_fee_per_gas = Some 0,
         pt_max_fee_per_blob_gas = Some blobfee, pt_ty = 3, pt_is_eip4844 = True, pt_size = 100\<rparr>,
      transaction_id = TransactionId s n, propagate = True, timestamp = 0, origin = External,
      authority_ids = None\<rparr>"

lemma example_tx_simps [simp]:
  "transaction_id (example_tx s n c f z) = TransactionId s n" "tx_nonce (example_tx s n c f z) = n"
  "max_fee_per_gas (example_tx s n c f z) = f" "tx_size (example_tx s n c f z) = z"
  "is_eip4844 (example_tx s n c f z) = False" "tx_cost (example_tx s n c f z) = c"
  "transaction_id (example_blob_tx s n f g) = TransactionId s n" "is_eip4844 (example_blob_tx s n f g) = True"
  "max_fee_per_gas (example_blob_tx s n f g) = f" "max_fee_per_blob_gas (example_blob_tx s n f g) = Some g"
  "tx_nonce (example_blob_tx s n f g) = n"
  "tx_hash (example_tx s n c f z) = ucast s * 1000 + ucast n" "tx_sender_id (example_tx s n c f z) = s"
  "tx_type (example_tx s n c f z) = 2" "tx_gas_limit (example_tx s n c f z) = 21000"
  "origin (example_tx s n c f z) = External" "authority_ids (example_tx s n c f z) = None"
  "pt_sender (vp_transaction (example_tx s n c f z)) = ucast s"
  "tx_hash (example_blob_tx s n f g) = ucast s * 1000 + ucast n" "tx_sender_id (example_blob_tx s n f g) = s"
  "tx_type (example_blob_tx s n f g) = 3" "tx_gas_limit (example_blob_tx s n f g) = 21000"
  "origin (example_blob_tx s n f g) = External" "authority_ids (example_blob_tx s n f g) = None"
  "pt_sender (vp_transaction (example_blob_tx s n f g)) = ucast s" "tx_cost (example_blob_tx s n f g) = 10"
  "tx_size (example_blob_tx s n f g) = 100"
  by (simp_all add: example_tx_def example_blob_tx_def tx_accessors)

section \<open>Properties\<close>

text \<open>
  C29: a transaction that is not rejected as underpriced against the transaction it replaces offers,
  in exact arithmetic, at least \<open>100 + bump\<close> percent of the fee cap of the old one, whenever this
  product fits into 128 bits.
\<close>

theorem replacement_pays_bump:
  assumes "\<not> is_underpriced old new bumps" and "price_bump bumps (tx_type old) = bump"
    and "100 + unat bump < 2 ^ 128" and "unat (max_fee_per_gas old) * (100 + unat bump) < 2 ^ 128"
  shows "unat (max_fee_per_gas old) * (100 + unat bump) \<le> 100 * unat (max_fee_per_gas new)"
  using required_bumped_fee_le [OF assms(3,4)] not_underpriced_fee [OF assms(1)] assms(2) by simp

theorem replacement_pays_bump_witness:
  "unat (max_fee_per_gas (example_tx 1 0 5 1000 10)) * (100 + unat (10 :: u128))
     \<le> 100 * unat (max_fee_per_gas (example_tx 1 0 5 1100 10))"
proof (rule replacement_pays_bump [where bumps = default_price_bumps])
  show "\<not> is_underpriced (example_tx 1 0 5 1000 10) (example_tx 1 0 5 1100 10) default_price_bumps"
    by (simp add: is_underpriced_def Let_def required_bumped_fee_def saturating_mul_def div_ceil_def
        price_bump_def default_price_bumps_def example_tx_def tx_accessors EIP4844_TX_TYPE_ID_def)
qed (simp_all add: price_bump_def default_price_bumps_def example_tx_def tx_type_def EIP4844_TX_TYPE_ID_def
    max_fee_per_gas_def)

text \<open>
  C30: looking up or creating identifiers for a batch of addresses keeps address and identifier a
  bijection, gives every address of the batch its identifier and changes no identifier given out
  before, as long as the 64-bit counter does not run out.
\<close>

theorem sender_ids_bijective:
  assumes "identifiers_ok s" and "unat (next_sender s) + length as \<le> 2 ^ 64 - 1"
    and "sender_ids_or_create s as = (ids, s')"
  shows "identifiers_ok s' \<and> list_all2 (\<lambda>a i. sender_id s' a = Some i \<and> address s' i = Some a) as ids \<and>
    (\<forall>b j. sender_id s b = Some j \<longrightarrow> sender_id s' b = Some j)"
  using identifiers_ok_create_all [OF assms] unfolding identifiers_ok_def by (auto elim: list_all2_mono)

theorem sender_ids_bijective_witness:
  "identifiers_ok (snd (sender_ids_or_create default_identifiers [7, 9, 7])) \<and>
   fst (sender_ids_or_create default_identifiers [7, 9, 7]) = [0, 1, 0]"
proof -
  have run: "sender_ids_or_create default_identifiers [7, 9, 7] =
      ([0, 1, 0], \<lparr>next_sender = 2, address_to_id = [(7, 0), (9, 1)], sender_to_address = [(0, 7), (1, 9)]\<rparr>)"
    by (simp add: default_identifiers_def sender_id_or_create_def sender_id_def next_id_def)
  show ?thesis
    using sender_ids_bijective [OF identifiers_ok_default _ run]
    unfolding run by (simp add: default_identifiers_def)
qed

end
