(* ===== verification/Tx_State.thy ===== *)
theory Tx_State
  imports Pool_Types
begin

text \<open>
  \<open>pool/state.rs\<close>: the state bits of a pooled transaction, the sub-pool that is derived from them
  and the reason reported for a transaction that is not pending.

  The source derives the sub-pool by comparing the bits as numbers. The lemmas show that these
  comparisons decide exactly which requirements hold: a transaction is pending if and only if all
  six requirement bits are set, and a non-blob transaction is parked for its fee if and only if
  the four structural bits are set and a fee bit is missing.
\<close>

unbundle bit_operations_syntax

section \<open>TxState\<close>

type_synonym TxState = u8

definition NO_PARKED_ANCESTORS :: TxState where "NO_PARKED_ANCESTORS = 128"
definition NO_NONCE_GAPS :: TxState where "NO_NONCE_GAPS = 64"
definition ENOUGH_BALANCE :: TxState where "ENOUGH_BALANCE = 32"
definition NOT_TOO_MUCH_GAS :: TxState where "NOT_TOO_MUCH_GAS = 16"
definition ENOUGH_FEE_CAP_BLOCK :: TxState where "ENOUGH_FEE_CAP_BLOCK = 8"
definition ENOUGH_BLOB_FEE_CAP_BLOCK :: TxState where "ENOUGH_BLOB_FEE_CAP_BLOCK = 4"
definition BLOB_TRANSACTION :: TxState where "BLOB_TRANSACTION = 2"

definition PENDING_POOL_BITS :: TxState where
  "PENDING_POOL_BITS = NO_PARKED_ANCESTORS OR NO_NONCE_GAPS OR ENOUGH_BALANCE OR NOT_TOO_MUCH_GAS
     OR ENOUGH_FEE_CAP_BLOCK OR ENOUGH_BLOB_FEE_CAP_BLOCK"

definition BASE_FEE_POOL_BITS :: TxState where
  "BASE_FEE_POOL_BITS = NO_PARKED_ANCESTORS OR NO_NONCE_GAPS OR ENOUGH_BALANCE OR NOT_TOO_MUCH_GAS"

lemmas flag_defs = NO_PARKED_ANCESTORS_def NO_NONCE_GAPS_def ENOUGH_BALANCE_def
  NOT_TOO_MUCH_GAS_def ENOUGH_FEE_CAP_BLOCK_def ENOUGH_BLOB_FEE_CAP_BLOCK_def BLOB_TRANSACTION_def

text \<open>\<open>insert\<close>, \<open>remove\<close>, \<open>contains\<close> and \<open>intersects\<close> of the bit set.\<close>

definition st_insert :: "TxState \<Rightarrow> TxState \<Rightarrow> TxState" where
  "st_insert s f = s OR f"

definition st_remove :: "TxState \<Rightarrow> TxState \<Rightarrow> TxState" where
  "st_remove s f = s AND NOT f"

definition st_contains :: "TxState \<Rightarrow> TxState \<Rightarrow> bool" where
  "st_contains s f \<longleftrightarrow> s AND f = f"

definition st_intersects :: "TxState \<Rightarrow> TxState \<Rightarrow> bool" where
  "st_intersects s f \<longleftrightarrow> s AND f \<noteq> 0"

definition st_is_pending :: "TxState \<Rightarrow> bool" where
  "st_is_pending s \<longleftrightarrow> PENDING_POOL_BITS \<le> s"

definition st_is_blob :: "TxState \<Rightarrow> bool" where
  "st_is_blob s \<longleftrightarrow> st_contains s BLOB_TRANSACTION"

definition has_nonce_gap :: "TxState \<Rightarrow> bool" where
  "has_nonce_gap s \<longleftrightarrow> \<not> st_intersects s NO_NONCE_GAPS"

section \<open>SubPool\<close>

datatype SubPool = Queued | BaseFee | Blob | Pending

fun sub_pool_rank :: "SubPool \<Rightarrow> nat" where
  "sub_pool_rank Queued = 0"
| "sub_pool_rank BaseFee = 1"
| "sub_pool_rank Blob = 2"
| "sub_pool_rank Pending = 3"

definition is_promoted :: "SubPool \<Rightarrow> SubPool \<Rightarrow> bool" where
  "is_promoted p other \<longleftrightarrow> sub_pool_rank other < sub_pool_rank p"

definition sub_pool_of :: "TxState \<Rightarrow> SubPool" where
  "sub_pool_of s =
     (if st_is_pending s then Pending
      else if st_is_blob s then Blob
      else if s < BASE_FEE_POOL_BITS then Queued
      else BaseFee)"

datatype QueuedReason =
  NonceGap | ParkedAncestors | InsufficientBalance | TooMuchGas | InsufficientBaseFee | InsufficientBlobFee

fun determine_queued_reason :: "TxState \<Rightarrow> SubPool \<Rightarrow> QueuedReason option" where
  "determine_queued_reason s Pending = None"
| "determine_queued_reason s Queued =
     (if \<not> st_contains s NO_NONCE_GAPS then Some NonceGap
      else if \<not> st_contains s ENOUGH_BALANCE then Some InsufficientBalance
      else if \<not> st_contains s NO_PARKED_ANCESTORS then Some ParkedAncestors
      else if \<not> st_contains s NOT_TOO_MUCH_GAS then Some TooMuchGas
      else Some NonceGap)"
| "determine_queued_reason s BaseFee = Some InsufficientBaseFee"
| "determine_queued_reason s Blob =
     (if \<not> st_contains s NO_NONCE_GAPS then Some NonceGap
      else if \<not> st_contains s ENOUGH_BALANCE then Some InsufficientBalance
      else if \<not> st_contains s NO_PARKED_ANCESTORS then Some ParkedAncestors
      else if \<not> st_contains s NOT_TOO_MUCH_GAS then Some TooMuchGas
      else if \<not> st_contains s ENOUGH_FEE_CAP_BLOCK then Some InsufficientBaseFee
      else if \<not> st_contains s ENOUGH_BLOB_FEE_CAP_BLOCK then Some InsufficientBlobFee
      else Some InsufficientBlobFee)"

section \<open>Bits\<close>

named_theorems tx_flags \<open>which flags a state has after insertions and removals\<close>

lemma and_exp_eq_exp: "(s AND 2 ^ n = (2 ^ n :: u8)) \<longleftrightarrow> bit s n" if "n < 8"
  using that by (auto simp: bit_eq_iff [of "s AND 2 ^ n"] bit_simps)

lemma contains_bit [tx_flags]:
  "st_contains s NO_PARKED_ANCESTORS \<longleftrightarrow> bit s 7"
  "st_contains s NO_NONCE_GAPS \<longleftrightarrow> bit s 6"
  "st_contains s ENOUGH_BALANCE \<longleftrightarrow> bit s 5"
  "st_contains s NOT_TOO_MUCH_GAS \<longleftrightarrow> bit s 4"
  "st_contains s ENOUGH_FEE_CAP_BLOCK \<longleftrightarrow> bit s 3"
  "st_contains s ENOUGH_BLOB_FEE_CAP_BLOCK \<longleftrightarrow> bit s 2"
  "st_contains s BLOB_TRANSACTION \<longleftrightarrow> bit s 1"
  using and_exp_eq_exp [of 7 s] and_exp_eq_exp [of 6 s] and_exp_eq_exp [of 5 s]
    and_exp_eq_exp [of 4 s] and_exp_eq_exp [of 3 s] and_exp_eq_exp [of 2 s] and_exp_eq_exp [of 1 s]
  by (simp_all add: st_contains_def flag_defs)

lemma flag_bit [tx_flags]:
  "bit (st_insert s NO_PARKED_ANCESTORS) n \<longleftrightarrow> bit s n \<or> n = 7"
  "bit (st_insert s NO_NONCE_GAPS) n \<longleftrightarrow> bit s n \<or> n = 6"
  "bit (st_insert s ENOUGH_BALANCE) n \<longleftrightarrow> bit s n \<or> n = 5"
  "bit (st_insert s NOT_TOO_MUCH_GAS) n \<longleftrightarrow> bit s n \<or> n = 4"
  "bit (st_insert s ENOUGH_FEE_CAP_BLOCK) n \<longleftrightarrow> bit s n \<or> n = 3"
  "bit (st_insert s ENOUGH_BLOB_FEE_CAP_BLOCK) n \<longleftrightarrow> bit s n \<or> n = 2"
  "bit (st_insert s BLOB_TRANSACTION) n \<longleftrightarrow> bit s n \<or> n = 1"
  "bit (st_remove s NO_PARKED_ANCESTORS) n \<longleftrightarrow> bit s n \<and> n \<noteq> 7"
  "bit (st_remove s NO_NONCE_GAPS) n \<longleftrightarrow> bit s n \<and> n \<noteq> 6"
  "bit (st_remove s ENOUGH_BALANCE) n \<longleftrightarrow> bit s n \<and> n \<noteq> 5"
  "bit (st_remove s NOT_TOO_MUCH_GAS) n \<longleftrightarrow> bit s n \<and> n \<noteq> 4"
  "bit (st_remove s ENOUGH_FEE_CAP_BLOCK) n \<longleftrightarrow> bit s n \<and> n \<noteq> 3"
  "bit (st_remove s ENOUGH_BLOB_FEE_CAP_BLOCK) n \<longleftrightarrow> bit s n \<and> n \<noteq> 2"
  "bit (st_remove s BLOB_TRANSACTION) n \<longleftrightarrow> bit s n \<and> n \<noteq> 1"
proof -
  have exps: "NO_PARKED_ANCESTORS = 2 ^ 7" "NO_NONCE_GAPS = 2 ^ 6" "ENOUGH_BALANCE = 2 ^ 5"
    "NOT_TOO_MUCH_GAS = 2 ^ 4" "ENOUGH_FEE_CAP_BLOCK = 2 ^ 3" "ENOUGH_BLOB_FEE_CAP_BLOCK = 2 ^ 2"
    "BLOB_TRANSACTION = 2 ^ 1"
    by (simp_all add: flag_defs)
  have ins: "bit (s OR 2 ^ k) n \<longleftrightarrow> bit s n \<or> n = k" if "k < 8" for k
    using that by (auto simp: bit_simps)
  have rem: "bit (s AND NOT (2 ^ k)) n \<longleftrightarrow> bit s n \<and> n \<noteq> k" if "k < 8" for k
    using that bit_imp_le_length [of s n] by (auto simp: bit_simps)
  show "bit (st_insert s NO_PARKED_ANCESTORS) n \<longleftrightarrow> bit s n \<or> n = 7"
    "bit (st_insert s NO_NONCE_GAPS) n \<longleftrightarrow> bit s n \<or> n = 6"
    "bit (st_insert s ENOUGH_BALANCE) n \<longleftrightarrow> bit s n \<or> n = 5"
    "bit (st_insert s NOT_TOO_MUCH_GAS) n \<longleftrightarrow> bit s n \<or> n = 4"
    "bit (st_insert s ENOUGH_FEE_CAP_BLOCK) n \<longleftrightarrow> bit s n \<or> n = 3"
    "bit (st_insert s ENOUGH_BLOB_FEE_CAP_BLOCK) n \<longleftrightarrow> bit s n \<or> n = 2"
    "bit (st_insert s BLOB_TRANSACTION) n \<longleftrightarrow> bit s n \<or> n = 1"
    unfolding exps st_insert_def by (rule ins, simp)+
  show "bit (st_remove s NO_PARKED_ANCESTORS) n \<longleftrightarrow> bit s n \<and> n \<noteq> 7"
    "bit (st_remove s NO_NONCE_GAPS) n \<longleftrightarrow> bit s n \<and> n \<noteq> 6"
    "bit (st_remove s ENOUGH_BALANCE) n \<longleftrightarrow> bit s n \<and> n \<noteq> 5"
    "bit (st_remove s NOT_TOO_MUCH_GAS) n \<longleftrightarrow> bit s n \<and> n \<noteq> 4"
    "bit (st_remove s ENOUGH_FEE_CAP_BLOCK) n \<longleftrightarrow> bit s n \<and> n \<noteq> 3"
    "bit (st_remove s ENOUGH_BLOB_FEE_CAP_BLOCK) n \<longleftrightarrow> bit s n \<and> n \<noteq> 2"
    "bit (st_remove s BLOB_TRANSACTION) n \<longleftrightarrow> bit s n \<and> n \<noteq> 1"
    unfolding exps st_remove_def by (rule rem, simp)+
qed

lemma bit_default_state [tx_flags]: "\<not> bit (0 :: TxState) n"
  by simp

lemma has_nonce_gap_bit [tx_flags]: "has_nonce_gap s \<longleftrightarrow> \<not> bit s 6"
  using and_exp_eq_0_iff_not_bit [of s 6]
  by (simp add: has_nonce_gap_def st_intersects_def flag_defs)

lemma is_blob_bit [tx_flags]: "st_is_blob s \<longleftrightarrow> bit s 1"
  by (simp add: st_is_blob_def tx_flags)

section \<open>The numeric comparisons decide the requirement bits\<close>

lemma u8_ge_cases:
  fixes s :: u8
  assumes "of_nat k \<le> s" and "k < 256"
  obtains n where "k \<le> n" and "n < 256" and "s = of_nat n"
proof
  show "k \<le> unat s"
    using assms by (simp add: word_le_nat_alt unat_of_nat)
  show "unat s < 256" using unsigned_less [of s] by simp
  show "s = of_nat (unat s)" by simp
qed

lemma ge_252_iff: "(252 :: u8) \<le> s \<longleftrightarrow> s AND 252 = 252"
proof
  assume "252 \<le> s"
  then obtain n where "252 \<le> n" "n < 256" "s = of_nat n"
    using u8_ge_cases [of 252 s] by auto
  then have "n = 252 \<or> n = 253 \<or> n = 254 \<or> n = 255" by linarith
  with \<open>s = of_nat n\<close> show "s AND 252 = 252" by auto
next
  assume "s AND 252 = 252"
  then show "252 \<le> s" by (metis word_and_le2)
qed

lemma ge_240_iff: "(240 :: u8) \<le> s \<longleftrightarrow> s AND 240 = 240"
proof
  assume "240 \<le> s"
  then obtain n where "240 \<le> n" "n < 256" "s = of_nat n"
    using u8_ge_cases [of 240 s] by auto
  then have "n \<in> set [240..<256]" unfolding set_upt atLeastLessThan_iff by blast
  with \<open>s = of_nat n\<close> show "s AND 240 = 240"
    by (auto simp: upt_rec_numeral simp del: set_upt)
next
  assume "s AND 240 = 240"
  then show "240 \<le> s" by (metis word_and_le2)
qed

lemma and_or_eq_iff: "s AND (a OR b) = a OR b \<longleftrightarrow> s AND a = a \<and> s AND b = b" for s a b :: u8
  by (auto simp: bit_eq_iff bit_simps)

lemma is_pending_iff:
  "st_is_pending s \<longleftrightarrow>
     st_contains s NO_PARKED_ANCESTORS \<and> st_contains s NO_NONCE_GAPS \<and> st_contains s ENOUGH_BALANCE \<and>
     st_contains s NOT_TOO_MUCH_GAS \<and> st_contains s ENOUGH_FEE_CAP_BLOCK \<and>
     st_contains s ENOUGH_BLOB_FEE_CAP_BLOCK"
proof -
  have eq: "PENDING_POOL_BITS = 252" by (simp add: PENDING_POOL_BITS_def flag_defs)
  have "st_is_pending s \<longleftrightarrow> s AND PENDING_POOL_BITS = PENDING_POOL_BITS"
    by (simp only: st_is_pending_def eq ge_252_iff)
  then show ?thesis
    by (simp only: PENDING_POOL_BITS_def and_or_eq_iff st_contains_def)
qed

lemma base_fee_bits_iff:
  "\<not> s < BASE_FEE_POOL_BITS \<longleftrightarrow>
     st_contains s NO_PARKED_ANCESTORS \<and> st_contains s NO_NONCE_GAPS \<and> st_contains s ENOUGH_BALANCE \<and>
     st_contains s NOT_TOO_MUCH_GAS"
proof -
  have eq: "BASE_FEE_POOL_BITS = 240" by (simp add: BASE_FEE_POOL_BITS_def flag_defs)
  have "\<not> s < BASE_FEE_POOL_BITS \<longleftrightarrow> s AND BASE_FEE_POOL_BITS = BASE_FEE_POOL_BITS"
    by (simp only: not_less eq ge_240_iff)
  then show ?thesis
    by (simp only: BASE_FEE_POOL_BITS_def and_or_eq_iff st_contains_def)
qed

lemma is_pending_bits [tx_flags]:
  "st_is_pending s \<longleftrightarrow> bit s 7 \<and> bit s 6 \<and> bit s 5 \<and> bit s 4 \<and> bit s 3 \<and> bit s 2"
  by (simp add: is_pending_iff tx_flags)

lemma sub_pool_of_bits:
  "sub_pool_of s =
     (if bit s 7 \<and> bit s 6 \<and> bit s 5 \<and> bit s 4 \<and> bit s 3 \<and> bit s 2 then Pending
      else if bit s 1 then Blob
      else if bit s 7 \<and> bit s 6 \<and> bit s 5 \<and> bit s 4 then BaseFee
      else Queued)"
  using base_fee_bits_iff [of s]
  by (auto simp: sub_pool_of_def tx_flags)

lemma sub_pool_of_eq_Pending: "sub_pool_of s = Pending \<longleftrightarrow> st_is_pending s"
  by (auto simp: sub_pool_of_def)

lemma sub_pool_of_eq_Blob: "sub_pool_of s = Blob \<Longrightarrow> bit s 1"
  by (auto simp: sub_pool_of_bits split: if_splits)

lemma sub_pool_of_eq_BaseFee:
  "sub_pool_of s = BaseFee \<Longrightarrow> bit s 7 \<and> bit s 6 \<and> bit s 5 \<and> bit s 4 \<and> \<not> bit s 1 \<and> \<not> (bit s 3 \<and> bit s 2)"
  by (auto simp: sub_pool_of_bits split: if_splits)

lemma bit_if_word: "bit (if c then a else b) n \<longleftrightarrow> (if c then bit a n else bit b n)"
  by simp

lemma determine_queued_reason_None: "determine_queued_reason s p = None \<longleftrightarrow> p = Pending"
  by (cases p) auto

end
