(* ===== verification/Sub_Pool.thy ===== *)
theory Sub_Pool
  imports Pool_Types
begin

text \<open>
  The interface of a sub-pool, as \<open>TxPool\<close> uses it: the pending pool, the two parked pools and the
  blob pool each hold transactions by identifier, add one, remove one and report how many they
  hold and how many bytes these take.

  The locale states the contract against the abstract content \<open>entries\<close>, a map sorted by
  identifier. \<open>room\<close> is the number of submission identifiers that are left before the 64-bit
  counter of the pool wraps: identifiers are unique only until then. \<open>accepts\<close> is the kind of
  transaction the pool takes. What removing a whole list of transactions does is proved here,
  once for all pools.
\<close>

type_synonym entries = "(TransactionId, valid_pool_tx) bmap"

definition total_size :: "entries \<Rightarrow> usize" where
  "total_size m = sum_list (map (tx_size \<circ> snd) m)"

definition submissions_left :: "u64 \<Rightarrow> nat" where
  "submissions_left c = 2 ^ 64 - 1 - unat c"

definition nonce_matches :: "valid_pool_tx \<Rightarrow> bool" where
  "nonce_matches t \<longleftrightarrow> tx_nonce t = nonce (transaction_id t)"

text \<open>How many transactions of a sender a map holds.\<close>

definition sender_count :: "(TransactionId, 'v) bmap \<Rightarrow> SenderId \<Rightarrow> nat" where
  "sender_count m s = length (filter (\<lambda>e. sender (fst e) = s) m)"

text \<open>Removing the given transactions one by one, collecting what was there.\<close>

fun remove_each ::
    "(TransactionId \<Rightarrow> 'p \<Rightarrow> ('p \<times> valid_pool_tx option) option) \<Rightarrow> TransactionId list \<Rightarrow> 'p \<Rightarrow>
     ('p \<times> valid_pool_tx list) option" where
  "remove_each rm [] p = Some (p, [])"
| "remove_each rm (i # ids) p =
     do { (p1, r) \<leftarrow> rm i p;
          (p2, ts) \<leftarrow> remove_each rm ids p1;
          Some (p2, (case r of None \<Rightarrow> ts | Some t \<Rightarrow> t # ts)) }"

text \<open>The same where the source expects every one of them to be there.\<close>

fun remove_expected ::
    "(TransactionId \<Rightarrow> 'p \<Rightarrow> ('p \<times> valid_pool_tx option) option) \<Rightarrow> TransactionId list \<Rightarrow> 'p \<Rightarrow>
     ('p \<times> valid_pool_tx list) option" where
  "remove_expected rm [] p = Some (p, [])"
| "remove_expected rm (i # ids) p =
     do { (p1, r) \<leftarrow> rm i p;
          t \<leftarrow> r;
          (p2, ts) \<leftarrow> remove_expected rm ids p1;
          Some (p2, t # ts) }"

lemma submissions_left_succ:
  "0 < submissions_left c \<Longrightarrow> c \<noteq> max_of \<and> submissions_left (c + 1) = submissions_left c - 1"
proof -
  assume "0 < submissions_left c"
  then have "c \<noteq> max_of"
    using unat_max_of [where 'a = 64] by (auto simp: submissions_left_def)
  then show ?thesis by (simp add: submissions_left_def unat_succ)
qed

lemma sender_count_bins:
  "map_of m i = None \<Longrightarrow>
   sender_count (bins i v m) = (sender_count m)(sender i := Suc (sender_count m (sender i)))"
  by (auto simp: sender_count_def length_filter_bins fun_eq_iff)

lemma sender_count_bdel:
  "bsorted m \<Longrightarrow> map_of m i = Some v \<Longrightarrow>
   sender_count (bdel i m) = (sender_count m)(sender i := sender_count m (sender i) - 1) \<and>
   0 < sender_count m (sender i)"
  using length_filter_bdel [of m i v] by (auto simp: sender_count_def fun_eq_iff)

lemma bdel_fold: "fold bdel ks m = filter (\<lambda>e. fst e \<notin> set ks) m"
  by (induction ks arbitrary: m) (auto simp: bdel_def intro: filter_cong)

lemma total_size_bins:
  "map_of m (transaction_id t) = None \<Longrightarrow>
   total_size (bins (transaction_id t) t m) = total_size m + tx_size t"
  by (simp add: total_size_def sum_list_bins)

lemma total_size_bdel:
  "bsorted m \<Longrightarrow> map_of m i = Some t \<Longrightarrow> total_size (bdel i m) = total_size m - tx_size t"
  by (simp add: total_size_def sum_list_bdel)

text \<open>
  \<open>evicts m ts m'\<close>: the transactions \<open>ts\<close>, all different, are taken out of \<open>m\<close> and \<open>m'\<close> is left.
  \<open>keeps_prefix m m'\<close>: of each sender, what is left are the lowest nonces.
\<close>

definition evicts :: "entries \<Rightarrow> valid_pool_tx list \<Rightarrow> entries \<Rightarrow> bool" where
  "evicts m ts m' \<longleftrightarrow>
     m' = filter (\<lambda>e. fst e \<notin> transaction_id ` set ts) m \<and> distinct (map transaction_id ts) \<and>
     (\<forall>t \<in> set ts. map_of m (transaction_id t) = Some t)"

definition keeps_prefix :: "entries \<Rightarrow> entries \<Rightarrow> bool" where
  "keeps_prefix m m' \<longleftrightarrow>
     (\<forall>i j. map_of m i \<noteq> None \<longrightarrow> map_of m' j \<noteq> None \<longrightarrow> sender i = sender j \<longrightarrow> nonce i < nonce j \<longrightarrow>
        map_of m' i \<noteq> None)"

lemma map_of_evicts:
  "evicts m ts m' \<Longrightarrow> map_of m' i = (if i \<in> transaction_id ` set ts then None else map_of m i)"
  using map_of_filter_keys [of "\<lambda>k. k \<notin> transaction_id ` set ts" m i] by (simp add: evicts_def)

lemma evicts_refl [simp]: "evicts m [] m"
  by (simp add: evicts_def)

lemma evicts_one: "map_of m (transaction_id t) = Some t \<Longrightarrow> evicts m [t] (bdel (transaction_id t) m)"
  by (simp add: evicts_def bdel_def)

lemma evicts_trans:
  assumes "evicts m ts m1" and "evicts m1 us m2"
  shows "evicts m (ts @ us) m2"
proof -
  have us: "map_of m (transaction_id u) = Some u \<and> transaction_id u \<notin> transaction_id ` set ts"
    if "u \<in> set us" for u
  proof -
    have "map_of m1 (transaction_id u) = Some u" using assms(2) that by (simp add: evicts_def)
    then show ?thesis using map_of_evicts [OF assms(1)] by (auto split: if_splits)
  qed
  moreover have "m2 = filter (\<lambda>e. fst e \<notin> transaction_id ` set (ts @ us)) m"
    using assms by (auto simp: evicts_def image_Un intro!: filter_cong)
  moreover have "distinct (map transaction_id (ts @ us))"
  proof -
    have "x \<notin> transaction_id ` set ts" if "x \<in> transaction_id ` set us" for x
      using that us by (metis imageE)
    then have "set (map transaction_id ts) \<inter> set (map transaction_id us) = {}"
      unfolding set_map by blast
    then show ?thesis using assms by (simp add: evicts_def)
  qed
  ultimately show ?thesis
    using assms(1) by (auto simp: evicts_def)
qed

lemma evicts_members:
  assumes "bsorted m" and "evicts m ts m'"
  shows "snd ` set m = snd ` set m' \<union> set ts"
proof (intro equalityI subsetI)
  fix t assume "t \<in> snd ` set m"
  then obtain i where i: "map_of m i = Some t"
    using assms(1) by (auto simp: in_set_map_of)
  show "t \<in> snd ` set m' \<union> set ts"
  proof (cases "i \<in> transaction_id ` set ts")
    case True
    then show ?thesis using assms(2) i by (auto simp: evicts_def)
  next
    case False
    then have "map_of m' i = Some t" using map_of_evicts [OF assms(2)] i by simp
    then have "(i, t) \<in> set m'" by (rule map_of_SomeD)
    then show ?thesis by force
  qed
next
  fix t assume "t \<in> snd ` set m' \<union> set ts"
  then show "t \<in> snd ` set m"
  proof
    assume "t \<in> set ts"
    then have "map_of m (transaction_id t) = Some t" using assms(2) by (simp add: evicts_def)
    then show ?thesis by (metis map_of_SomeD image_eqI snd_conv)
  qed (use assms(2) in \<open>auto simp: evicts_def\<close>)
qed

lemma evicts_Cons:
  assumes "evicts m (t # ts) m'"
  shows "map_of m (transaction_id t) = Some t" and "evicts (bdel (transaction_id t) m) ts m'"
proof -
  show "map_of m (transaction_id t) = Some t" using assms by (simp add: evicts_def)
  show "evicts (bdel (transaction_id t) m) ts m'"
    unfolding evicts_def map_of_bdel
    using assms by (auto simp: evicts_def bdel_def image_iff intro!: filter_cong)
qed

lemma length_evicts: "bsorted m \<Longrightarrow> evicts m ts m' \<Longrightarrow> length m = length m' + length ts"
proof (induction ts arbitrary: m)
  case (Cons t ts)
  note t = evicts_Cons [OF Cons.prems(2)]
  from Cons.IH [OF bsorted_bdel [OF Cons.prems(1)] t(2)]
  show ?case using t(1) length_bdel [OF Cons.prems(1), of "transaction_id t"]
    by (cases m) auto
qed (simp add: evicts_def)

lemma total_size_evicts:
  "bsorted m \<Longrightarrow> evicts m ts m' \<Longrightarrow> total_size m = total_size m' + sum_list (map tx_size ts)"
proof (induction ts arbitrary: m)
  case (Cons t ts)
  note t = evicts_Cons [OF Cons.prems(2)]
  from Cons.IH [OF bsorted_bdel [OF Cons.prems(1)] t(2)]
  show ?case using total_size_bdel [OF Cons.prems(1) t(1)] by (simp add: algebra_simps)
qed (simp add: evicts_def)

text \<open>\<open>tops m s t\<close>: \<open>t\<close> has the highest nonce among the transactions of sender \<open>s\<close>.\<close>

definition tops :: "entries \<Rightarrow> SenderId \<Rightarrow> valid_pool_tx \<Rightarrow> bool" where
  "tops m s t \<longleftrightarrow>
     (\<exists>i. map_of m i = Some t \<and> sender i = s \<and>
        (\<forall>j. map_of m j \<noteq> None \<longrightarrow> sender j = s \<longrightarrow> nonce j \<le> nonce i))"

lemma tops_unique:
  assumes "tops m s t" and "tops m s u"
  shows "t = u"
proof -
  obtain i where i: "map_of m i = Some t" "sender i = s"
    "\<forall>j. map_of m j \<noteq> None \<longrightarrow> sender j = s \<longrightarrow> nonce j \<le> nonce i" using assms(1) unfolding tops_def by blast
  obtain k where k: "map_of m k = Some u" "sender k = s"
    "\<forall>j. map_of m j \<noteq> None \<longrightarrow> sender j = s \<longrightarrow> nonce j \<le> nonce k" using assms(2) unfolding tops_def by blast
  have "nonce i = nonce k" using i k by (intro order.antisym) auto
  then have "i = k" using i(2) k(2) by (intro TransactionId.expand) simp
  then show ?thesis using i(1) k(1) by simp
qed

lemma tops_evicts:
  assumes "tops m s t" and "evicts m ts m'" and "\<And>u. u \<in> set ts \<Longrightarrow> tx_sender_id u \<noteq> s"
  shows "tops m' s t"
proof -
  obtain i where i: "map_of m i = Some t" "sender i = s"
    "\<forall>j. map_of m j \<noteq> None \<longrightarrow> sender j = s \<longrightarrow> nonce j \<le> nonce i"
    using assms(1) unfolding tops_def by blast
  have "i \<notin> transaction_id ` set ts" using i(2) assms(3) by (auto simp: tx_sender_id_def)
  then show ?thesis
    unfolding tops_def map_of_evicts [OF assms(2)] using i by (intro exI [of _ i]) auto
qed

lemma keeps_prefix_tops:
  assumes ev: "evicts m ts m'" and top: "\<And>t. t \<in> set ts \<Longrightarrow> tops m (tx_sender_id t) t"
    and own: "\<And>i t. map_of m i = Some t \<Longrightarrow> transaction_id t = i"
  shows "keeps_prefix m m'"
  unfolding keeps_prefix_def
proof (intro allI impI)
  fix i j assume ij: "map_of m i \<noteq> None" "map_of m' j \<noteq> None" "sender i = sender j" "nonce i < nonce j"
  have j: "map_of m j \<noteq> None" using ij(2) map_of_evicts [OF ev, of j] by (auto split: if_splits)
  have "i \<notin> transaction_id ` set ts"
  proof
    assume "i \<in> transaction_id ` set ts"
    then obtain t where t: "t \<in> set ts" "i = transaction_id t" by blast
    from top [OF t(1)] obtain k where k: "map_of m k = Some t"
      "\<forall>j. map_of m j \<noteq> None \<longrightarrow> sender j = tx_sender_id t \<longrightarrow> nonce j \<le> nonce k" by (auto simp: tops_def)
    have "k = i" using own [OF k(1)] t(2) by simp
    then have "nonce j \<le> nonce i" using k(2) j ij(3) t(2) by (auto simp: tx_sender_id_def)
    then show False using ij(4) by simp
  qed
  then show "map_of m' i \<noteq> None" using ij(1) map_of_evicts [OF ev, of i] by simp
qed

lemma keeps_prefix_refl [simp]: "keeps_prefix m m"
  by (simp add: keeps_prefix_def)

lemma keeps_prefix_trans:
  "keeps_prefix m m1 \<Longrightarrow> keeps_prefix m1 m2 \<Longrightarrow> dom (map_of m2) \<subseteq> dom (map_of m1) \<Longrightarrow> keeps_prefix m m2"
  unfolding keeps_prefix_def by blast

locale sub_pool =
  fixes pinv :: "'p \<Rightarrow> bool"
    and entries :: "'p \<Rightarrow> entries"
    and add :: "valid_pool_tx \<Rightarrow> 'p \<Rightarrow> 'p option"
    and remove :: "TransactionId \<Rightarrow> 'p \<Rightarrow> ('p \<times> valid_pool_tx option) option"
    and plen :: "'p \<Rightarrow> nat"
    and psize :: "'p \<Rightarrow> usize"
    and room :: "'p \<Rightarrow> nat"
    and accepts :: "valid_pool_tx \<Rightarrow> bool"
  assumes entries_sorted: "pinv p \<Longrightarrow> bsorted (entries p)"
    and entries_id: "pinv p \<Longrightarrow> map_of (entries p) i = Some t \<Longrightarrow> transaction_id t = i \<and> accepts t"
    and add_law: "pinv p \<Longrightarrow> map_of (entries p) (transaction_id t) = None \<Longrightarrow> accepts t \<Longrightarrow> 0 < room p \<Longrightarrow>
       \<exists>p'. add t p = Some p' \<and> pinv p' \<and> entries p' = bins (transaction_id t) t (entries p) \<and>
            room p' = room p - 1"
    and remove_law: "pinv p \<Longrightarrow>
       \<exists>p'. remove i p = Some (p', map_of (entries p) i) \<and> pinv p' \<and> entries p' = bdel i (entries p) \<and>
            room p' = room p"
    and plen_law: "pinv p \<Longrightarrow> plen p = length (entries p)"
    and psize_law: "pinv p \<Longrightarrow> psize p = total_size (entries p)"
begin

lemma remove_each_law:
  "pinv p \<Longrightarrow> distinct ids \<Longrightarrow>
   \<exists>p'. remove_each remove ids p = Some (p', List.map_filter (map_of (entries p)) ids) \<and>
        pinv p' \<and> entries p' = fold bdel ids (entries p) \<and> room p' = room p"
proof (induction ids arbitrary: p)
  case Nil
  then show ?case by (simp add: List.map_filter_simps)
next
  case (Cons i ids p)
  from remove_law [OF Cons.prems(1)] obtain p1 where
    p1: "remove i p = Some (p1, map_of (entries p) i)" "pinv p1"
      "entries p1 = bdel i (entries p)" "room p1 = room p" by blast
  have "distinct ids" using Cons.prems(2) by simp
  from Cons.IH [OF p1(2) this] obtain p2 where
    p2: "remove_each remove ids p1 = Some (p2, List.map_filter (map_of (entries p1)) ids)" "pinv p2"
      "entries p2 = fold bdel ids (entries p1)" "room p2 = room p1" by blast
  have "List.map_filter (map_of (entries p1)) ids = List.map_filter (map_of (entries p)) ids"
    using Cons.prems(2) unfolding p1(3) List.map_filter_def map_of_bdel
    by (intro map_cong filter_cong) auto
  then show ?case
    using p1 p2 by (auto simp: List.map_filter_simps split: option.splits)
qed

lemma remove_expected_eq:
  "pinv p \<Longrightarrow> distinct ids \<Longrightarrow> (\<And>i. i \<in> set ids \<Longrightarrow> map_of (entries p) i \<noteq> None) \<Longrightarrow>
   remove_expected remove ids p = remove_each remove ids p"
proof (induction ids arbitrary: p)
  case (Cons i ids p)
  from remove_law [OF Cons.prems(1)] obtain p1 where
    p1: "remove i p = Some (p1, map_of (entries p) i)" "pinv p1" "entries p1 = bdel i (entries p)" by blast
  have "map_of (entries p1) j \<noteq> None" if "j \<in> set ids" for j
    using that Cons.prems(2,3) by (auto simp: p1(3) map_of_bdel)
  then have "remove_expected remove ids p1 = remove_each remove ids p1"
    using Cons.IH [OF p1(2)] Cons.prems(2) by simp
  moreover obtain t where "map_of (entries p) i = Some t" using Cons.prems(3) [of i] by auto
  ultimately show ?case using p1(1) by simp
qed simp

lemma add_then_remove:
  assumes "pinv p" and "map_of (entries p) (transaction_id t) = None" and "accepts t" and "0 < room p"
  obtains p1 p2 where "add t p = Some p1" and "remove (transaction_id t) p1 = Some (p2, Some t)"
    and "pinv p2" and "entries p2 = entries p"
proof -
  from add_law [OF assms] obtain p1 where
    p1: "add t p = Some p1" "pinv p1" "entries p1 = bins (transaction_id t) t (entries p)" by blast
  from remove_law [OF p1(2), of "transaction_id t"] obtain p2 where
    p2: "remove (transaction_id t) p1 = Some (p2, map_of (entries p1) (transaction_id t))" "pinv p2"
      "entries p2 = bdel (transaction_id t) (entries p1)" by blast
  have "entries p2 = entries p"
    using p1(3) p2(3) entries_sorted [OF assms(1)] entries_sorted [OF p2(2)] assms(2)
    by (auto intro!: bsorted_map_of_eq simp: map_of_bins map_of_bdel)
  then show thesis
    using that p1 p2 by (simp add: map_of_bins)
qed

lemma plen_add:
  assumes "pinv p" and "map_of (entries p) (transaction_id t) = None" and "accepts t" and "0 < room p"
    and "add t p = Some p'"
  shows "plen p' = Suc (plen p)"
  using add_law [OF assms(1-4)] assms(1,2,5)
  by (auto simp: plen_law length_bins entries_sorted)

lemma plen_remove:
  assumes "pinv p" and "remove i p = Some (p', Some t)"
  shows "plen p = Suc (plen p')"
proof -
  have found: "map_of (entries p) i = Some t" and p': "pinv p'" "entries p' = bdel i (entries p)"
    using remove_law [OF assms(1), of i] assms(2) by auto
  then have "0 < length (entries p)" by (cases "entries p") auto
  then show ?thesis
    using found p' assms(1) by (simp add: plen_law length_bdel entries_sorted)
qed

lemma remove_absent:
  assumes "pinv p" and "map_of (entries p) i = None"
  obtains p' where "remove i p = Some (p', None)" and "pinv p'" and "entries p' = entries p"
    and "room p' = room p"
  using remove_law [OF assms(1), of i] assms(2) by (auto simp: bdel_id)

lemma remove_each_evicts:
  assumes "pinv p" and "distinct ids"
  obtains p' where
    "remove_each remove ids p = Some (p', List.map_filter (map_of (entries p)) ids)"
    and "pinv p'" and "evicts (entries p) (List.map_filter (map_of (entries p)) ids) (entries p')"
    and "room p' = room p"
proof -
  let ?ts = "List.map_filter (map_of (entries p)) ids"
  have own: "transaction_id t = i" if "map_of (entries p) i = Some t" for i t
    using entries_id [OF assms(1) that] by simp
  have ts: "map transaction_id ?ts = filter (\<lambda>i. map_of (entries p) i \<noteq> None) ids"
    by (induction ids) (auto simp: List.map_filter_simps own split: option.splits)
  have "fst e \<in> set ids \<longleftrightarrow> fst e \<in> set (map transaction_id ?ts)" if "e \<in> set (entries p)" for e
    using that unfolding ts by (auto simp: map_of_eq_None_iff)
  then have "fold bdel ids (entries p) = filter (\<lambda>e. fst e \<notin> transaction_id ` set ?ts) (entries p)"
    unfolding bdel_fold by (intro filter_cong) auto
  moreover have "map_of (entries p) (transaction_id t) = Some t" if "t \<in> set ?ts" for t
    using that by (auto simp: List.map_filter_def own)
  moreover have "distinct (map transaction_id ?ts)"
    unfolding ts using assms(2) by simp
  ultimately have "evicts (entries p) ?ts (fold bdel ids (entries p))"
    unfolding evicts_def by blast
  moreover obtain p' where "remove_each remove ids p = Some (p', ?ts)" "pinv p'"
      "entries p' = fold bdel ids (entries p)" "room p' = room p"
    using remove_each_law [OF assms] by blast
  ultimately show thesis
    using that [of p'] by simp
qed

end

text \<open>
  A pool that can be cut down to a limit. The contract says that the cut ends, that what is returned
  is what is missing afterwards, and that the limit then holds.
\<close>

locale bounded_pool = sub_pool +
  fixes truncate :: "sub_pool_limit \<Rightarrow> 'a \<Rightarrow> ('a \<times> valid_pool_tx list) option"
  assumes truncate_law: "pinv p \<Longrightarrow>
    \<exists>p' ts. truncate l p = Some (p', ts) \<and> pinv p' \<and> evicts (entries p) ts (entries p') \<and>
      room p' = room p \<and> \<not> limit_is_exceeded l (plen p') (psize p') \<and>
      (\<not> limit_is_exceeded l (plen p) (psize p) \<longrightarrow> ts = [])"
begin

lemma truncate_within:
  assumes "pinv p" and "\<not> limit_is_exceeded l (plen p) (psize p)"
  obtains p' where "truncate l p = Some (p', [])" and "entries p' = entries p"
proof -
  obtain p' where "truncate l p = Some (p', [])" and "evicts (entries p) [] (entries p')"
    using truncate_law [OF assms(1), of l] assms(2) by blast
  then show thesis using that by (simp add: evicts_def)
qed

lemma truncate_count:
  assumes "pinv p" and "truncate l p = Some (p', ts)"
  shows "plen p = plen p' + length ts"
proof -
  have "evicts (entries p) ts (entries p')" and "pinv p'"
    using truncate_law [OF assms(1), of l] assms(2) by auto
  then show ?thesis
    using length_evicts [OF entries_sorted] assms(1) by (simp add: plen_law)
qed

end

end
