(* ===== verification/Blob_Pool.thy ===== *)
theory Blob_Pool
  imports Sub_Pool "HOL-Library.Product_Lexorder"
begin

text \<open>
  \<open>pool/blob.rs\<close>: blob transactions that cannot be included in the next block. They are kept by
  identifier and, a second time, in a set sorted by how far their fee caps are from the current
  fees; truncation evicts the worst of this set.

  Shown: the two collections hold the same transactions and every priority is the one for the
  current fees, so that no \<open>expect\<close> fails; the fee update hands back exactly the transactions that
  can be included; truncation ends and reaches the limit; and what the priority means.
\<close>

section \<open>Fees and priorities\<close>

record pending_fees =
  base_fee :: u64
  blob_fee :: u128

text \<open>The minimum blob gas price of EIP-4844.\<close>

definition BLOB_TX_MIN_BLOB_GASPRICE :: u128 where
  "BLOB_TX_MIN_BLOB_GASPRICE = 1"

definition default_pending_fees :: pending_fees where
  "default_pending_fees = \<lparr>base_fee = 0, blob_fee = BLOB_TX_MIN_BLOB_GASPRICE\<rparr>"

fun ilog2 :: "nat \<Rightarrow> nat" where
  "ilog2 n = (if n < 2 then 0 else Suc (ilog2 (n div 2)))"

declare ilog2.simps [simp del]

text \<open>
  \<open>LOG_2_1_125\<close> is \<open>16992500144231237 / 10 ^ 17\<close>. The quotients of the source are 64-bit floats; here
  they are exact fractions \<open>n / LOG_2_1_125\<close>. The logarithms are at most 127, and
  \<open>jumps_off_integers\<close> below shows that no difference of two of them is a number of jumps within
  \<open>1 / 2000\<close> of an integer, so that the rounding of the floats, which is below \<open>10 ^ -12\<close> for
  numbers of this size, cannot change a floor or a ceiling.
\<close>

definition LOG_2_1_125 :: int where
  "LOG_2_1_125 = 16992500144231237"

definition fee_log :: "u128 \<Rightarrow> int" where
  "fee_log fee = (if fee = 0 then 0 else int (ilog2 (unat fee)))"

definition fee_delta :: "u128 \<Rightarrow> u128 \<Rightarrow> int" where
  "fee_delta max_tx_fee current_fee =
     (if max_tx_fee = current_fee then 0
      else let jumps = (fee_log max_tx_fee - fee_log current_fee) * 10 ^ 17;
               truncated = sgn jumps * (\<bar>jumps\<bar> div LOG_2_1_125);
               ceil = - ((- jumps) div LOG_2_1_125);
               floor = jumps div LOG_2_1_125
           in if truncated = 0 then 0
              else if 0 < truncated then int (ilog2 (nat ceil))
              else - int (ilog2 (nat (- floor))))"

definition blob_tx_priority :: "u128 \<Rightarrow> u128 \<Rightarrow> u128 \<Rightarrow> u128 \<Rightarrow> int" where
  "blob_tx_priority blob_fee_cap blobfee max_priority_fee basefee =
     min (min (fee_delta blob_fee_cap blobfee) (fee_delta max_priority_fee basefee)) 0"

section \<open>Data\<close>

record blob_tx =
  bt_transaction :: valid_pool_tx
  bt_submission_id :: u64
  bt_priority :: int

text \<open>
  \<open>BlobOrd\<close>: lower priorities are greater, then later submissions. The ordered set of the source is
  the map from these keys.
\<close>

type_synonym blob_ord = "int \<times> u64"

definition blob_key :: "blob_tx \<Rightarrow> blob_ord" where
  "blob_key x = (- bt_priority x, bt_submission_id x)"

record blob_pool =
  bl_submission_id :: u64
  bl_by_id :: "(TransactionId, blob_tx) bmap"
  bl_set :: "(blob_ord, blob_tx) bmap"
  bl_pending_fees :: pending_fees
  bl_size_of :: SizeTracker

definition default_blob_pool :: blob_pool where
  "default_blob_pool =
     \<lparr>bl_submission_id = 0, bl_by_id = [], bl_set = [], bl_pending_fees = default_pending_fees,
      bl_size_of = 0\<rparr>"

section \<open>Operations\<close>

definition tx_blob_priority :: "valid_pool_tx \<Rightarrow> pending_fees \<Rightarrow> int" where
  "tx_blob_priority t fees =
     blob_tx_priority (case max_fee_per_blob_gas t of None \<Rightarrow> 0 | Some f \<Rightarrow> f) (blob_fee fees)
       (max_fee_per_gas t) (ucast (base_fee fees))"

definition new_blob_tx :: "valid_pool_tx \<Rightarrow> u64 \<Rightarrow> pending_fees \<Rightarrow> blob_tx" where
  "new_blob_tx t submission fees =
     \<lparr>bt_transaction = t, bt_submission_id = submission, bt_priority = tx_blob_priority t fees\<rparr>"

definition update_priority :: "pending_fees \<Rightarrow> blob_tx \<Rightarrow> blob_tx" where
  "update_priority fees x = x\<lparr>bt_priority := tx_blob_priority (bt_transaction x) fees\<rparr>"

definition bl_contains :: "blob_pool \<Rightarrow> TransactionId \<Rightarrow> bool" where
  "bl_contains p i \<longleftrightarrow> map_of (bl_by_id p) i \<noteq> None"

definition bl_next_id :: "blob_pool \<Rightarrow> u64 \<times> blob_pool" where
  "bl_next_id p = (bl_submission_id p, p\<lparr>bl_submission_id := bl_submission_id p + 1\<rparr>)"

text \<open>\<open>BTreeSet::insert\<close> keeps an element that compares equal.\<close>

definition blob_set_insert :: "blob_tx \<Rightarrow> (blob_ord, blob_tx) bmap \<Rightarrow> (blob_ord, blob_tx) bmap" where
  "blob_set_insert x m = (case map_of m (blob_key x) of None \<Rightarrow> bins (blob_key x) x m | Some _ \<Rightarrow> m)"

definition bl_add_transaction :: "valid_pool_tx \<Rightarrow> blob_pool \<Rightarrow> blob_pool option" where
  "bl_add_transaction t p =
     (if \<not> is_eip4844 t \<or> bl_contains p (transaction_id t) then None
      else let (submission, p1) = bl_next_id p;
               p2 = p1\<lparr>bl_size_of := size_add (bl_size_of p1) (tx_size t)\<rparr>;
               x = new_blob_tx t submission (bl_pending_fees p2)
           in Some (p2\<lparr>bl_by_id := bins (transaction_id t) x (bl_by_id p2),
                       bl_set := blob_set_insert x (bl_set p2)\<rparr>))"

definition bl_remove_transaction ::
    "TransactionId \<Rightarrow> blob_pool \<Rightarrow> blob_pool \<times> valid_pool_tx option" where
  "bl_remove_transaction i p =
     (case map_of (bl_by_id p) i of
        None \<Rightarrow> (p, None)
      | Some x \<Rightarrow>
          (p\<lparr>bl_by_id := bdel i (bl_by_id p), bl_set := bdel (blob_key x) (bl_set p),
             bl_size_of := size_sub (bl_size_of p) (tx_size (bt_transaction x))\<rparr>,
           Some (bt_transaction x)))"

definition bl_remove ::
    "TransactionId \<Rightarrow> blob_pool \<Rightarrow> (blob_pool \<times> valid_pool_tx option) option" where
  "bl_remove i p = Some (bl_remove_transaction i p)"

definition satisfy_attributes :: "best_attributes \<Rightarrow> blob_pool \<Rightarrow> valid_pool_tx list" where
  "satisfy_attributes attrs p =
     (case ba_blob_fee attrs of
        None \<Rightarrow> []
      | Some fee \<Rightarrow>
          map (bt_transaction \<circ> snd)
            (scan_kept (\<lambda>e. sender (fst e))
               (\<lambda>e. (case max_fee_per_blob_gas (bt_transaction (snd e)) of None \<Rightarrow> 0 | Some f \<Rightarrow> f)
                       < ucast fee \<or>
                    max_fee_per_gas (bt_transaction (snd e)) < ucast (ba_basefee attrs))
               (bl_by_id p)))"

definition bl_len :: "blob_pool \<Rightarrow> nat" where
  "bl_len p = length (bl_by_id p)"

definition bl_size :: "blob_pool \<Rightarrow> usize" where
  "bl_size p = bl_size_of p"

definition bl_exceeds :: "sub_pool_limit \<Rightarrow> blob_pool \<Rightarrow> bool" where
  "bl_exceeds l p = limit_is_exceeded l (bl_len p) (bl_size p)"

definition misses_fees :: "pending_fees \<Rightarrow> valid_pool_tx \<Rightarrow> bool" where
  "misses_fees fees t \<longleftrightarrow>
     (case max_fee_per_blob_gas t of None \<Rightarrow> True | Some f \<Rightarrow> f < blob_fee fees) \<or>
     max_fee_per_gas t < ucast (base_fee fees)"

definition satisfy_pending_fee_ids :: "pending_fees \<Rightarrow> blob_pool \<Rightarrow> TransactionId list" where
  "satisfy_pending_fee_ids fees p =
     map fst (scan_kept (\<lambda>e. sender (fst e)) (\<lambda>e. misses_fees fees (bt_transaction (snd e))) (bl_by_id p))"

definition collect_set :: "blob_tx list \<Rightarrow> (blob_ord, blob_tx) bmap" where
  "collect_set xs = fold (\<lambda>x. bins (blob_key x) x) xs []"

definition reprioritize :: "blob_pool \<Rightarrow> blob_pool" where
  "reprioritize p =
     p\<lparr>bl_set := collect_set (map (update_priority (bl_pending_fees p) \<circ> snd) (bl_set p)),
       bl_by_id := bvals_map (update_priority (bl_pending_fees p)) (bl_by_id p)\<rparr>"

definition enforce_pending_fees ::
    "pending_fees \<Rightarrow> blob_pool \<Rightarrow> (blob_pool \<times> valid_pool_tx list) option" where
  "enforce_pending_fees fees p =
     do { (p1, removed) \<leftarrow> remove_expected bl_remove (satisfy_pending_fee_ids fees p) p;
          Some (reprioritize (p1\<lparr>bl_pending_fees := fees\<rparr>), removed) }"

text \<open>The eviction loop: no transaction to evict, or one that is in the set only, is a panic.\<close>

function bl_truncate_pool ::
    "sub_pool_limit \<Rightarrow> blob_pool \<Rightarrow> (blob_pool \<times> valid_pool_tx list) option" where
  "bl_truncate_pool l p =
     (if \<not> bl_exceeds l p then Some (p, [])
      else case last_opt (bl_set p) of
             None \<Rightarrow> None
           | Some e \<Rightarrow>
               (case bl_remove_transaction (transaction_id (bt_transaction (snd e))) p of
                  (p1, None) \<Rightarrow> None
                | (p1, Some t) \<Rightarrow>
                    do { (p2, ts) \<leftarrow> bl_truncate_pool l p1; Some (p2, t # ts) }))"
  by pat_completeness auto
termination
proof (relation "measure (\<lambda>(l, p). length (bl_by_id p))", goal_cases)
  case (2 l p e p1 r t)
  let ?i = "transaction_id (bt_transaction (snd e))"
  obtain y where y: "map_of (bl_by_id p) ?i = Some y" and p1: "bl_by_id p1 = bdel ?i (bl_by_id p)"
    using 2(3,4) by (auto simp: bl_remove_transaction_def split: option.splits)
  have "(?i, y) \<in> set (bl_by_id p)" using y by (rule map_of_SomeD)
  then have "length (bdel ?i (bl_by_id p)) < length (bl_by_id p)"
    unfolding bdel_def by (rule length_filter_less) simp
  then show ?case by (simp add: p1)
qed simp

declare bl_truncate_pool.simps [simp del]

section \<open>The invariant\<close>

definition bl_entries :: "blob_pool \<Rightarrow> entries" where
  "bl_entries p = bvals_map bt_transaction (bl_by_id p)"

text \<open>The part of the invariant that holds for any priorities.\<close>

definition bl_same :: "(TransactionId, blob_tx) bmap \<Rightarrow> (blob_ord, blob_tx) bmap \<Rightarrow> bool" where
  "bl_same m st \<longleftrightarrow>
     bsorted m \<and> bsorted st \<and>
     (\<forall>i x. map_of m i = Some x \<longrightarrow>
        transaction_id (bt_transaction x) = i \<and> is_eip4844 (bt_transaction x)) \<and>
     (\<forall>i j x y. map_of m i = Some x \<longrightarrow> map_of m j = Some y \<longrightarrow> i \<noteq> j \<longrightarrow>
        bt_submission_id x \<noteq> bt_submission_id y) \<and>
     (\<forall>k x. map_of st k = Some x \<longleftrightarrow>
        blob_key x = k \<and> map_of m (transaction_id (bt_transaction x)) = Some x)"

definition bl_inv :: "blob_pool \<Rightarrow> bool" where
  "bl_inv p \<longleftrightarrow>
     bl_same (bl_by_id p) (bl_set p) \<and> bl_size_of p = total_size (bl_entries p) \<and>
     (\<forall>i x. map_of (bl_by_id p) i = Some x \<longrightarrow>
        bt_submission_id x < bl_submission_id p \<and>
        bt_priority x = tx_blob_priority (bt_transaction x) (bl_pending_fees p))"

definition bl_room :: "blob_pool \<Rightarrow> nat" where
  "bl_room p = submissions_left (bl_submission_id p)"

lemma bl_sameD:
  assumes "bl_same m st"
  shows "bsorted m" and "bsorted st"
    and "map_of m i = Some x \<Longrightarrow> transaction_id (bt_transaction x) = i \<and> is_eip4844 (bt_transaction x)"
    and "map_of m i = Some x \<Longrightarrow> map_of m j = Some y \<Longrightarrow> i \<noteq> j \<Longrightarrow> bt_submission_id x \<noteq> bt_submission_id y"
    and "map_of st k = Some x \<longleftrightarrow> blob_key x = k \<and> map_of m (transaction_id (bt_transaction x)) = Some x"
  using assms unfolding bl_same_def by blast+

lemma bl_sameI:
  assumes "bsorted m" and "bsorted st"
    and "\<And>i x. map_of m i = Some x \<Longrightarrow> transaction_id (bt_transaction x) = i \<and> is_eip4844 (bt_transaction x)"
    and "\<And>i j x y. map_of m i = Some x \<Longrightarrow> map_of m j = Some y \<Longrightarrow> i \<noteq> j \<Longrightarrow>
      bt_submission_id x \<noteq> bt_submission_id y"
    and "\<And>k x. map_of st k = Some x \<longleftrightarrow> blob_key x = k \<and> map_of m (transaction_id (bt_transaction x)) = Some x"
  shows "bl_same m st"
  using assms unfolding bl_same_def by blast

lemma bl_same_insert:
  assumes ok: "bl_same m st" and new: "map_of m i = None" and i: "transaction_id (bt_transaction x) = i"
    and b: "is_eip4844 (bt_transaction x)"
    and fresh: "\<And>j y. map_of m j = Some y \<Longrightarrow> bt_submission_id y \<noteq> bt_submission_id x"
  shows "bl_same (bins i x m) (blob_set_insert x st)"
proof -
  note D = bl_sameD [OF ok]
  have "map_of st (blob_key x) = None"
  proof (cases "map_of st (blob_key x)")
    case (Some y)
    then show ?thesis using D(5) [of "blob_key x" y] fresh by (auto simp: blob_key_def)
  qed
  then have st: "blob_set_insert x st = bins (blob_key x) x st" by (simp add: blob_set_insert_def)
  show ?thesis unfolding st
  proof (rule bl_sameI, goal_cases)
    case (4 j k y z)
    then show ?case
      using D(4) [of j y k z] fresh [of j y] fresh [of k z]
      by (auto simp: map_of_bins split: if_splits)
  next
    case (5 k y)
    then show ?case
      using D(5) [of k y] i new fresh [of "transaction_id (bt_transaction y)" y]
      by (auto simp: map_of_bins blob_key_def)
  qed (use D(1-3) i b in \<open>auto simp: bmap_simps split: if_splits\<close>)
qed

lemma bl_same_delete:
  assumes ok: "bl_same m st" and x: "map_of m i = Some x"
  shows "bl_same (bdel i m) (bdel (blob_key x) st)"
proof -
  note D = bl_sameD [OF ok]
  show ?thesis
  proof (rule bl_sameI, goal_cases)
    case (4 j k y z) then show ?case using D(4) by (auto simp: map_of_bdel split: if_splits)
  next
    case (5 k y)
    have "i = transaction_id (bt_transaction y)"
      if "blob_key y = blob_key x" "map_of m (transaction_id (bt_transaction y)) = Some y"
      using D(4) [OF x that(2)] that(1) by (auto simp: blob_key_def)
    moreover have "y = x" if "transaction_id (bt_transaction y) = i" "map_of m i = Some y"
      using that x by simp
    ultimately show ?case
      using D(5) [of k y] x D(3) [OF x] by (auto simp: map_of_bdel)
  qed (use D(1-3) in \<open>auto simp: bmap_simps split: if_splits\<close>)
qed

lemma map_of_fold_bins:
  "map_of (fold (\<lambda>x. bins (key x) x) xs m) k = map_of (rev (map (\<lambda>x. (key x, x)) xs) @ m) k"
  by (induction xs arbitrary: m) (auto simp: map_of_bins map_add_def split: option.splits)

lemma bsorted_fold_bins: "bsorted m \<Longrightarrow> bsorted (fold (\<lambda>x. bins (key x) x) xs m)"
  by (induction xs arbitrary: m) (auto simp: bsorted_bins)

lemma collect_set_iff:
  assumes "distinct (map blob_key xs)"
  shows "map_of (collect_set xs) k = Some x \<longleftrightarrow> x \<in> set xs \<and> blob_key x = k"
proof -
  have "map fst (rev (map (\<lambda>x. (blob_key x, x)) xs)) = rev (map blob_key xs)"
    by (simp add: rev_map comp_def)
  then have "distinct (map fst (rev (map (\<lambda>x. (blob_key x, x)) xs)))"
    using assms by simp
  then have "map_of (rev (map (\<lambda>x. (blob_key x, x)) xs)) k = Some x \<longleftrightarrow> (k, x) \<in> set (map (\<lambda>x. (blob_key x, x)) xs)"
    by (simp add: map_of_eq_Some_iff)
  then show ?thesis by (auto simp: collect_set_def map_of_fold_bins)
qed

lemma update_priority_fields [simp]:
  "bt_transaction (update_priority fees x) = bt_transaction x"
  "bt_submission_id (update_priority fees x) = bt_submission_id x"
  "bt_priority (update_priority fees x) = tx_blob_priority (bt_transaction x) fees"
  by (simp_all add: update_priority_def)

lemma bl_same_update:
  assumes ok: "bl_same m st"
  shows "bl_same (bvals_map (update_priority fees) m) (collect_set (map (update_priority fees \<circ> snd) st))"
proof -
  note D = bl_sameD [OF ok]
  let ?u = "update_priority fees"
  have st: "map_of m (transaction_id (bt_transaction (snd e))) = Some (snd e)" "blob_key (snd e) = fst e"
    if "e \<in> set st" for e
    using D(5) [of "fst e" "snd e"] that D(2) by (auto simp flip: in_set_map_of)
  have "inj_on (blob_key \<circ> ?u \<circ> snd) (set st)"
  proof (rule inj_onI)
    fix d e assume de: "d \<in> set st" "e \<in> set st" "(blob_key \<circ> ?u \<circ> snd) d = (blob_key \<circ> ?u \<circ> snd) e"
    then have "bt_submission_id (snd d) = bt_submission_id (snd e)" by (simp add: blob_key_def)
    then have "transaction_id (bt_transaction (snd d)) = transaction_id (bt_transaction (snd e))"
      using D(4) [OF st(1) [OF de(1)] st(1) [OF de(2)]] by blast
    then have "snd d = snd e" using st(1) [OF de(1)] st(1) [OF de(2)] by (metis option.inject)
    then show "d = e" using st(2) de(1,2) by (metis prod.expand)
  qed
  moreover have "distinct st" using bsorted_distinct [OF D(2)] by (simp add: distinct_map)
  ultimately have "distinct (map blob_key (map (?u \<circ> snd) st))"
    by (simp add: distinct_map comp_assoc)
  note set_iff = collect_set_iff [OF this]
  have mem: "x \<in> snd ` set st \<longleftrightarrow> map_of m (transaction_id (bt_transaction x)) = Some x" for x
  proof
    assume "x \<in> snd ` set st"
    then show "map_of m (transaction_id (bt_transaction x)) = Some x" using st(1) by auto
  next
    assume "map_of m (transaction_id (bt_transaction x)) = Some x"
    then have "map_of st (blob_key x) = Some x" using D(5) by simp
    then show "x \<in> snd ` set st" by (force dest: map_of_SomeD)
  qed
  show ?thesis
  proof (rule bl_sameI, goal_cases)
    case 2 then show ?case by (simp add: collect_set_def bsorted_fold_bins)
  next
    case (4 i j x y) then show ?case using D(4) by (auto simp: map_of_bvals_map)
  next
    case (5 k x)
    have "x \<in> set (map (?u \<circ> snd) st) \<longleftrightarrow> (\<exists>y. y \<in> snd ` set st \<and> x = ?u y)" by auto
    also have "\<dots> \<longleftrightarrow> map_of (bvals_map ?u m) (transaction_id (bt_transaction x)) = Some x"
      unfolding mem by (auto simp: map_of_bvals_map)
    finally show ?case unfolding set_iff by blast
  qed (use D(1,3) in \<open>auto simp: map_of_bvals_map\<close>)
qed

lemma bl_invD:
  assumes "bl_inv p"
  shows "bl_same (bl_by_id p) (bl_set p)" and "bl_size_of p = total_size (bl_entries p)"
    and "map_of (bl_by_id p) i = Some x \<Longrightarrow> bt_submission_id x < bl_submission_id p"
    and "map_of (bl_by_id p) i = Some x \<Longrightarrow>
      bt_priority x = tx_blob_priority (bt_transaction x) (bl_pending_fees p)"
    and "bsorted (bl_by_id p)" and "bsorted (bl_entries p)"
  using assms unfolding bl_inv_def bl_same_def bl_entries_def map_fst_bvals_map by blast+

lemma bl_inv_default: "bl_inv default_blob_pool"
  by (simp add: bl_inv_def bl_same_def default_blob_pool_def bl_entries_def bvals_map_def total_size_def)

lemma map_of_bl_entries: "map_of (bl_entries p) i = map_option bt_transaction (map_of (bl_by_id p) i)"
  by (simp add: bl_entries_def map_of_bvals_map)

lemma bl_add_law:
  assumes inv: "bl_inv p" and new: "map_of (bl_entries p) (transaction_id t) = None"
    and blob: "is_eip4844 t" and room: "0 < bl_room p"
  obtains p' where "bl_add_transaction t p = Some p'" and "bl_inv p'"
    and "bl_entries p' = bins (transaction_id t) t (bl_entries p)" and "bl_room p' = bl_room p - 1"
proof -
  note D = bl_invD [OF inv]
  have c: "bl_submission_id p \<noteq> max_of"
    and left: "submissions_left (bl_submission_id p + 1) = submissions_left (bl_submission_id p) - 1"
    using submissions_left_succ room by (auto simp: bl_room_def)
  have None: "map_of (bl_by_id p) (transaction_id t) = None" using new by (simp add: map_of_bl_entries)
  define x where "x = new_blob_tx t (bl_submission_id p) (bl_pending_fees p)"
  define p' where "p' = p\<lparr>bl_submission_id := bl_submission_id p + 1,
    bl_size_of := bl_size_of p + tx_size t, bl_by_id := bins (transaction_id t) x (bl_by_id p),
    bl_set := blob_set_insert x (bl_set p)\<rparr>"
  have add: "bl_add_transaction t p = Some p'"
    using blob None by (simp add: bl_add_transaction_def bl_contains_def bl_next_id_def Let_def size_add_def
        p'_def x_def)
  have entries: "bl_entries p' = bins (transaction_id t) t (bl_entries p)"
    by (simp add: p'_def bl_entries_def bvals_map_bins x_def new_blob_tx_def)
  have x: "bt_transaction x = t" "bt_submission_id x = bl_submission_id p" by (simp_all add: x_def new_blob_tx_def)
  have "bt_submission_id y \<noteq> bt_submission_id x" if "map_of (bl_by_id p) j = Some y" for j y
    using D(3) [OF that] x(2) by auto
  then have "bl_same (bl_by_id p') (bl_set p')"
    using bl_same_insert [OF D(1) None, of x] blob by (simp add: p'_def x)
  moreover have "bl_size_of p' = total_size (bl_entries p')"
    unfolding entries using new D(2) by (simp add: total_size_bins p'_def)
  moreover have "bt_submission_id y < bl_submission_id p + 1 \<and>
      bt_priority y = tx_blob_priority (bt_transaction y) (bl_pending_fees p)"
    if "map_of (bins (transaction_id t) x (bl_by_id p)) i = Some y" for i y
    using that D(3) [of i y] D(4) [of i y] c
    by (auto simp: map_of_bins x_def new_blob_tx_def word_self_less_succ intro: word_less_succ split: if_splits)
  ultimately have "bl_inv p'" by (simp add: bl_inv_def p'_def)
  then show thesis
    using that [of p'] add entries left by (simp add: bl_room_def p'_def)
qed

lemma bl_remove_law:
  assumes inv: "bl_inv p"
  shows "bl_inv (fst (bl_remove_transaction i p))"
    and "bl_entries (fst (bl_remove_transaction i p)) = bdel i (bl_entries p)"
    and "snd (bl_remove_transaction i p) = map_of (bl_entries p) i"
    and "bl_room (fst (bl_remove_transaction i p)) = bl_room p"
    and "bl_pending_fees (fst (bl_remove_transaction i p)) = bl_pending_fees p"
proof -
  note D = bl_invD [OF inv]
  show e: "bl_entries (fst (bl_remove_transaction i p)) = bdel i (bl_entries p)"
    and "snd (bl_remove_transaction i p) = map_of (bl_entries p) i"
    and "bl_room (fst (bl_remove_transaction i p)) = bl_room p"
    and "bl_pending_fees (fst (bl_remove_transaction i p)) = bl_pending_fees p"
    by (auto simp: bl_remove_transaction_def bl_entries_def bvals_map_bdel map_of_bvals_map bdel_id
        bl_room_def split: option.splits)
  show "bl_inv (fst (bl_remove_transaction i p))"
  proof (cases "map_of (bl_by_id p) i")
    case None
    then show ?thesis using inv by (simp add: bl_remove_transaction_def)
  next
    case (Some x)
    have "bl_size_of p - tx_size (bt_transaction x) = total_size (bdel i (bl_entries p))"
      using total_size_bdel [OF D(6), of i "bt_transaction x"] Some D(2) by (simp add: map_of_bl_entries)
    then show ?thesis
      unfolding bl_inv_def e using Some bl_same_delete [OF D(1) Some] D(3,4)
      by (auto simp: bl_remove_transaction_def size_sub_def map_of_bdel split: if_splits)
  qed
qed

lemma bl_remove_eq:
  "bl_inv p \<Longrightarrow> bl_remove i p = Some (fst (bl_remove_transaction i p), map_of (bl_entries p) i)"
  using bl_remove_law(3) [of p i] by (simp add: bl_remove_def prod_eq_iff)

interpretation blob: sub_pool bl_inv bl_entries bl_add_transaction bl_remove bl_len bl_size bl_room is_eip4844
proof (unfold_locales, goal_cases)
  case (1 p) then show ?case by (rule bl_invD)
next
  case (2 p i t) then show ?case
    using bl_sameD(3) [OF bl_invD(1) [OF 2(1)]] by (auto simp: map_of_bl_entries)
next
  case (3 p t) then show ?case by (rule bl_add_law) blast
next
  case (4 p i) then show ?case by (simp add: bl_remove_eq bl_remove_law)
next
  case (5 p) then show ?case by (simp add: bl_len_def bl_entries_def)
next
  case (6 p) then show ?case by (simp add: bl_size_def bl_invD(2))
qed

section \<open>Truncation\<close>

lemma bl_set_worst:
  assumes inv: "bl_inv p" and e: "last_opt (bl_set p) = Some e"
  shows "map_of (bl_by_id p) (transaction_id (bt_transaction (snd e))) = Some (snd e)"
    and "map_of (bl_by_id p) i = Some x \<Longrightarrow> bt_priority (snd e) \<le> bt_priority x"
proof -
  note D = bl_sameD [OF bl_invD(1) [OF inv]]
  have le: "bl_set p \<noteq> []" "e = last (bl_set p)" "e \<in> set (bl_set p)" using last_opt_SomeD [OF e] by auto
  then have "map_of (bl_set p) (fst e) = Some (snd e)" using D(2) by (simp flip: in_set_map_of)
  then have key: "blob_key (snd e) = fst e"
    and own: "map_of (bl_by_id p) (transaction_id (bt_transaction (snd e))) = Some (snd e)"
    by (auto simp: D(5))
  show "map_of (bl_by_id p) (transaction_id (bt_transaction (snd e))) = Some (snd e)" by (rule own)
  assume x: "map_of (bl_by_id p) i = Some x"
  then have "map_of (bl_set p) (blob_key x) = Some x" using D(3,5) by simp
  then have mem: "(blob_key x, x) \<in> set (bl_set p)" by (rule map_of_SomeD)
  have split: "bl_set p = butlast (bl_set p) @ [e]" using le(1,2) by simp
  have "\<forall>f \<in> set (butlast (bl_set p)). fst f < fst e"
    using D(2) by (subst (asm) split) (auto simp: sorted_wrt_append)
  moreover have "(blob_key x, x) \<in> set (butlast (bl_set p)) \<or> (blob_key x, x) = e"
    using mem by (subst (asm) split) auto
  ultimately have "blob_key x \<le> blob_key (snd e)" using key by (auto dest: order.strict_implies_order)
  then show "bt_priority (snd e) \<le> bt_priority x"
    by (auto simp: blob_key_def less_eq_prod_def)
qed

lemma bl_truncate_law:
  assumes "bl_inv p"
  shows "\<exists>p' ts. bl_truncate_pool l p = Some (p', ts) \<and> bl_inv p' \<and> evicts (bl_entries p) ts (bl_entries p') \<and>
    bl_room p' = bl_room p \<and> bl_pending_fees p' = bl_pending_fees p \<and> \<not> bl_exceeds l p' \<and>
    (\<forall>t \<in> set ts. \<forall>i u. map_of (bl_entries p') i = Some u \<longrightarrow>
       tx_blob_priority t (bl_pending_fees p) \<le> tx_blob_priority u (bl_pending_fees p)) \<and>
    (\<not> bl_exceeds l p \<longrightarrow> ts = [])"
  using assms
proof (induction l p rule: bl_truncate_pool.induct)
  case (1 l p)
  note inv = 1(2) and D = bl_invD [OF 1(2)]
  show ?case
  proof (cases "bl_exceeds l p")
    case False
    then show ?thesis by (subst bl_truncate_pool.simps) (use inv in simp)
  next
    case True
    have "bl_by_id p \<noteq> []"
      using True D(2) by (auto simp: bl_exceeds_def limit_is_exceeded_def bl_len_def bl_size_def bl_entries_def
          bvals_map_def total_size_def)
    then obtain f m where "bl_by_id p = f # m" by (cases "bl_by_id p") auto
    then obtain i x where "map_of (bl_by_id p) i = Some x" using that [of "fst f" "snd f"] by simp
    then have "map_of (bl_set p) (blob_key x) = Some x" using bl_sameD(3,5) [OF D(1)] by simp
    then have "bl_set p \<noteq> []" by auto
    then obtain e where e: "last_opt (bl_set p) = Some e" by (cases "last_opt (bl_set p)") auto
    let ?t = "bt_transaction (snd e)"
    define p1 where "p1 = fst (bl_remove_transaction (transaction_id ?t) p)"
    note worst = bl_set_worst [OF inv e]
    have t: "map_of (bl_entries p) (transaction_id ?t) = Some ?t" using worst(1) by (simp add: map_of_bl_entries)
    have rm: "bl_remove_transaction (transaction_id ?t) p = (p1, Some ?t)"
      using bl_remove_law(3) [OF inv, of "transaction_id ?t"] t by (simp add: p1_def prod_eq_iff)
    have p1: "bl_inv p1" "bl_entries p1 = bdel (transaction_id ?t) (bl_entries p)" "bl_room p1 = bl_room p"
      "bl_pending_fees p1 = bl_pending_fees p"
      unfolding p1_def by (rule bl_remove_law [OF inv])+
    from 1(1) [OF _ e rm [symmetric] refl p1(1)] True obtain p2 ts where
      p2: "bl_truncate_pool l p1 = Some (p2, ts)" "bl_inv p2" "evicts (bl_entries p1) ts (bl_entries p2)"
        "bl_room p2 = bl_room p1" "bl_pending_fees p2 = bl_pending_fees p1" "\<not> bl_exceeds l p2"
        "\<forall>t \<in> set ts. \<forall>i u. map_of (bl_entries p2) i = Some u \<longrightarrow>
           tx_blob_priority t (bl_pending_fees p1) \<le> tx_blob_priority u (bl_pending_fees p1)" by blast
    have ev: "evicts (bl_entries p) ([?t] @ ts) (bl_entries p2)"
      using evicts_trans [OF evicts_one [OF t]] p1(2) p2(3) by simp
    have "tx_blob_priority ?t (bl_pending_fees p) \<le> tx_blob_priority u (bl_pending_fees p)"
      if u: "map_of (bl_entries p2) i = Some u" for i u
    proof -
      have "map_of (bl_entries p) i = Some u"
        using u map_of_evicts [OF ev, of i] by (simp split: if_splits)
      then obtain y where "map_of (bl_by_id p) i = Some y" "bt_transaction y = u"
        by (auto simp: map_of_bl_entries)
      then show ?thesis using worst(2) [of i y] D(4) [OF worst(1)] D(4) [of i y] by simp
    qed
    then show ?thesis
      by (subst bl_truncate_pool.simps)
        (use True e rm p1(3,4) p2 ev in \<open>simp add: ball_Un\<close>)
  qed
qed

interpretation blob: bounded_pool bl_inv bl_entries bl_add_transaction bl_remove bl_len bl_size bl_room
  is_eip4844 bl_truncate_pool
proof (unfold_locales, goal_cases)
  case (1 p l) then show ?case
    using bl_truncate_law [of p l] by (auto simp: bl_exceeds_def)
qed

section \<open>The fee update\<close>

lemma reprioritize_law:
  assumes "bl_same (bl_by_id p) (bl_set p)" and "bl_size_of p = total_size (bl_entries p)"
    and "\<And>i x. map_of (bl_by_id p) i = Some x \<Longrightarrow> bt_submission_id x < bl_submission_id p"
  shows "bl_inv (reprioritize p)" and "bl_entries (reprioritize p) = bl_entries p"
    and "bl_submission_id (reprioritize p) = bl_submission_id p"
    and "bl_pending_fees (reprioritize p) = bl_pending_fees p"
proof -
  show e: "bl_entries (reprioritize p) = bl_entries p"
    by (simp add: reprioritize_def bl_entries_def bvals_map_def)
  show "bl_submission_id (reprioritize p) = bl_submission_id p"
    and "bl_pending_fees (reprioritize p) = bl_pending_fees p" by (simp_all add: reprioritize_def)
  show "bl_inv (reprioritize p)"
    unfolding bl_inv_def e using assms bl_same_update [OF assms(1), of "bl_pending_fees p"]
    by (auto simp: reprioritize_def map_of_bvals_map)
qed

lemma satisfy_pending_fee_iff:
  assumes "bl_inv p"
  shows "i \<in> set (satisfy_pending_fee_ids fees p) \<longleftrightarrow>
    map_of (bl_entries p) i \<noteq> None \<and>
    (\<forall>j u. map_of (bl_entries p) j = Some u \<and> sender j = sender i \<and> nonce j \<le> nonce i \<longrightarrow>
       \<not> misses_fees fees u)" (is "?l \<longleftrightarrow> ?r")
proof -
  note sm = bl_invD(5) [OF assms]
  let ?k = "scan_kept (\<lambda>e. sender (fst e)) (\<lambda>e. misses_fees fees (bt_transaction (snd e))) (bl_by_id p)"
  have iff: "(i, x) \<in> set ?k \<longleftrightarrow> map_of (bl_by_id p) i = Some x \<and>
      (\<forall>j y. map_of (bl_by_id p) j = Some y \<and> sender j = sender i \<and> nonce j \<le> nonce i \<longrightarrow>
         \<not> misses_fees fees (bt_transaction y))" for x
    unfolding scan_kept_iff [OF sm] Ball_def split_paired_All by (auto simp: in_set_map_of [OF sm])
  have "?l \<longleftrightarrow> (\<exists>x. (i, x) \<in> set ?k)" by (force simp: satisfy_pending_fee_ids_def)
  also have "\<dots> \<longleftrightarrow> ?r"
    unfolding iff map_of_bl_entries by auto
  finally show ?thesis .
qed

lemma satisfy_pending_fee_sorted: "bl_inv p \<Longrightarrow> sorted_wrt (<) (satisfy_pending_fee_ids fees p)"
  unfolding satisfy_pending_fee_ids_def by (rule sorted_scan_kept [OF bl_invD(5)])

lemma not_misses_fees:
  "\<not> misses_fees fees t \<longleftrightarrow>
     (\<exists>f. max_fee_per_blob_gas t = Some f \<and> blob_fee fees \<le> f) \<and> ucast (base_fee fees) \<le> max_fee_per_gas t"
  by (auto simp: misses_fees_def not_less split: option.splits)

lemma enforce_pending_fees_law:
  assumes inv: "bl_inv p"
  obtains p' ts where "enforce_pending_fees fees p = Some (p', ts)" and "bl_inv p'"
    and "bl_room p' = bl_room p" and "bl_pending_fees p' = fees"
    and "evicts (bl_entries p) ts (bl_entries p')"
    and "map transaction_id ts = satisfy_pending_fee_ids fees p"
proof -
  let ?ids = "satisfy_pending_fee_ids fees p"
  note sm = bl_invD(5) [OF inv]
  have dist: "distinct ?ids"
    unfolding satisfy_pending_fee_ids_def by (rule bsorted_distinct [OF sorted_scan_kept [OF sm]])
  have there: "map_of (bl_entries p) i \<noteq> None" if "i \<in> set ?ids" for i
    using that satisfy_pending_fee_iff [OF inv] by blast
  from blob.remove_each_evicts [OF inv dist] obtain p1 where
    p1: "remove_each bl_remove ?ids p = Some (p1, List.map_filter (map_of (bl_entries p)) ?ids)" "bl_inv p1"
      "evicts (bl_entries p) (List.map_filter (map_of (bl_entries p)) ?ids) (bl_entries p1)"
      "bl_room p1 = bl_room p" by blast
  have ids: "map transaction_id (List.map_filter (map_of (bl_entries p)) is) = is" if "set is \<subseteq> set ?ids" for "is"
    using that
  proof (induction "is")
    case (Cons i "is")
    then obtain t where "map_of (bl_entries p) i = Some t" using there by auto
    then show ?case using Cons blob.entries_id [OF inv, of i t] by (simp add: List.map_filter_simps)
  qed (simp add: List.map_filter_simps)
  let ?q = "p1\<lparr>bl_pending_fees := fees\<rparr>"
  have "bl_same (bl_by_id ?q) (bl_set ?q)" "bl_size_of ?q = total_size (bl_entries ?q)"
    "map_of (bl_by_id ?q) i = Some x \<Longrightarrow> bt_submission_id x < bl_submission_id ?q" for i x
    using bl_invD [OF p1(2)] by (simp_all add: bl_entries_def)
  note rp = reprioritize_law [OF this]
  have "enforce_pending_fees fees p = Some (reprioritize ?q, List.map_filter (map_of (bl_entries p)) ?ids)"
    using blob.remove_expected_eq [OF inv dist] there p1(1) by (simp add: enforce_pending_fees_def)
  then show thesis
    using that rp p1 ids [of ?ids] by (simp add: bl_room_def bl_entries_def)
qed

section \<open>What the priority means\<close>

lemma ilog2_mono: "m \<le> n \<Longrightarrow> ilog2 m \<le> ilog2 n"
proof (induction m arbitrary: n rule: ilog2.induct)
  case (1 m)
  show ?case
  proof (cases "m < 2")
    case True then show ?thesis by (simp add: ilog2.simps [of m])
  next
    case False
    then have "ilog2 (m div 2) \<le> ilog2 (n div 2)" using 1(1) [of "n div 2"] 1(2) by (simp add: div_le_mono)
    then show ?thesis using False 1(2) by (simp add: ilog2.simps [of m] ilog2.simps [of n])
  qed
qed

lemma ilog2_bound: "0 < n \<Longrightarrow> n < 2 ^ k \<Longrightarrow> ilog2 n < k"
proof (induction n arbitrary: k rule: ilog2.induct)
  case (1 n)
  show ?case
  proof (cases "n < 2")
    case True then show ?thesis using 1(2,3) by (cases k) (simp_all add: ilog2.simps [of n])
  next
    case False
    then obtain k' where k: "k = Suc k'" using 1(3) by (cases k) auto
    then have "ilog2 (n div 2) < k'" using 1(1) [of k'] 1(3) False by (simp add: less_mult_imp_div_less)
    then show ?thesis using False k by (simp add: ilog2.simps [of n])
  qed
qed

lemma fee_log_eq: "fee_log a = int (ilog2 (unat a))"
  by (simp add: fee_log_def ilog2.simps [of 0])

lemma fee_log_mono: "a \<le> b \<Longrightarrow> fee_log a \<le> fee_log b"
  by (simp add: fee_log_eq word_le_nat_alt ilog2_mono)

lemma fee_log_bounds: "0 \<le> fee_log a" "fee_log a \<le> 127"
proof -
  show "0 \<le> fee_log a" by (simp add: fee_log_def)
  have "unat a < 2 ^ 128" using unsigned_less [of a] by simp
  then have "a \<noteq> 0 \<Longrightarrow> ilog2 (unat a) < 128" by (intro ilog2_bound) (simp_all add: unat_gt_0)
  then show "fee_log a \<le> 127" by (auto simp: fee_log_def)
qed

text \<open>A number of jumps is never close to an integer, unless it is zero.\<close>

lemma jumps_off_integers:
  assumes "0 < d" and "d \<le> 127"
  shows "LOG_2_1_125 < 2000 * (d * 10 ^ 17 mod LOG_2_1_125)"
    and "2000 * (d * 10 ^ 17 mod LOG_2_1_125) < 1999 * LOG_2_1_125"
proof -
  let ?ok = "\<lambda>n. 600 < n * 5884949 mod (1000000 :: nat) \<and> n * 5884949 mod 1000000 < 999300"
  have all: "?ok 1" "list_all ?ok [2..<128]" by simp_all
  define n where "n = nat d"
  have d: "d = int n" and "1 \<le> n" and "n < 128" using assms by (simp_all add: n_def)
  then have "n = 1 \<or> n \<in> set [2..<128]" unfolding set_upt atLeastLessThan_iff by linarith
  then have ok: "?ok n" using all unfolding list_all_iff by blast
  define q r where "q = d * 5884949 div 1000000" and "r = d * 5884949 mod 1000000"
  have qr: "d * 5884949 = 1000000 * q + r" by (simp add: q_def r_def)
  have "r = int (n * 5884949 mod 1000000)" by (simp add: r_def d of_nat_mod)
  then have r: "600 < r" "r < 999300" using ok by simp_all
  define m where "m = d * 10 ^ 17 - q * LOG_2_1_125"
  have lo: "r * LOG_2_1_125 \<le> 1000000 * m" and hi: "1000000 * m \<le> (r + d) * LOG_2_1_125"
    using qr assms by (simp_all add: m_def LOG_2_1_125_def)
  have m: "LOG_2_1_125 < 2000 * m" "2000 * m < 1999 * LOG_2_1_125"
    using lo hi r assms(2) by (simp_all add: LOG_2_1_125_def)
  have "d * 10 ^ 17 = m + q * LOG_2_1_125" by (simp add: m_def)
  then have "d * 10 ^ 17 mod LOG_2_1_125 = m mod LOG_2_1_125" by simp
  also have "\<dots> = m" using m by (intro mod_pos_pos_trivial) (simp_all add: LOG_2_1_125_def)
  finally have "d * 10 ^ 17 mod LOG_2_1_125 = m" .
  then show "LOG_2_1_125 < 2000 * (d * 10 ^ 17 mod LOG_2_1_125)"
    and "2000 * (d * 10 ^ 17 mod LOG_2_1_125) < 1999 * LOG_2_1_125"
    using m by simp_all
qed

text \<open>The delta as a function of the difference of the logarithms.\<close>

definition steps_log :: "int \<Rightarrow> int" where
  "steps_log d = int (ilog2 (nat (- ((- (d * 10 ^ 17)) div LOG_2_1_125))))"

lemma signed_steps:
  "(let jumps = d * 10 ^ 17;
        truncated = sgn jumps * (\<bar>jumps\<bar> div LOG_2_1_125);
        ceil = - ((- jumps) div LOG_2_1_125);
        floor = jumps div LOG_2_1_125
    in if truncated = 0 then 0
       else if 0 < truncated then int (ilog2 (nat ceil))
       else - int (ilog2 (nat (- floor))))
   = (if d = 0 then 0 else if 0 < d then steps_log d else - steps_log (- d))"
proof -
  have big: "0 < n * 10 ^ 17 div LOG_2_1_125" if "0 < n" for n
    using that by (simp add: LOG_2_1_125_def pos_imp_zdiv_pos_iff)
  consider "d = 0" | "0 < d" | "d < 0" by linarith
  then show ?thesis
    using big [of d] big [of "- d"] by cases (simp_all add: Let_def steps_log_def sgn_mult abs_mult)
qed

lemma fee_delta_steps:
  "fee_delta a b =
     (if fee_log a = fee_log b then 0
      else if fee_log b < fee_log a then steps_log (fee_log a - fee_log b)
      else - steps_log (fee_log b - fee_log a))"
  unfolding fee_delta_def signed_steps by simp

lemma steps_log_mono: "d \<le> e \<Longrightarrow> steps_log d \<le> steps_log e"
  unfolding steps_log_def
  by (intro of_nat_mono ilog2_mono nat_mono le_imp_neg_le zdiv_mono1) (simp_all add: LOG_2_1_125_def)

lemma steps_log_nonneg: "0 \<le> steps_log d"
  by (simp add: steps_log_def)

lemma fee_delta_mono: "a \<le> a' \<Longrightarrow> fee_delta a b \<le> fee_delta a' b"
proof -
  assume "a \<le> a'"
  then have le: "fee_log a \<le> fee_log a'" by (rule fee_log_mono)
  show ?thesis
    unfolding fee_delta_steps
    using le steps_log_mono [of "fee_log a - fee_log b" "fee_log a' - fee_log b"]
      steps_log_mono [of "fee_log b - fee_log a'" "fee_log b - fee_log a"]
      steps_log_nonneg [of "fee_log a' - fee_log b"] steps_log_nonneg [of "fee_log b - fee_log a"]
    by (auto intro: order.trans)
qed

lemma fee_delta_sign: "b \<le> a \<Longrightarrow> 0 \<le> fee_delta a b" "a \<le> b \<Longrightarrow> fee_delta a b \<le> 0"
  using fee_log_mono [of a b] fee_log_mono [of b a] by (auto simp: fee_delta_steps steps_log_nonneg)

lemma steps_log_bound: "d \<le> 127 \<Longrightarrow> steps_log d \<le> 9"
proof -
  assume "d \<le> 127"
  then have "steps_log d \<le> steps_log 127" by (rule steps_log_mono)
  also have "steps_log 127 = 9" by (simp add: steps_log_def LOG_2_1_125_def ilog2.simps)
  finally show ?thesis .
qed

lemma fee_delta_bound: "\<bar>fee_delta a b\<bar> \<le> 9"
  using fee_log_bounds [of a] fee_log_bounds [of b] steps_log_nonneg
    steps_log_bound [of "fee_log a - fee_log b"] steps_log_bound [of "fee_log b - fee_log a"]
  by (auto simp: fee_delta_steps)

lemma tx_blob_priority_affordable: "\<not> misses_fees fees t \<Longrightarrow> tx_blob_priority t fees = 0"
  by (auto simp: misses_fees_def tx_blob_priority_def blob_tx_priority_def not_less min_def fee_delta_sign(1)
      intro: order.antisym split: option.splits)

lemma tx_blob_priority_bounds: "- 9 \<le> tx_blob_priority t fees" "tx_blob_priority t fees \<le> 0"
proof -
  have "- 9 \<le> fee_delta a b" for a b using fee_delta_bound [of a b] by linarith
  then show "- 9 \<le> tx_blob_priority t fees" "tx_blob_priority t fees \<le> 0"
    by (simp_all add: tx_blob_priority_def blob_tx_priority_def)
qed

end
