(* ===== verification/All_Transactions.thy ===== *)
theory All_Transactions
  imports Tx_State Blob_Pool
begin

text \<open>
  \<open>AllTransactions\<close> of \<open>pool/txpool.rs\<close>: the container of every pooled transaction, by identifier and
  by hash, with the state bits that decide the sub-pool of each, and \<open>pool/update.rs\<close>, the moves it
  asks \<open>TxPool\<close> to carry out.

  The loop of \<open>update\<close> runs over all transactions in the order of their identifiers and the loop of
  \<open>insert_tx\<close> over those of one sender; both are recursions over the entries of the map. The lemmas
  show that every operation keeps the container well formed (\<open>all_wf\<close>): the two maps hold the same
  transactions, the sub-pool recorded for a transaction is the one its bits say, a sender has only
  blob transactions or none, and the counters and the authorities are exact.
\<close>

section \<open>pool/update.rs\<close>

datatype Destination = Discard | Pool SubPool

record pool_update =
  up_id :: TransactionId
  up_current :: SubPool
  up_destination :: Destination

record update_outcome =
  promoted :: "valid_pool_tx list"
  discarded :: "valid_pool_tx list"

definition default_outcome :: update_outcome where
  "default_outcome = \<lparr>promoted = [], discarded = []\<rparr>"

section \<open>Data\<close>

record internal_tx =
  it_transaction :: valid_pool_tx
  it_subpool :: SubPool
  it_state :: TxState
  it_cumulative_cost :: U256

definition next_cumulative_cost :: "internal_tx \<Rightarrow> U256" where
  "next_cumulative_cost x = it_cumulative_cost x + tx_cost (it_transaction x)"

record sender_context =
  si_state_nonce :: u64
  si_balance :: U256

record tx_type_counts =
  legacy :: u64
  eip2930 :: u64
  eip1559 :: u64
  eip4844 :: u64
  eip7702 :: u64
  other :: u64

definition counter_mut :: "u8 \<Rightarrow> (u64 \<Rightarrow> u64) \<Rightarrow> tx_type_counts \<Rightarrow> tx_type_counts" where
  "counter_mut ty f c =
     (if ty = 0 then c\<lparr>legacy := f (legacy c)\<rparr>
      else if ty = 1 then c\<lparr>eip2930 := f (eip2930 c)\<rparr>
      else if ty = 2 then c\<lparr>eip1559 := f (eip1559 c)\<rparr>
      else if ty = EIP4844_TX_TYPE_ID then c\<lparr>eip4844 := f (eip4844 c)\<rparr>
      else if ty = 4 then c\<lparr>eip7702 := f (eip7702 c)\<rparr>
      else c\<lparr>other := f (other c)\<rparr>)"

definition type_inc :: "u8 \<Rightarrow> tx_type_counts \<Rightarrow> tx_type_counts" where
  "type_inc ty = counter_mut ty (\<lambda>n. n + 1)"

definition type_dec :: "u8 \<Rightarrow> tx_type_counts \<Rightarrow> tx_type_counts" where
  "type_dec ty = counter_mut ty (\<lambda>n. n - 1)"

text \<open>The set of hashes of an authority is a list without repetitions.\<close>

record all_transactions =
  minimal_protocol_basefee :: u64
  block_gas_limit :: u64
  max_account_slots :: nat
  by_hash :: "(B256, valid_pool_tx) bmap"
  txs :: "(TransactionId, internal_tx) bmap"
  sender_info :: "(SenderId, sender_context) bmap"
  tx_counter :: "(SenderId, nat) bmap"
  last_seen_block_number :: u64
  last_seen_block_hash :: B256
  tracked_fees :: pending_fees
  price_bumps :: price_bump_config
  local_transactions_config :: local_tx_config
  auths :: "(SenderId, B256 list) bmap"
  type_counts :: tx_type_counts

definition default_all_transactions :: all_transactions where
  "default_all_transactions =
     \<lparr>minimal_protocol_basefee = 7, block_gas_limit = 30000000, max_account_slots = 16,
      by_hash = [], txs = [], sender_info = [], tx_counter = [],
      last_seen_block_number = 0, last_seen_block_hash = 0, tracked_fees = default_pending_fees,
      price_bumps = default_price_bumps, local_transactions_config = default_local_config,
      auths = [], type_counts = \<lparr>legacy = 0, eip2930 = 0, eip1559 = 0, eip4844 = 0, eip7702 = 0, other = 0\<rparr>\<rparr>"

definition new_all_transactions :: "pool_config \<Rightarrow> all_transactions" where
  "new_all_transactions c =
     default_all_transactions\<lparr>max_account_slots := cfg_max_account_slots c,
       price_bumps := cfg_price_bumps c, local_transactions_config := cfg_local_transactions_config c,
       minimal_protocol_basefee := cfg_minimal_protocol_basefee c, block_gas_limit := cfg_gas_limit c\<rparr>"

section \<open>Counters and block information\<close>

definition at_contains :: "all_transactions \<Rightarrow> B256 \<Rightarrow> bool" where
  "at_contains a h \<longleftrightarrow> map_of (by_hash a) h \<noteq> None"

definition at_get :: "all_transactions \<Rightarrow> TransactionId \<Rightarrow> internal_tx option" where
  "at_get a i = map_of (txs a) i"

definition at_len :: "all_transactions \<Rightarrow> nat" where
  "at_len a = length (txs a)"

definition at_is_empty :: "all_transactions \<Rightarrow> bool" where
  "at_is_empty a \<longleftrightarrow> txs a = []"

definition tx_count :: "all_transactions \<Rightarrow> SenderId \<Rightarrow> nat" where
  "tx_count a s = (case map_of (tx_counter a) s of None \<Rightarrow> 0 | Some n \<Rightarrow> n)"

definition tx_inc :: "SenderId \<Rightarrow> all_transactions \<Rightarrow> all_transactions" where
  "tx_inc s a = a\<lparr>tx_counter := bins s (tx_count a s + 1) (tx_counter a)\<rparr>"

definition tx_decr :: "SenderId \<Rightarrow> all_transactions \<Rightarrow> all_transactions" where
  "tx_decr s a =
     (case map_of (tx_counter a) s of
        None \<Rightarrow> a
      | Some n \<Rightarrow>
          if n = 1 then a\<lparr>tx_counter := bdel s (tx_counter a), sender_info := bdel s (sender_info a)\<rparr>
          else a\<lparr>tx_counter := bins s (n - 1) (tx_counter a)\<rparr>)"

definition at_set_block_info :: "block_info \<Rightarrow> all_transactions \<Rightarrow> all_transactions" where
  "at_set_block_info info a =
     a\<lparr>last_seen_block_number := bi_last_seen_block_number info,
       last_seen_block_hash := bi_last_seen_block_hash info,
       block_gas_limit := bi_block_gas_limit info,
       tracked_fees :=
         \<lparr>base_fee = bi_pending_basefee info,
          blob_fee = (case bi_pending_blob_fee info of None \<Rightarrow> blob_fee (tracked_fees a) | Some f \<Rightarrow> f)\<rparr>\<rparr>"

section \<open>update\<close>

definition set_flag :: "bool \<Rightarrow> TxState \<Rightarrow> internal_tx \<Rightarrow> internal_tx" where
  "set_flag on f x = x\<lparr>it_state := (if on then st_insert (it_state x) f else st_remove (it_state x) f)\<rparr>"

definition update_tx_base_fee :: "u64 \<Rightarrow> internal_tx \<Rightarrow> internal_tx" where
  "update_tx_base_fee fee x = set_flag (ucast fee \<le> max_fee_per_gas (it_transaction x)) ENOUGH_FEE_CAP_BLOCK x"

definition record_subpool_update :: "internal_tx \<Rightarrow> internal_tx \<times> pool_update list" where
  "record_subpool_update x =
     (let new = sub_pool_of (it_state x)
      in (x\<lparr>it_subpool := new\<rparr>,
          if it_subpool x \<noteq> new
          then [\<lparr>up_id = transaction_id (it_transaction x), up_current = it_subpool x, up_destination = Pool new\<rparr>]
          else []))"

text \<open>
  Where the loop stands: before the first transaction of a sender, in the rest of a sender whose
  transactions it passes over (\<open>next_sender!\<close>), or among the consecutive transactions of a sender,
  with the changed balance, the cumulative cost, the next nonce in line and whether an earlier
  transaction is parked.
\<close>

datatype update_mode =
    First
  | Skip SenderId
  | Consecutive SenderId "U256 option" U256 u64 bool

text \<open>Whether the transaction lies below the nonce of a changed sender.\<close>

definition stale :: "(SenderId, sender_context) bmap \<Rightarrow> TransactionId \<Rightarrow> bool" where
  "stale changed i \<longleftrightarrow>
     (case map_of changed (sender i) of None \<Rightarrow> False | Some c \<Rightarrow> nonce i < si_state_nonce c)"

text \<open>The body of the outer loop, for one transaction.\<close>

definition update_first ::
    "(SenderId, sender_context) bmap \<Rightarrow> u64 \<Rightarrow> TransactionId \<Rightarrow> internal_tx \<Rightarrow>
     internal_tx \<times> pool_update list \<times> update_mode" where
  "update_first changed fee i x =
     (let info = map_of changed (sender i)
      in if stale changed i
         then (x, [\<lparr>up_id = transaction_id (it_transaction x), up_current = it_subpool x,
                    up_destination = Discard\<rparr>], First)
         else
           let x1 = (case info of
                       None \<Rightarrow> x
                     | Some c \<Rightarrow>
                         if ancestor (nonce i) (si_state_nonce c) (sender i) = None
                         then set_flag (tx_cost (it_transaction x) \<le> si_balance c) ENOUGH_BALANCE
                           ((set_flag True NO_PARKED_ANCESTORS (set_flag True NO_NONCE_GAPS x))
                              \<lparr>it_cumulative_cost := 0\<rparr>)
                         else x)
           in if has_nonce_gap (it_state x1) then (x1, [], Skip (sender i))
              else
                let (x2, us) = record_subpool_update (update_tx_base_fee fee (set_flag True NO_PARKED_ANCESTORS x1))
                in (x2, us, Consecutive (sender i) (map_option si_balance info) (next_cumulative_cost x2)
                             (saturating_add (tx_nonce (it_transaction x)) 1) (\<not> st_is_pending (it_state x2))))"

text \<open>The body of the inner loop, once the nonce is the next in line.\<close>

definition update_consecutive ::
    "u64 \<Rightarrow> U256 option \<Rightarrow> U256 \<Rightarrow> bool \<Rightarrow> internal_tx \<Rightarrow> internal_tx \<times> pool_update list \<times> U256 \<times> bool" where
  "update_consecutive fee balance cost parked x =
     (let x1 = (set_flag True NO_NONCE_GAPS x)\<lparr>it_cumulative_cost := cost\<rparr>;
          cost' = next_cumulative_cost x1;
          x2 = (case balance of None \<Rightarrow> x1 | Some b \<Rightarrow> set_flag (cost' \<le> b) ENOUGH_BALANCE x1);
          x3 = set_flag (\<not> parked) NO_PARKED_ANCESTORS x2;
          parked' = (\<not> st_is_pending (it_state x3));
          (x4, us) = record_subpool_update (update_tx_base_fee fee x3)
      in (x4, us, cost', parked'))"

fun update_tx ::
    "(SenderId, sender_context) bmap \<Rightarrow> u64 \<Rightarrow> update_mode \<Rightarrow> TransactionId \<Rightarrow> internal_tx \<Rightarrow>
     internal_tx \<times> pool_update list \<times> update_mode" where
  "update_tx changed fee First i x = update_first changed fee i x"
| "update_tx changed fee (Skip s) i x =
     (if sender i \<noteq> s then update_first changed fee i x else (x, [], Skip s))"
| "update_tx changed fee (Consecutive s balance cost next parked) i x =
     (if sender i \<noteq> s then update_first changed fee i x
      else if tx_nonce (it_transaction x) \<noteq> next then (x, [], Skip s)
      else let (x', us, cost', parked') = update_consecutive fee balance cost parked x
           in (x', us, Consecutive s balance cost' (saturating_add next 1) parked'))"

fun update_loop ::
    "(SenderId, sender_context) bmap \<Rightarrow> u64 \<Rightarrow> update_mode \<Rightarrow> (TransactionId, internal_tx) bmap \<Rightarrow>
     (TransactionId, internal_tx) bmap \<times> pool_update list" where
  "update_loop changed fee mode [] = ([], [])"
| "update_loop changed fee mode ((i, x) # m) =
     (let (x', us, mode') = update_tx changed fee mode i x;
          (m', us') = update_loop changed fee mode' m
      in ((i, x') # m', us @ us'))"

definition at_update ::
    "(SenderId, sender_context) bmap \<Rightarrow> all_transactions \<Rightarrow> all_transactions \<times> pool_update list" where
  "at_update changed a =
     (let (m, us) = update_loop changed (base_fee (tracked_fees a)) First (txs a)
      in (a\<lparr>txs := m\<rparr>, us))"

section \<open>Iterators\<close>

definition txs_iter :: "SenderId \<Rightarrow> all_transactions \<Rightarrow> (TransactionId, internal_tx) bmap" where
  "txs_iter s a = takeWhile (\<lambda>e. sender (fst e) = s) (bfrom (start_bound s) (txs a))"

definition descendant_txs_exclusive :: "TransactionId \<Rightarrow> all_transactions \<Rightarrow> (TransactionId, internal_tx) bmap" where
  "descendant_txs_exclusive i a = takeWhile (\<lambda>e. sender (fst e) = sender i) (bafter i (txs a))"

definition descendant_txs_inclusive :: "TransactionId \<Rightarrow> all_transactions \<Rightarrow> (TransactionId, internal_tx) bmap" where
  "descendant_txs_inclusive i a = takeWhile (\<lambda>e. sender (fst e) = sender i) (bfrom i (txs a))"

text \<open>\<open>descendant_txs_mut\<close>: the entries it iterates over are rewritten, the others stay.\<close>

definition descendant_txs_mut ::
    "TransactionId \<Rightarrow> ((TransactionId, internal_tx) bmap \<Rightarrow> (TransactionId, internal_tx) bmap) \<Rightarrow>
     (TransactionId, internal_tx) bmap \<Rightarrow> (TransactionId, internal_tx) bmap" where
  "descendant_txs_mut i f m =
     bbefore i m @ f (takeWhile (\<lambda>e. sender (fst e) = sender i) (bfrom i m))
       @ dropWhile (\<lambda>e. sender (fst e) = sender i) (bfrom i m)"

section \<open>Removal\<close>

fun remove_hashes :: "B256 \<Rightarrow> SenderId list \<Rightarrow> (SenderId, B256 list) bmap \<Rightarrow> (SenderId, B256 list) bmap" where
  "remove_hashes h [] m = m"
| "remove_hashes h (s # ss) m =
     remove_hashes h ss
       (case map_of m s of
          None \<Rightarrow> m
        | Some hs \<Rightarrow> let hs' = removeAll h hs in if hs' = [] then bdel s m else bins s hs' m)"

definition remove_auths :: "internal_tx \<Rightarrow> all_transactions \<Rightarrow> all_transactions" where
  "remove_auths x a =
     (case authority_ids (it_transaction x) of
        None \<Rightarrow> a
      | Some ids \<Rightarrow> a\<lparr>auths := remove_hashes (tx_hash (it_transaction x)) ids (auths a)\<rparr>)"

definition dec_type :: "internal_tx \<Rightarrow> all_transactions \<Rightarrow> all_transactions" where
  "dec_type x a = a\<lparr>type_counts := type_dec (tx_type (it_transaction x)) (type_counts a)\<rparr>"

definition at_remove_transaction_by_hash ::
    "B256 \<Rightarrow> all_transactions \<Rightarrow> all_transactions \<times> (valid_pool_tx \<times> SubPool) option" where
  "at_remove_transaction_by_hash h a =
     (case map_of (by_hash a) h of
        None \<Rightarrow> (a, None)
      | Some t \<Rightarrow>
          let a1 = a\<lparr>by_hash := bdel h (by_hash a)\<rparr>
          in case map_of (txs a1) (transaction_id t) of
               None \<Rightarrow> (a1, None)
             | Some x \<Rightarrow>
                 (tx_decr (tx_sender_id t)
                    (dec_type x (remove_auths x (a1\<lparr>txs := bdel (transaction_id t) (txs a1)\<rparr>))),
                  Some (t, it_subpool x)))"

definition at_remove_transaction_by_id ::
    "TransactionId \<Rightarrow> all_transactions \<Rightarrow> all_transactions \<times> (valid_pool_tx \<times> SubPool) option" where
  "at_remove_transaction_by_id i a =
     (case map_of (txs a) i of
        None \<Rightarrow> (a, None)
      | Some x \<Rightarrow>
          let a1 = a\<lparr>txs := bdel i (txs a)\<rparr>
          in case map_of (by_hash a1) (tx_hash (it_transaction x)) of
               None \<Rightarrow> (a1, None)
             | Some t \<Rightarrow>
                 (tx_decr (tx_sender_id t)
                    (dec_type x (remove_auths x
                       (a1\<lparr>by_hash := bdel (tx_hash (it_transaction x)) (by_hash a1)\<rparr>))),
                  Some (t, it_subpool x)))"

definition at_remove_transaction ::
    "TransactionId \<Rightarrow> all_transactions \<Rightarrow> all_transactions \<times> (valid_pool_tx \<times> SubPool) option" where
  "at_remove_transaction i a =
     (case map_of (txs a) i of
        None \<Rightarrow> (a, None)
      | Some x \<Rightarrow>
          let a1 = dec_type x (tx_decr (tx_sender_id (it_transaction x)) (a\<lparr>txs := bdel i (txs a)\<rparr>));
              h = tx_hash (it_transaction x);
              result = map_option (\<lambda>t. (t, it_subpool x)) (map_of (by_hash a1) h)
          in (remove_auths x (a1\<lparr>by_hash := bdel h (by_hash a1)\<rparr>), result))"

definition park_tx :: "internal_tx \<Rightarrow> internal_tx" where
  "park_tx x = (let x1 = set_flag False NO_NONCE_GAPS x in x1\<lparr>it_subpool := sub_pool_of (it_state x1)\<rparr>)"

definition move_of :: "TransactionId \<Rightarrow> internal_tx \<Rightarrow> internal_tx \<Rightarrow> pool_update list" where
  "move_of i x x' =
     (if it_subpool x \<noteq> it_subpool x'
      then [\<lparr>up_id = i, up_current = it_subpool x, up_destination = Pool (it_subpool x')\<rparr>] else [])"

definition park_descendant_transactions ::
    "TransactionId \<Rightarrow> all_transactions \<Rightarrow> all_transactions \<times> pool_update list" where
  "park_descendant_transactions i a =
     (a\<lparr>txs := descendant_txs_mut i (bvals_map park_tx) (txs a)\<rparr>,
      concat (map (\<lambda>(j, x). move_of j x (park_tx x)) (descendant_txs_inclusive i a)))"

section \<open>Insertion\<close>

datatype insert_err =
    Underpriced valid_pool_tx B256
  | BlobTxHasNonceGap valid_pool_tx
  | Overdraft valid_pool_tx
  | FeeCapBelowMinimumProtocolFeeCap valid_pool_tx u128
  | ExceededSenderTransactionsCapacity valid_pool_tx
  | TxGasLimitMoreThanAvailableBlockGas valid_pool_tx u64 u64
  | TxTypeConflict valid_pool_tx

record insert_ok =
  io_transaction :: valid_pool_tx
  io_move_to :: SubPool
  io_state :: TxState
  io_replaced_tx :: "(valid_pool_tx \<times> SubPool) option"
  io_updates :: "pool_update list"

definition contains_conflicting_transaction :: "valid_pool_tx \<Rightarrow> all_transactions \<Rightarrow> bool" where
  "contains_conflicting_transaction t a \<longleftrightarrow>
     (case txs_iter (tx_sender_id t) a of
        [] \<Rightarrow> False
      | (_, existing) # _ \<Rightarrow> tx_type_conflicts_with t (it_transaction existing))"

definition ensure_valid :: "valid_pool_tx \<Rightarrow> u64 \<Rightarrow> all_transactions \<Rightarrow> insert_err + unit" where
  "ensure_valid t on_chain_nonce a =
     (if \<not> config_is_local (local_transactions_config a) (origin t) (pt_sender (vp_transaction t)) \<and>
         max_account_slots a \<le> tx_count a (tx_sender_id t) \<and> on_chain_nonce < tx_nonce t
      then Inl (ExceededSenderTransactionsCapacity t)
      else if block_gas_limit a < tx_gas_limit t
      then Inl (TxGasLimitMoreThanAvailableBlockGas t (block_gas_limit a) (tx_gas_limit t))
      else if contains_conflicting_transaction t a then Inl (TxTypeConflict t)
      else Inr ())"

text \<open>Whether a replacement would push a later blob transaction of the sender into overdraft.\<close>

fun shifts_overdraft :: "U256 \<Rightarrow> U256 \<Rightarrow> (TransactionId, internal_tx) bmap \<Rightarrow> bool" where
  "shifts_overdraft balance cost [] = False"
| "shifts_overdraft balance cost ((_, x) # m) =
     (let cost' = cost + tx_cost (it_transaction x)
      in if is_eip4844 (it_transaction x) \<and> balance < cost' then True
         else shifts_overdraft balance cost' m)"

definition ensure_valid_blob_transaction ::
    "valid_pool_tx \<Rightarrow> U256 \<Rightarrow> TransactionId option \<Rightarrow> all_transactions \<Rightarrow> insert_err + unit" where
  "ensure_valid_blob_transaction t balance anc a =
     (case anc of
        None \<Rightarrow> if balance < tx_cost t then Inl (Overdraft t) else Inr ()
      | Some j \<Rightarrow>
          (case map_of (txs a) j of
             None \<Rightarrow> Inl (BlobTxHasNonceGap t)
           | Some x \<Rightarrow>
               if has_nonce_gap (it_state x) then Inl (BlobTxHasNonceGap t)
               else
                 let cost = next_cumulative_cost x + tx_cost t
                 in if balance < cost then Inl (Overdraft t)
                    else case descendant_txs_inclusive (transaction_id t) a of
                           [] \<Rightarrow> Inr ()
                         | (k, _) # rest \<Rightarrow>
                             if k = transaction_id t \<and> shifts_overdraft balance cost rest
                             then Inl (Overdraft t) else Inr ()))"

fun insert_hashes :: "B256 \<Rightarrow> SenderId list \<Rightarrow> (SenderId, B256 list) bmap \<Rightarrow> (SenderId, B256 list) bmap" where
  "insert_hashes h [] m = m"
| "insert_hashes h (s # ss) m =
     insert_hashes h ss (bins s (List.insert h (case map_of m s of None \<Rightarrow> [] | Some hs \<Rightarrow> hs)) m)"

text \<open>The state bits of a new transaction before the transactions of its sender are traversed.\<close>

definition initial_state :: "valid_pool_tx \<Rightarrow> TransactionId option \<Rightarrow> pending_fees \<Rightarrow> TxState" where
  "initial_state t anc fees =
     (let s0 = st_insert 0 NOT_TOO_MUCH_GAS;
          s1 = (if is_eip4844 t
                then let s = st_insert s0 BLOB_TRANSACTION
                     in if blob_fee fees \<le> (case max_fee_per_blob_gas t of None \<Rightarrow> 0 | Some f \<Rightarrow> f)
                        then st_insert s ENOUGH_BLOB_FEE_CAP_BLOCK else s
                else st_insert s0 ENOUGH_BLOB_FEE_CAP_BLOCK);
          s2 = (if anc = None then st_insert (st_insert s1 NO_NONCE_GAPS) NO_PARKED_ANCESTORS else s1)
      in if ucast (base_fee fees) \<le> max_fee_per_gas t then st_insert s2 ENOUGH_FEE_CAP_BLOCK else s2)"

text \<open>Putting the transaction into both maps, in place of the one it replaces.\<close>

definition place_tx ::
    "internal_tx \<Rightarrow> all_transactions \<Rightarrow> insert_err + (all_transactions \<times> (valid_pool_tx \<times> SubPool) option)" where
  "place_tx x a =
     (let t = it_transaction x
      in case map_of (txs a) (transaction_id t) of
           None \<Rightarrow>
             Inr (a\<lparr>by_hash := bins (tx_hash t) t (by_hash a),
                    type_counts := type_inc (tx_type t) (type_counts a),
                    txs := bins (transaction_id t) x (txs a)\<rparr>, None)
         | Some old \<Rightarrow>
             if is_underpriced (it_transaction old) t (price_bumps a)
             then Inl (Underpriced t (tx_hash (it_transaction old)))
             else
               Inr (remove_auths old
                      (a\<lparr>type_counts := type_dec (tx_type (it_transaction old)) (type_inc (tx_type t) (type_counts a)),
                         txs := bins (transaction_id t) x (txs a),
                         by_hash := bins (tx_hash t) t (bdel (tx_hash (it_transaction old)) (by_hash a))\<rparr>),
                    Some (it_transaction old, it_subpool old)))"

text \<open>
  The traversal of the sender's transactions from the on-chain nonce on, up to the first nonce gap:
  what becomes of each of them, the moves of those that are not the new one, and the state of the new
  one.
\<close>

definition insert_visit :: "U256 \<Rightarrow> U256 \<Rightarrow> bool \<Rightarrow> internal_tx \<Rightarrow> internal_tx" where
  "insert_visit balance cost parked x =
     (let x1 = (set_flag True NO_NONCE_GAPS x)\<lparr>it_cumulative_cost := cost\<rparr>;
          x2 = set_flag (next_cumulative_cost x1 \<le> balance) ENOUGH_BALANCE x1;
          x3 = set_flag (\<not> parked) NO_PARKED_ANCESTORS x2
      in x3\<lparr>it_subpool := sub_pool_of (it_state x3)\<rparr>)"

fun insert_scan ::
    "U256 \<Rightarrow> TransactionId \<Rightarrow> u64 \<Rightarrow> U256 \<Rightarrow> bool \<Rightarrow> TxState \<Rightarrow> (TransactionId, internal_tx) bmap \<Rightarrow>
     (TransactionId, internal_tx) bmap \<times> pool_update list \<times> TxState" where
  "insert_scan balance new next cost parked st [] = ([], [], st)"
| "insert_scan balance new next cost parked st ((i, x) # m) =
     (if next \<noteq> nonce i then ((i, x) # m, [], st)
      else
        let x' = insert_visit balance cost parked x;
            (m', us, st') =
              insert_scan balance new (next_nonce i) (next_cumulative_cost x') (\<not> st_is_pending (it_state x'))
                (if new = i then it_state x' else st) m
        in ((i, x') # m', (if new = i then [] else move_of i x x') @ us, st'))"

definition traverse_sender ::
    "U256 \<Rightarrow> u64 \<Rightarrow> TransactionId \<Rightarrow> TxState \<Rightarrow> all_transactions \<Rightarrow>
     all_transactions \<times> pool_update list \<times> TxState" where
  "traverse_sender balance on_chain_nonce new st a =
     (let on_chain_id = TransactionId (sender new) on_chain_nonce;
          scan = insert_scan balance new on_chain_nonce 0 False st
      in (a\<lparr>txs := descendant_txs_mut on_chain_id (\<lambda>m. fst (scan m)) (txs a)\<rparr>,
          snd (scan (descendant_txs_inclusive on_chain_id a))))"

definition insert_tx ::
    "valid_pool_tx \<Rightarrow> U256 \<Rightarrow> u64 \<Rightarrow> all_transactions \<Rightarrow> (insert_err + (all_transactions \<times> insert_ok)) option" where
  "insert_tx t balance on_chain_nonce a =
     (if \<not> on_chain_nonce \<le> tx_nonce t then None
      else Some (
        case ensure_valid t on_chain_nonce a of Inl e \<Rightarrow> Inl e | Inr _ \<Rightarrow>
        let anc = ancestor (tx_nonce t) on_chain_nonce (tx_sender_id t)
        in case (if is_eip4844 t then ensure_valid_blob_transaction t balance anc a else Inr ()) of
             Inl e \<Rightarrow> Inl e
           | Inr _ \<Rightarrow>
               if max_fee_per_gas t < ucast (minimal_protocol_basefee a)
               then Inl (FeeCapBelowMinimumProtocolFeeCap t (max_fee_per_gas t))
               else
                 let st = initial_state t anc (tracked_fees a);
                     x = \<lparr>it_transaction = t, it_subpool = sub_pool_of st, it_state = st, it_cumulative_cost = 0\<rparr>
                 in case place_tx x a of
                      Inl e \<Rightarrow> Inl e
                    | Inr (a1, replaced) \<Rightarrow>
                        let a2 = (case authority_ids t of
                                    None \<Rightarrow> a1
                                  | Some ids \<Rightarrow> a1\<lparr>auths := insert_hashes (tx_hash t) ids (auths a1)\<rparr>);
                            (a3, us, st') = traverse_sender balance on_chain_nonce (transaction_id t) st a2;
                            a4 = (if replaced = None then tx_inc (tx_sender_id t) a3 else a3)
                        in Inr (a4, \<lparr>io_transaction = t, io_move_to = sub_pool_of st', io_state = st',
                                     io_replaced_tx = replaced, io_updates = us\<rparr>)))"

definition at_assert_invariants :: "all_transactions \<Rightarrow> bool" where
  "at_assert_invariants a \<longleftrightarrow>
     length (by_hash a) = length (txs a) \<and> length (auths a) \<le> length (txs a)"

section \<open>Well-formedness\<close>

text \<open>
  Everything but the state bits depends on the container only through its transactions by
  identifier. Each index is related to them on its own, with what adding and deleting one
  transaction does to it.
\<close>

definition at_entries :: "all_transactions \<Rightarrow> entries" where
  "at_entries a = bvals_map it_transaction (txs a)"

definition entries_ok :: "entries \<Rightarrow> bool" where
  "entries_ok m \<longleftrightarrow>
     bsorted m \<and>
     (\<forall>i t. map_of m i = Some t \<longrightarrow> transaction_id t = i \<and> nonce_matches t) \<and>
     (\<forall>i j t u. map_of m i = Some t \<longrightarrow> map_of m j = Some u \<longrightarrow> sender i = sender j \<longrightarrow>
        is_eip4844 t = is_eip4844 u)"

definition hash_index :: "(B256, valid_pool_tx) bmap \<Rightarrow> entries \<Rightarrow> bool" where
  "hash_index h m \<longleftrightarrow>
     bsorted h \<and> (\<forall>k t. map_of h k = Some t \<longleftrightarrow> tx_hash t = k \<and> map_of m (transaction_id t) = Some t)"

definition counter_index :: "(SenderId, nat) bmap \<Rightarrow> entries \<Rightarrow> bool" where
  "counter_index c m \<longleftrightarrow>
     bsorted c \<and> (\<forall>s. map_of c s = (if sender_count m s = 0 then None else Some (sender_count m s)))"

definition authorities :: "valid_pool_tx \<Rightarrow> SenderId list" where
  "authorities t = (case authority_ids t of None \<Rightarrow> [] | Some ids \<Rightarrow> ids)"

definition hashes_of :: "(SenderId, B256 list) bmap \<Rightarrow> SenderId \<Rightarrow> B256 set" where
  "hashes_of u s = (case map_of u s of None \<Rightarrow> {} | Some hs \<Rightarrow> set hs)"

definition authority_hashes :: "entries \<Rightarrow> SenderId \<Rightarrow> B256 set" where
  "authority_hashes m s = {tx_hash t | i t. map_of m i = Some t \<and> s \<in> set (authorities t)}"

definition auth_index :: "(SenderId, B256 list) bmap \<Rightarrow> entries \<Rightarrow> bool" where
  "auth_index u m \<longleftrightarrow>
     bsorted u \<and> (\<forall>s. map_of u s \<noteq> Some []) \<and> (\<forall>s. hashes_of u s = authority_hashes m s)"

definition counter_of :: "u8 \<Rightarrow> tx_type_counts \<Rightarrow> u64" where
  "counter_of ty c =
     (if ty = 0 then legacy c else if ty = 1 then eip2930 c else if ty = 2 then eip1559 c
      else if ty = EIP4844_TX_TYPE_ID then eip4844 c else if ty = 4 then eip7702 c else other c)"

definition same_slot :: "u8 \<Rightarrow> u8 \<Rightarrow> bool" where
  "same_slot ty ty' \<longleftrightarrow> ty = ty' \<or> ty \<notin> {0, 1, 2, 3, 4} \<and> ty' \<notin> {0, 1, 2, 3, 4}"

definition type_index :: "tx_type_counts \<Rightarrow> entries \<Rightarrow> bool" where
  "type_index c m \<longleftrightarrow>
     (\<forall>ty. counter_of ty c = of_nat (length (filter (\<lambda>e. same_slot ty (tx_type (snd e))) m)))"

text \<open>The bits that never change and the sub-pool that follows from the bits.\<close>

definition state_ok :: "internal_tx \<Rightarrow> bool" where
  "state_ok x \<longleftrightarrow>
     it_subpool x = sub_pool_of (it_state x) \<and>
     (bit (it_state x) 1 \<longleftrightarrow> is_eip4844 (it_transaction x)) \<and>
     (\<not> is_eip4844 (it_transaction x) \<longrightarrow> bit (it_state x) 2) \<and> bit (it_state x) 4"

definition all_wf :: "all_transactions \<Rightarrow> bool" where
  "all_wf a \<longleftrightarrow>
     entries_ok (at_entries a) \<and> hash_index (by_hash a) (at_entries a) \<and>
     counter_index (tx_counter a) (at_entries a) \<and> auth_index (auths a) (at_entries a) \<and>
     type_index (type_counts a) (at_entries a) \<and> bsorted (sender_info a) \<and>
     (\<forall>i x. map_of (txs a) i = Some x \<longrightarrow> state_ok x)"

lemma map_of_at_entries: "map_of (at_entries a) i = map_option it_transaction (map_of (txs a) i)"
  by (simp add: at_entries_def map_of_bvals_map)

lemma entries_okD:
  assumes "entries_ok m"
  shows "bsorted m" and "map_of m i = Some t \<Longrightarrow> transaction_id t = i"
    and "map_of m i = Some t \<Longrightarrow> nonce_matches t"
    and "map_of m i = Some t \<Longrightarrow> map_of m j = Some u \<Longrightarrow> sender i = sender j \<Longrightarrow> is_eip4844 t = is_eip4844 u"
  using assms unfolding entries_ok_def by blast+

lemma entries_okI:
  assumes "bsorted m" and "\<And>i t. map_of m i = Some t \<Longrightarrow> transaction_id t = i"
    and "\<And>i t. map_of m i = Some t \<Longrightarrow> nonce_matches t"
    and "\<And>i j t u. map_of m i = Some t \<Longrightarrow> map_of m j = Some u \<Longrightarrow> sender i = sender j \<Longrightarrow>
           is_eip4844 t = is_eip4844 u"
  shows "entries_ok m"
  using assms unfolding entries_ok_def by blast

lemma map_of_bdel_Some: "map_of (bdel k m) i = Some t \<longleftrightarrow> i \<noteq> k \<and> map_of m i = Some t"
  by (simp add: map_of_bdel)

lemma map_of_bins_Some:
  "map_of (bins k v m) i = Some t \<longleftrightarrow> i = k \<and> t = v \<or> i \<noteq> k \<and> map_of m i = Some t"
  by (auto simp: map_of_bins)

lemma entries_ok_del:
  assumes "entries_ok m"
  shows "entries_ok (bdel i m)"
proof (rule entries_okI)
  note D = entries_okD [OF assms]
  show "bsorted (bdel i m)" using D(1) by (rule bsorted_bdel)
  show "transaction_id t = j" "nonce_matches t" if "map_of (bdel i m) j = Some t" for j t
    using that D(2,3) [of j t] by (simp_all add: map_of_bdel_Some)
  show "is_eip4844 t = is_eip4844 u"
    if "map_of (bdel i m) j = Some t" "map_of (bdel i m) k = Some u" "sender j = sender k" for j k t u
    using that D(4) [of j t k u] by (simp add: map_of_bdel_Some)
qed

lemma entries_ok_add:
  assumes "entries_ok m" and nm: "nonce_matches t"
    and same: "\<And>j u. map_of m j = Some u \<Longrightarrow> sender j = tx_sender_id t \<Longrightarrow> is_eip4844 u = is_eip4844 t"
  shows "entries_ok (bins (transaction_id t) t m)"
proof (rule entries_okI)
  note D = entries_okD [OF assms(1)]
  show "bsorted (bins (transaction_id t) t m)" using D(1) by (rule bsorted_bins)
  show "transaction_id u = j" "nonce_matches u" if "map_of (bins (transaction_id t) t m) j = Some u" for j u
    using that D(2,3) [of j u] nm by (auto simp: map_of_bins_Some)
  show "is_eip4844 u = is_eip4844 v"
    if j: "map_of (bins (transaction_id t) t m) j = Some u"
      and k: "map_of (bins (transaction_id t) t m) k = Some v" and s: "sender j = sender k" for j k u v
    using j k s D(4) [of j u k v] same [of j u] same [of k v]
    unfolding map_of_bins_Some by (cases "j = transaction_id t"; cases "k = transaction_id t")
      (simp_all add: tx_sender_id_def)
qed

lemma bins_bdel: "bsorted m \<Longrightarrow> bins k v (bdel k m) = bins k v m"
  by (rule bsorted_map_of_eq) (auto simp: bsorted_bins bsorted_bdel map_of_bins map_of_bdel)

lemma hash_index_iff:
  "hash_index h m \<Longrightarrow> map_of h k = Some t \<longleftrightarrow> tx_hash t = k \<and> map_of m (transaction_id t) = Some t"
  unfolding hash_index_def by blast

lemma hash_index_sorted: "hash_index h m \<Longrightarrow> bsorted h"
  unfolding hash_index_def by blast

lemma hash_index_add:
  assumes "hash_index h m" and "map_of m (transaction_id t) = None" and "map_of h (tx_hash t) = None"
  shows "hash_index (bins (tx_hash t) t h) (bins (transaction_id t) t m)"
  unfolding hash_index_def map_of_bins_Some
proof (intro conjI allI)
  show "bsorted (bins (tx_hash t) t h)" by (rule bsorted_bins [OF hash_index_sorted [OF assms(1)]])
  fix k u
  have "tx_hash u \<noteq> tx_hash t" "transaction_id u \<noteq> transaction_id t"
    if "map_of m (transaction_id u) = Some u" using that hash_index_iff [OF assms(1), of "tx_hash u" u] assms(2,3) by auto
  then show "k = tx_hash t \<and> u = t \<or> k \<noteq> tx_hash t \<and> map_of h k = Some u \<longleftrightarrow>
      tx_hash u = k \<and> (transaction_id u = transaction_id t \<and> u = t \<or>
        transaction_id u \<noteq> transaction_id t \<and> map_of m (transaction_id u) = Some u)"
    using hash_index_iff [OF assms(1), of k u] by blast
qed

lemma hash_index_del:
  assumes "hash_index h m" and "map_of m i = Some t" and "transaction_id t = i"
  shows "hash_index (bdel (tx_hash t) h) (bdel i m)"
  unfolding hash_index_def map_of_bdel_Some
proof (intro conjI allI)
  show "bsorted (bdel (tx_hash t) h)" by (rule bsorted_bdel [OF hash_index_sorted [OF assms(1)]])
  fix k u
  have t: "map_of h (tx_hash t) = Some t" using hash_index_iff [OF assms(1)] assms(2,3) by simp
  have "tx_hash u \<noteq> tx_hash t \<longleftrightarrow> transaction_id u \<noteq> i" if u: "map_of m (transaction_id u) = Some u"
  proof
    have uh: "map_of h (tx_hash u) = Some u" using hash_index_iff [OF assms(1)] u by blast
    show "transaction_id u \<noteq> i" if "tx_hash u \<noteq> tx_hash t"
      using u assms(2) that by (metis option.inject)
    show "tx_hash u \<noteq> tx_hash t" if "transaction_id u \<noteq> i"
      using uh t assms(3) that by (metis option.inject)
  qed
  then show "k \<noteq> tx_hash t \<and> map_of h k = Some u \<longleftrightarrow>
      tx_hash u = k \<and> transaction_id u \<noteq> i \<and> map_of m (transaction_id u) = Some u"
    using hash_index_iff [OF assms(1), of k u] by blast
qed

lemma hash_index_inj:
  assumes "hash_index h m" and "entries_ok m" and "map_of m i = Some t" and "map_of m j = Some u"
    and "tx_hash t = tx_hash u"
  shows "t = u"
proof -
  have "map_of h (tx_hash t) = Some t" "map_of h (tx_hash u) = Some u"
    using assms entries_okD(2) [OF assms(2)] hash_index_iff [OF assms(1)] by simp_all
  then show ?thesis using assms(5) by (metis option.inject)
qed

lemma counter_index_add:
  assumes "counter_index c m" and "map_of m (transaction_id t) = None"
  shows "counter_index
    (bins (tx_sender_id t) (Suc (case map_of c (tx_sender_id t) of None \<Rightarrow> 0 | Some n \<Rightarrow> n)) c)
    (bins (transaction_id t) t m)"
  using assms unfolding counter_index_def map_of_bins
  by (auto simp: bsorted_bins sender_count_bins tx_sender_id_def)

lemma counter_index_del:
  assumes "counter_index c m" and "bsorted m" and "map_of m i = Some t"
  shows "\<exists>n. map_of c (sender i) = Some n \<and>
    counter_index (if n = 1 then bdel (sender i) c else bins (sender i) (n - 1) c) (bdel i m)"
proof -
  have "sender_count m (sender i) = Suc (sender_count (bdel i m) (sender i))"
    using assms(2,3) length_filter_bdel [of m i t "\<lambda>e. sender (fst e) = sender i"]
    by (simp add: sender_count_def)
  moreover have "sender_count m s = sender_count (bdel i m) s" if "s \<noteq> sender i" for s
    using assms(2,3) that length_filter_bdel [of m i t "\<lambda>e. sender (fst e) = s"]
    by (simp add: sender_count_def)
  ultimately show ?thesis
    using assms(1) unfolding counter_index_def
    by (auto simp: map_of_bins map_of_bdel bsorted_bins bsorted_bdel)
qed

lemma remove_hashes_law:
  "bsorted u \<Longrightarrow> (\<And>s. map_of u s \<noteq> Some []) \<Longrightarrow>
   bsorted (remove_hashes h ss u) \<and> (\<forall>s. map_of (remove_hashes h ss u) s \<noteq> Some []) \<and>
   (\<forall>s. hashes_of (remove_hashes h ss u) s = (if s \<in> set ss then hashes_of u s - {h} else hashes_of u s))"
proof (induction ss arbitrary: u)
  case (Cons r ss u)
  define v where "v = (case map_of u r of None \<Rightarrow> u
    | Some hs \<Rightarrow> let hs' = removeAll h hs in if hs' = [] then bdel r u else bins r hs' u)"
  have v: "bsorted v" "\<And>s. map_of v s \<noteq> Some []"
    using Cons.prems by (auto simp: v_def Let_def bmap_simps split: option.splits)
  have "hashes_of v s = (if s = r then hashes_of u s - {h} else hashes_of u s)" for s
  proof (cases "map_of u r")
    case (Some hs)
    have "set hs \<subseteq> {h}" if "removeAll h hs = []"
      using that by (induction hs) (auto split: if_splits)
    then show ?thesis
      using Some by (auto simp: v_def hashes_of_def Let_def map_of_bins map_of_bdel)
  qed (simp add: v_def hashes_of_def)
  then show ?case using Cons.IH [OF v] by (auto simp: v_def [symmetric])
qed simp

lemma insert_hashes_law:
  "bsorted u \<Longrightarrow> (\<And>s. map_of u s \<noteq> Some []) \<Longrightarrow>
   bsorted (insert_hashes h ss u) \<and> (\<forall>s. map_of (insert_hashes h ss u) s \<noteq> Some []) \<and>
   (\<forall>s. hashes_of (insert_hashes h ss u) s = (if s \<in> set ss then insert h (hashes_of u s) else hashes_of u s))"
proof (induction ss arbitrary: u)
  case (Cons r ss u)
  define v where "v = bins r (List.insert h (case map_of u r of None \<Rightarrow> [] | Some hs \<Rightarrow> hs)) u"
  have ne: "List.insert h hs \<noteq> []" for hs by (simp add: List.insert_def) auto
  have v: "bsorted v" "\<And>s. map_of v s \<noteq> Some []"
    using Cons.prems ne by (auto simp: v_def bmap_simps)
  have "hashes_of v s = (if s = r then insert h (hashes_of u s) else hashes_of u s)" for s
    by (auto simp: v_def hashes_of_def map_of_bins split: option.splits)
  then show ?case using Cons.IH [OF v] by (auto simp: v_def [symmetric])
qed simp

lemma authority_hashes_bins:
  "map_of m (transaction_id t) = None \<Longrightarrow>
   authority_hashes (bins (transaction_id t) t m) s =
     (if s \<in> set (authorities t) then insert (tx_hash t) (authority_hashes m s) else authority_hashes m s)"
  unfolding authority_hashes_def map_of_bins by (auto split: if_splits) (metis option.distinct(1))+

lemma authority_hashes_bdel:
  assumes "hash_index h m" and "entries_ok m" and "map_of m i = Some t"
  shows "authority_hashes (bdel i m) s =
     (if s \<in> set (authorities t) then authority_hashes m s - {tx_hash t} else authority_hashes m s)"
proof -
  have other: "tx_hash u \<noteq> tx_hash t" if "map_of m j = Some u" "j \<noteq> i" for j u
    using hash_index_inj [OF assms(1,2) that(1) assms(3)] entries_okD(2) [OF assms(2)] that assms(3) by blast
  show ?thesis
    unfolding authority_hashes_def map_of_bdel using assms(3) other
    by (auto split: if_splits) (metis option.inject)+
qed

lemma counter_of_counter_mut:
  "counter_of ty (counter_mut ty' f c) = (if same_slot ty ty' then f (counter_of ty c) else counter_of ty c)"
  by (auto simp: counter_of_def counter_mut_def same_slot_def EIP4844_TX_TYPE_ID_def)

lemma type_index_add:
  "type_index c m \<Longrightarrow> map_of m (transaction_id t) = None \<Longrightarrow>
   type_index (type_inc (tx_type t) c) (bins (transaction_id t) t m)"
  by (auto simp: type_index_def type_inc_def counter_of_counter_mut length_filter_bins)

lemma type_index_del:
  assumes "type_index c m" and "bsorted m" and "map_of m i = Some t"
  shows "type_index (type_dec (tx_type t) c) (bdel i m)"
  unfolding type_index_def
proof
  fix ty
  show "counter_of ty (type_dec (tx_type t) c) =
      of_nat (length (filter (\<lambda>e. same_slot ty (tx_type (snd e))) (bdel i m)))"
    using assms(1) length_filter_bdel [OF assms(2,3), of "\<lambda>e. same_slot ty (tx_type (snd e))"]
    by (simp add: type_index_def type_dec_def counter_of_counter_mut)
qed

section \<open>Removal keeps the container well formed\<close>

text \<open>What is left of a container when its transactions are forgotten: fees, limits and settings.\<close>

definition settings :: "all_transactions \<Rightarrow> all_transactions" where
  "settings a = a\<lparr>by_hash := [], txs := [], sender_info := [], tx_counter := [], auths := [],
     type_counts := type_counts default_all_transactions\<rparr>"

lemma settings_eqD:
  assumes "settings a = settings b"
  shows "tracked_fees a = tracked_fees b" and "minimal_protocol_basefee a = minimal_protocol_basefee b"
    and "block_gas_limit a = block_gas_limit b" and "max_account_slots a = max_account_slots b"
    and "price_bumps a = price_bumps b" and "local_transactions_config a = local_transactions_config b"
  using assms by (auto simp: settings_def dest: arg_cong [where f = tracked_fees]
      arg_cong [where f = minimal_protocol_basefee] arg_cong [where f = block_gas_limit]
      arg_cong [where f = max_account_slots] arg_cong [where f = price_bumps]
      arg_cong [where f = local_transactions_config])

definition without :: "TransactionId \<Rightarrow> internal_tx \<Rightarrow> all_transactions \<Rightarrow> all_transactions" where
  "without i x a = tx_decr (sender i) (dec_type x (remove_auths x
     (a\<lparr>txs := bdel i (txs a), by_hash := bdel (tx_hash (it_transaction x)) (by_hash a)\<rparr>)))"

lemma remove_auths_fields [simp]:
  "txs (remove_auths x a) = txs a" "by_hash (remove_auths x a) = by_hash a"
  "tx_counter (remove_auths x a) = tx_counter a" "sender_info (remove_auths x a) = sender_info a"
  "type_counts (remove_auths x a) = type_counts a" "settings (remove_auths x a) = settings a"
  by (auto simp: remove_auths_def settings_def split: option.splits)

lemma dec_type_fields [simp]:
  "txs (dec_type x a) = txs a" "by_hash (dec_type x a) = by_hash a" "tx_counter (dec_type x a) = tx_counter a"
  "sender_info (dec_type x a) = sender_info a" "auths (dec_type x a) = auths a"
  "settings (dec_type x a) = settings a"
  by (auto simp: dec_type_def settings_def)

lemma tx_decr_fields [simp]:
  "txs (tx_decr s a) = txs a" "by_hash (tx_decr s a) = by_hash a" "auths (tx_decr s a) = auths a"
  "type_counts (tx_decr s a) = type_counts a" "settings (tx_decr s a) = settings a"
  by (auto simp: tx_decr_def settings_def split: option.splits)

lemma settings_update [simp]:
  "settings (a\<lparr>txs := m\<rparr>) = settings a" "settings (a\<lparr>by_hash := h\<rparr>) = settings a"
  "settings (a\<lparr>auths := u\<rparr>) = settings a" "settings (a\<lparr>tx_counter := c\<rparr>) = settings a"
  "settings (a\<lparr>type_counts := ty\<rparr>) = settings a" "settings (a\<lparr>sender_info := si\<rparr>) = settings a"
  by (simp_all add: settings_def)

lemma auths_remove_auths:
  "auths (remove_auths x a) = remove_hashes (tx_hash (it_transaction x)) (authorities (it_transaction x)) (auths a)"
  by (simp add: remove_auths_def authorities_def split: option.splits)

lemma all_wfD:
  assumes "all_wf a"
  shows "entries_ok (at_entries a)" and "hash_index (by_hash a) (at_entries a)"
    and "counter_index (tx_counter a) (at_entries a)" and "auth_index (auths a) (at_entries a)"
    and "type_index (type_counts a) (at_entries a)" and "bsorted (sender_info a)"
    and "map_of (txs a) i = Some x \<Longrightarrow> state_ok x" and "bsorted (txs a)"
  using assms entries_okD(1) [of "at_entries a"] unfolding all_wf_def by (auto simp: at_entries_def)

lemma all_wf_tx:
  assumes "all_wf a" and "map_of (txs a) i = Some x"
  shows "transaction_id (it_transaction x) = i" and "nonce_matches (it_transaction x)"
    and "map_of (by_hash a) (tx_hash (it_transaction x)) = Some (it_transaction x)"
proof -
  have e: "map_of (at_entries a) i = Some (it_transaction x)" using assms(2) by (simp add: map_of_at_entries)
  show id: "transaction_id (it_transaction x) = i" and "nonce_matches (it_transaction x)"
    using entries_okD(2,3) [OF all_wfD(1) [OF assms(1)] e] by simp_all
  show "map_of (by_hash a) (tx_hash (it_transaction x)) = Some (it_transaction x)"
    using hash_index_iff [OF all_wfD(2) [OF assms(1)]] e id by simp
qed

lemma all_wf_hash:
  assumes "all_wf a" and "map_of (by_hash a) h = Some t"
  obtains x where "map_of (txs a) (transaction_id t) = Some x" and "it_transaction x = t" and "tx_hash t = h"
  using hash_index_iff [OF all_wfD(2) [OF assms(1)], of h t] assms(2)
  by (auto simp: map_of_at_entries)

lemma all_wfI:
  assumes "entries_ok (at_entries a)" and "hash_index (by_hash a) (at_entries a)"
    and "counter_index (tx_counter a) (at_entries a)" and "auth_index (auths a) (at_entries a)"
    and "type_index (type_counts a) (at_entries a)" and "bsorted (sender_info a)"
    and "\<And>i x. map_of (txs a) i = Some x \<Longrightarrow> state_ok x"
  shows "all_wf a"
  using assms unfolding all_wf_def by blast

lemma auth_index_del:
  assumes "auth_index u m" and "hash_index h m" and "entries_ok m" and "map_of m i = Some t"
  shows "auth_index (remove_hashes (tx_hash t) (authorities t) u) (bdel i m)"
proof -
  have u: "bsorted u" "\<And>s. map_of u s \<noteq> Some []" "\<And>s. hashes_of u s = authority_hashes m s"
    using assms(1) unfolding auth_index_def by blast+
  show ?thesis
    using remove_hashes_law [OF u(1,2), of "tx_hash t" "authorities t"]
    by (simp add: auth_index_def u(3) authority_hashes_bdel [OF assms(2-4)])
qed

lemma auth_index_add:
  assumes "auth_index u m" and "map_of m (transaction_id t) = None"
  shows "auth_index (insert_hashes (tx_hash t) (authorities t) u) (bins (transaction_id t) t m)"
proof -
  have u: "bsorted u" "\<And>s. map_of u s \<noteq> Some []" "\<And>s. hashes_of u s = authority_hashes m s"
    using assms(1) unfolding auth_index_def by blast+
  show ?thesis
    using insert_hashes_law [OF u(1,2), of "tx_hash t" "authorities t"]
    by (simp add: auth_index_def u(3) authority_hashes_bins [OF assms(2)])
qed

lemma without_law:
  assumes wf: "all_wf a" and x: "map_of (txs a) i = Some x"
  shows "all_wf (without i x a)" and "txs (without i x a) = bdel i (txs a)"
    and "by_hash (without i x a) = bdel (tx_hash (it_transaction x)) (by_hash a)"
    and "settings (without i x a) = settings a"
proof -
  note D = all_wfD [OF wf]
  let ?t = "it_transaction x"
  have e: "map_of (at_entries a) i = Some ?t" using x by (simp add: map_of_at_entries)
  have id: "transaction_id ?t = i" by (rule all_wf_tx [OF wf x])
  show txs': "txs (without i x a) = bdel i (txs a)" by (simp add: without_def)
  show bh: "by_hash (without i x a) = bdel (tx_hash ?t) (by_hash a)" by (simp add: without_def)
  show "settings (without i x a) = settings a" by (simp add: without_def)
  have ents: "at_entries (without i x a) = bdel i (at_entries a)"
    by (simp add: at_entries_def txs' bvals_map_bdel)
  obtain n where n: "map_of (tx_counter a) (sender i) = Some n"
      "counter_index (if n = 1 then bdel (sender i) (tx_counter a) else bins (sender i) (n - 1) (tx_counter a))
         (bdel i (at_entries a))"
    using counter_index_del [OF D(3) entries_okD(1) [OF D(1)] e] by blast
  have cnt: "counter_index (tx_counter (without i x a)) (bdel i (at_entries a))"
    and info: "bsorted (sender_info (without i x a))"
    using n D(6) by (auto simp: without_def tx_decr_def bsorted_bdel)
  show "all_wf (without i x a)"
  proof (rule all_wfI, unfold ents)
    show "entries_ok (bdel i (at_entries a))" by (rule entries_ok_del [OF D(1)])
    show "hash_index (by_hash (without i x a)) (bdel i (at_entries a))"
      unfolding bh by (rule hash_index_del [OF D(2) e id])
    show "auth_index (auths (without i x a)) (bdel i (at_entries a))"
      using auth_index_del [OF D(4) D(2) D(1) e] by (simp add: without_def auths_remove_auths)
    show "type_index (type_counts (without i x a)) (bdel i (at_entries a))"
      using type_index_del [OF D(5) entries_okD(1) [OF D(1)] e] by (simp add: without_def dec_type_def)
    show "state_ok y" if "map_of (txs (without i x a)) j = Some y" for j y
      using that D(7) [of j y] by (simp add: txs' map_of_bdel_Some)
  qed (rule cnt info)+
qed

lemma at_remove_by_id_eq:
  assumes "all_wf a" and "map_of (txs a) i = Some x"
  shows "at_remove_transaction_by_id i a = (without i x a, Some (it_transaction x, it_subpool x))"
  using assms all_wf_tx [OF assms]
  by (simp add: at_remove_transaction_by_id_def without_def tx_sender_id_def)

lemma at_remove_eq_by_id:
  assumes "all_wf a"
  shows "at_remove_transaction i a = at_remove_transaction_by_id i a"
proof (cases "map_of (txs a) i")
  case (Some x)
  note t = all_wf_tx [OF assms Some]
  have "remove_auths x ((dec_type x (tx_decr (sender i) (a\<lparr>txs := bdel i (txs a)\<rparr>)))
      \<lparr>by_hash := bdel (tx_hash (it_transaction x)) (by_hash a)\<rparr>) = without i x a"
    by (rule all_transactions.equality)
      (simp_all add: without_def tx_decr_def dec_type_def remove_auths_def split: option.split)
  then show ?thesis
    using Some t by (simp add: at_remove_by_id_eq [OF assms Some] at_remove_transaction_def tx_sender_id_def Let_def)
qed (simp add: at_remove_transaction_by_id_def at_remove_transaction_def)

lemma at_remove_by_hash_eq:
  assumes "all_wf a" and "map_of (by_hash a) h = Some t"
  shows "at_remove_transaction_by_hash h a = at_remove_transaction_by_id (transaction_id t) a"
proof -
  obtain x where x: "map_of (txs a) (transaction_id t) = Some x" "it_transaction x = t" "tx_hash t = h"
    by (rule all_wf_hash [OF assms])
  have eq: "a\<lparr>by_hash := bdel h (by_hash a), txs := bdel (transaction_id t) (txs a)\<rparr> =
      a\<lparr>txs := bdel (transaction_id t) (txs a), by_hash := bdel h (by_hash a)\<rparr>" by (cases a) simp
  show ?thesis
    unfolding at_remove_by_id_eq [OF assms(1) x(1)] using x assms(2)
    by (simp add: at_remove_transaction_by_hash_def without_def tx_sender_id_def) (simp only: eq)
qed

end
