(* ===== verification/Pool_Moves.thy ===== *)
theory Pool_Moves
  imports All_Transactions
begin

text \<open>
  What the operations of \<open>AllTransactions\<close> that recompute state bits do: \<open>update\<close>,
  \<open>park_descendant_transactions\<close> and \<open>insert_tx\<close>. Each keeps the container well formed and returns
  exactly the moves that bring the sub-pools in line with it (the relation \<open>moves\<close>); \<open>update\<close> discards
  exactly the transactions below the on-chain nonce of a changed sender.
\<close>

section \<open>Moves\<close>

text \<open>
  \<open>moves new m us m'\<close>: from \<open>m\<close> to \<open>m'\<close> only the bookkeeping of the transactions changes, and \<open>us\<close>
  lists, in the order of the identifiers, every transaction whose sub-pool changes, with the pool
  that holds it and the one that is to hold it, together with the transactions to discard. The
  transaction \<open>new\<close>, which no sub-pool holds yet, is left out.
\<close>

inductive moves ::
    "TransactionId option \<Rightarrow> (TransactionId, internal_tx) bmap \<Rightarrow> pool_update list \<Rightarrow>
     (TransactionId, internal_tx) bmap \<Rightarrow> bool" for new where
  moves_Nil: "moves new [] [] []"
| moves_stay: "moves new m us m' \<Longrightarrow> it_transaction x' = it_transaction x \<Longrightarrow>
     new = Some i \<or> it_subpool x' = it_subpool x \<Longrightarrow> moves new ((i, x) # m) us ((i, x') # m')"
| moves_move: "moves new m us m' \<Longrightarrow> it_transaction x' = it_transaction x \<Longrightarrow> new \<noteq> Some i \<Longrightarrow>
     it_subpool x \<noteq> it_subpool x' \<Longrightarrow>
     moves new ((i, x) # m)
       (\<lparr>up_id = i, up_current = it_subpool x, up_destination = Pool (it_subpool x')\<rparr> # us) ((i, x') # m')"
| moves_discard: "moves new m us m' \<Longrightarrow> new \<noteq> Some i \<Longrightarrow>
     moves new ((i, x) # m)
       (\<lparr>up_id = i, up_current = it_subpool x, up_destination = Discard\<rparr> # us) ((i, x) # m')"

lemma moves_refl: "moves new m [] m"
  by (induction m) (auto intro: moves.intros)

lemma moves_append:
  "moves new m us m' \<Longrightarrow> moves new n vs n' \<Longrightarrow> moves new (m @ n) (us @ vs) (m' @ n')"
  by (induction rule: moves.induct) (auto intro: moves.intros)

lemma moves_move_of:
  assumes "moves new m us m'" and "it_transaction x' = it_transaction x" and "new \<noteq> Some i"
  shows "moves new ((i, x) # m) (move_of i x x' @ us) ((i, x') # m')"
  using moves_stay [OF assms(1,2)] moves_move [OF assms] by (auto simp: move_of_def)

lemma moves_entries: "moves new m us m' \<Longrightarrow> bvals_map it_transaction m' = bvals_map it_transaction m"
  by (induction rule: moves.induct) (auto simp: bvals_map_def)

lemma moves_keys: "moves new m us m' \<Longrightarrow> map fst m' = map fst m"
  by (induction rule: moves.induct) auto

lemma moves_id_in: "moves new m us m' \<Longrightarrow> up_id ` set us \<subseteq> fst ` set m"
  by (induction rule: moves.induct) auto

lemma moves_above: "moves new m us m' \<Longrightarrow> \<forall>e \<in> set m. i < fst e \<Longrightarrow> u \<in> set us \<Longrightarrow> i < up_id u"
  by (induction rule: moves.induct) auto

lemma moves_ascending: "moves new m us m' \<Longrightarrow> bsorted m \<Longrightarrow> sorted_wrt (<) (map up_id us)"
  by (induction rule: moves.induct) (auto dest: moves_above)

definition update_ok :: "internal_tx \<Rightarrow> internal_tx \<Rightarrow> pool_update \<Rightarrow> bool" where
  "update_ok x x' u \<longleftrightarrow>
     it_transaction x' = it_transaction x \<and> up_current u = it_subpool x \<and>
     (up_destination u = Discard \<and> x' = x \<or>
      up_destination u = Pool (it_subpool x') \<and> it_subpool x' \<noteq> it_subpool x)"

lemma moves_at:
  "moves new m us m' \<Longrightarrow> bsorted m \<Longrightarrow> u \<in> set us \<Longrightarrow>
   new \<noteq> Some (up_id u) \<and>
   (\<exists>x x'. map_of m (up_id u) = Some x \<and> map_of m' (up_id u) = Some x' \<and> update_ok x x' u)"
proof (induction rule: moves.induct)
  case (moves_stay m us m' x' x i)
  then have "i \<noteq> up_id u" using moves_above [OF moves_stay.hyps(1), of i u] by auto
  then show ?case using moves_stay by auto
next
  case (moves_move m us m' x' x i)
  show ?case
  proof (cases "u \<in> set us")
    case True
    then have "i \<noteq> up_id u" using moves_move.prems moves_above [OF moves_move.hyps(1), of i u] by auto
    then show ?thesis using True moves_move by auto
  next
    case False
    then show ?thesis using moves_move.prems moves_move.hyps by (auto simp: update_ok_def)
  qed
next
  case (moves_discard m us m' i x)
  show ?case
  proof (cases "u \<in> set us")
    case True
    then have "i \<noteq> up_id u" using moves_discard.prems moves_above [OF moves_discard.hyps(1), of i u] by auto
    then show ?thesis using True moves_discard by auto
  next
    case False
    then show ?thesis using moves_discard.prems moves_discard.hyps by (auto simp: update_ok_def)
  qed
qed simp

lemma moves_other:
  "moves new m us m' \<Longrightarrow> bsorted m \<Longrightarrow> i \<notin> up_id ` set us \<Longrightarrow> new \<noteq> Some i \<Longrightarrow> map_of m i = Some x \<Longrightarrow>
   \<exists>x'. map_of m' i = Some x' \<and> it_transaction x' = it_transaction x \<and> it_subpool x' = it_subpool x"
  by (induction rule: moves.induct) (auto split: if_splits)

lemma all_wf_restate:
  assumes "all_wf a" and "bvals_map it_transaction m = at_entries a"
    and "\<And>i x. map_of m i = Some x \<Longrightarrow> state_ok x"
  shows "all_wf (a\<lparr>txs := m\<rparr>)"
  using all_wfD [OF assms(1)] assms(2,3)
  by (intro all_wfI) (simp_all add: at_entries_def)

section \<open>update and park_descendant_transactions\<close>

lemma set_flag_fields [simp]:
  "it_transaction (set_flag on f x) = it_transaction x" "it_subpool (set_flag on f x) = it_subpool x"
  "it_cumulative_cost (set_flag on f x) = it_cumulative_cost x"
  "it_state (set_flag on f x) = (if on then st_insert (it_state x) f else st_remove (it_state x) f)"
  by (simp_all add: set_flag_def)

definition fixed_bits :: "internal_tx \<Rightarrow> bool" where
  "fixed_bits x \<longleftrightarrow>
     (bit (it_state x) 1 \<longleftrightarrow> is_eip4844 (it_transaction x)) \<and>
     (\<not> is_eip4844 (it_transaction x) \<longrightarrow> bit (it_state x) 2) \<and> bit (it_state x) 4"

lemma state_ok_iff: "state_ok x \<longleftrightarrow> it_subpool x = sub_pool_of (it_state x) \<and> fixed_bits x"
  by (simp add: state_ok_def fixed_bits_def)

lemma fixed_bits_set_flag:
  "f \<in> {NO_PARKED_ANCESTORS, NO_NONCE_GAPS, ENOUGH_BALANCE, ENOUGH_FEE_CAP_BLOCK} \<Longrightarrow>
   fixed_bits (set_flag on f x) \<longleftrightarrow> fixed_bits x"
  by (auto simp: fixed_bits_def tx_flags)

lemma fixed_bits_set [simp]:
  "fixed_bits (set_flag on NO_PARKED_ANCESTORS x) \<longleftrightarrow> fixed_bits x"
  "fixed_bits (set_flag on NO_NONCE_GAPS x) \<longleftrightarrow> fixed_bits x"
  "fixed_bits (set_flag on ENOUGH_BALANCE x) \<longleftrightarrow> fixed_bits x"
  "fixed_bits (set_flag on ENOUGH_FEE_CAP_BLOCK x) \<longleftrightarrow> fixed_bits x"
  "fixed_bits (x\<lparr>it_cumulative_cost := c\<rparr>) \<longleftrightarrow> fixed_bits x"
  "fixed_bits (x\<lparr>it_subpool := sp\<rparr>) \<longleftrightarrow> fixed_bits x"
  by (simp_all add: fixed_bits_set_flag) (simp_all add: fixed_bits_def)

lemma update_tx_base_fee_fields [simp]:
  "it_transaction (update_tx_base_fee fee x) = it_transaction x" "it_subpool (update_tx_base_fee fee x) = it_subpool x"
  "fixed_bits (update_tx_base_fee fee x) \<longleftrightarrow> fixed_bits x"
  by (simp_all add: update_tx_base_fee_def)

lemma record_subpool_update_law:
  "record_subpool_update x = (x', us) \<Longrightarrow>
   it_transaction x' = it_transaction x \<and> it_state x' = it_state x \<and>
   it_cumulative_cost x' = it_cumulative_cost x \<and> it_subpool x' = sub_pool_of (it_state x) \<and>
   us = move_of (transaction_id (it_transaction x)) x x'"
  by (auto simp: record_subpool_update_def move_of_def Let_def)

text \<open>What one transaction contributes.\<close>

definition visited :: "TransactionId \<Rightarrow> internal_tx \<Rightarrow> internal_tx \<Rightarrow> pool_update list \<Rightarrow> bool" where
  "visited i x x' us \<longleftrightarrow>
     it_transaction x' = it_transaction x \<and> state_ok x' \<and>
     (us = move_of i x x' \<or>
      x' = x \<and> us = [\<lparr>up_id = i, up_current = it_subpool x, up_destination = Discard\<rparr>])"

lemma moves_visited:
  assumes "moves new m vs m'" and "visited i x x' us" and "new \<noteq> Some i"
  shows "moves new ((i, x) # m) (us @ vs) ((i, x') # m')"
proof -
  have tx: "it_transaction x' = it_transaction x" using assms(2) by (simp add: visited_def)
  have "us = move_of i x x' \<or> x' = x \<and> us = [\<lparr>up_id = i, up_current = it_subpool x, up_destination = Discard\<rparr>]"
    using assms(2) by (simp add: visited_def)
  then show ?thesis
    using moves_move_of [OF assms(1) tx assms(3)] moves_discard [OF assms(1,3)] by auto
qed

lemma visited_same: "state_ok x \<Longrightarrow> visited i x x []"
  by (simp add: visited_def move_of_def)

lemma visited_record:
  assumes "record_subpool_update y = (x', us)" and "it_transaction y = it_transaction x"
    and "it_subpool y = it_subpool x" and "fixed_bits y" and "transaction_id (it_transaction x) = i"
  shows "visited i x x' us"
  using record_subpool_update_law [OF assms(1)] assms(2-5)
  by (auto simp: visited_def state_ok_iff move_of_def fixed_bits_def)

lemma update_first_law:
  assumes "update_first changed fee i x = (x', us, mode')" and "state_ok x"
    and "transaction_id (it_transaction x) = i"
  shows "visited i x x' us"
proof (cases "stale changed i")
  case True
  then show ?thesis using assms by (auto simp: update_first_def visited_def Let_def split: option.splits)
next
  case False
  define x1 where "x1 = (case map_of changed (sender i) of
      None \<Rightarrow> x
    | Some c \<Rightarrow>
        if ancestor (nonce i) (si_state_nonce c) (sender i) = None
        then set_flag (tx_cost (it_transaction x) \<le> si_balance c) ENOUGH_BALANCE
          ((set_flag True NO_PARKED_ANCESTORS (set_flag True NO_NONCE_GAPS x))\<lparr>it_cumulative_cost := 0\<rparr>)
        else x)"
  have x1: "it_transaction x1 = it_transaction x" "it_subpool x1 = it_subpool x" "fixed_bits x1"
    using assms(2) by (auto simp: x1_def state_ok_iff split: option.splits)
  have gap: "x1 = x" if "has_nonce_gap (it_state x1)"
    using that by (auto simp: x1_def tx_flags split: option.splits if_splits)
  have run: "(x', us, mode') = (if has_nonce_gap (it_state x1) then (x1, [], Skip (sender i))
      else let (x2, us) = record_subpool_update (update_tx_base_fee fee (set_flag True NO_PARKED_ANCESTORS x1))
           in (x2, us, Consecutive (sender i) (map_option si_balance (map_of changed (sender i)))
                 (next_cumulative_cost x2) (saturating_add (tx_nonce (it_transaction x)) 1) (\<not> st_is_pending (it_state x2))))"
    using assms(1) False unfolding update_first_def Let_def x1_def [symmetric] by simp
  show ?thesis
  proof (cases "has_nonce_gap (it_state x1)")
    case True
    then show ?thesis using run gap visited_same [OF assms(2)] by simp
  next
    case False
    then have "record_subpool_update (update_tx_base_fee fee (set_flag True NO_PARKED_ANCESTORS x1)) = (x', us)"
      using run by (auto split: prod.splits)
    then show ?thesis by (rule visited_record) (use x1 assms(3) in simp_all)
  qed
qed

lemma update_consecutive_law:
  assumes "update_consecutive fee balance cost parked x = (x', us, cost', parked')" and "state_ok x"
    and "transaction_id (it_transaction x) = i"
  shows "visited i x x' us"
proof -
  define x1 where "x1 = (set_flag True NO_NONCE_GAPS x)\<lparr>it_cumulative_cost := cost\<rparr>"
  define x2 where "x2 = (case balance of None \<Rightarrow> x1
    | Some b \<Rightarrow> set_flag (next_cumulative_cost x1 \<le> b) ENOUGH_BALANCE x1)"
  define y where "y = update_tx_base_fee fee (set_flag (\<not> parked) NO_PARKED_ANCESTORS x2)"
  have y: "it_transaction y = it_transaction x" "it_subpool y = it_subpool x" "fixed_bits y"
    using assms(2) by (auto simp: y_def x2_def x1_def state_ok_iff split: option.splits)
  have "record_subpool_update y = (x', us)"
    using assms(1) unfolding update_consecutive_def Let_def x1_def [symmetric] x2_def [symmetric] y_def [symmetric]
    by (auto split: prod.splits)
  then show ?thesis by (rule visited_record) (use y assms(3) in simp_all)
qed

lemma update_tx_law:
  assumes "update_tx changed fee mode i x = (x', us, mode')" and "state_ok x"
    and "transaction_id (it_transaction x) = i"
  shows "visited i x x' us"
proof (cases mode)
  case (Consecutive s balance cost nxt parked)
  then show ?thesis
    using assms update_first_law [of changed fee i x x' us mode'] visited_same [OF assms(2)]
      update_consecutive_law [of fee balance cost parked x x' us _ _ i]
    by (auto split: if_splits prod.splits)
qed (use assms update_first_law [of changed fee i x x' us mode'] visited_same [OF assms(2)]
  in \<open>auto split: if_splits\<close>)

lemma update_loop_law:
  "update_loop changed fee mode m = (m', us) \<Longrightarrow>
   (\<And>i x. (i, x) \<in> set m \<Longrightarrow> state_ok x \<and> transaction_id (it_transaction x) = i) \<Longrightarrow>
   moves None m us m' \<and> (\<forall>(i, x) \<in> set m'. state_ok x)"
proof (induction m arbitrary: mode m' us)
  case (Cons e m)
  obtain i x where e: "e = (i, x)" by fastforce
  obtain x1 us1 mode1 where one: "update_tx changed fee mode i x = (x1, us1, mode1)" by (metis prod_cases3)
  obtain m2 us2 where rest: "update_loop changed fee mode1 m = (m2, us2)" by fastforce
  have v: "visited i x x1 us1"
    by (rule update_tx_law [OF one]) (use Cons.prems(2) [of i x] e in simp_all)
  have "moves None m us2 m2 \<and> (\<forall>(i, x) \<in> set m2. state_ok x)"
  proof (rule Cons.IH [OF rest])
    show "state_ok y \<and> transaction_id (it_transaction y) = j" if "(j, y) \<in> set m" for j y
      using Cons.prems(2) [of j y] that by simp
  qed
  then show ?case
    using Cons.prems(1) moves_visited [of None m us2 m2, OF _ v] v one rest e by (auto simp: visited_def)
qed (auto intro: moves.intros)

lemma all_wf_entry:
  assumes "all_wf a" and "(i, x) \<in> set (txs a)"
  shows "state_ok x" and "transaction_id (it_transaction x) = i"
  using assms all_wfD(7) [OF assms(1)] all_wf_tx(1) [OF assms(1)] in_set_map_of [OF all_wfD(8) [OF assms(1)]]
  by blast+

lemma at_update_law:
  assumes wf: "all_wf a" and upd: "at_update changed a = (a', us)"
  shows "all_wf a'" and "moves None (txs a) us (txs a')" and "settings a' = settings a"
    and "sender_info a' = sender_info a" and "at_entries a' = at_entries a"
proof -
  obtain m where m: "update_loop changed (base_fee (tracked_fees a)) First (txs a) = (m, us)" "a' = a\<lparr>txs := m\<rparr>"
    using upd by (auto simp: at_update_def split: prod.splits)
  have mv: "moves None (txs a) us m" and ok: "\<forall>(i, x) \<in> set m. state_ok x"
    using update_loop_law [OF m(1)] all_wf_entry [OF wf] by blast+
  show "moves None (txs a) us (txs a')" using mv m(2) by simp
  show "all_wf a'" unfolding m(2)
    by (rule all_wf_restate [OF wf]) (use moves_entries [OF mv] ok map_of_SomeD in \<open>fastforce simp: at_entries_def\<close>)+
  show "settings a' = settings a" "sender_info a' = sender_info a" by (simp_all add: m(2))
  show "at_entries a' = at_entries a" using moves_entries [OF mv] by (simp add: at_entries_def m(2))
qed

text \<open>Which transactions \<open>update\<close> discards.\<close>

definition discarded_ids :: "pool_update list \<Rightarrow> TransactionId list" where
  "discarded_ids us = map up_id (filter (\<lambda>u. up_destination u = Discard) us)"

fun mode_sender :: "update_mode \<Rightarrow> SenderId option" where
  "mode_sender First = None"
| "mode_sender (Skip s) = Some s"
| "mode_sender (Consecutive s balance cost nxt parked) = Some s"

lemma discarded_ids_append [simp]: "discarded_ids (us @ vs) = discarded_ids us @ discarded_ids vs"
  by (simp add: discarded_ids_def)

lemma discarded_ids_Nil [simp]: "discarded_ids [] = []"
  by (simp add: discarded_ids_def)

lemma discarded_ids_record: "record_subpool_update x = (x', us) \<Longrightarrow> discarded_ids us = []"
  by (auto simp: record_subpool_update_def discarded_ids_def Let_def)

lemma update_first_discards:
  assumes "update_first changed fee i x = (x', us, mode')" and "transaction_id (it_transaction x) = i"
  shows "if stale changed i then discarded_ids us = [i] \<and> mode' = First
    else discarded_ids us = [] \<and> mode_sender mode' = Some (sender i)"
  using assms by (auto simp: update_first_def Let_def discarded_ids_record split: if_splits prod.splits)
    (simp_all add: discarded_ids_def)

lemma update_tx_discards:
  assumes "update_tx changed fee mode i x = (x', us, mode')" and "transaction_id (it_transaction x) = i"
  shows "if stale changed i \<and> mode_sender mode \<noteq> Some (sender i) then discarded_ids us = [i] \<and> mode' = First
    else discarded_ids us = [] \<and> mode_sender mode' = Some (sender i)"
proof (cases "mode_sender mode = Some (sender i)")
  case True
  then show ?thesis
    using assms
    by (cases mode) (auto simp: update_consecutive_def Let_def discarded_ids_record split: if_splits prod.splits)
next
  case False
  then have "update_first changed fee i x = (x', us, mode')"
    using assms(1) by (cases mode) (auto split: if_splits)
  then show ?thesis using False update_first_discards [OF _ assms(2)] by simp
qed

lemma update_loop_discards:
  "update_loop changed fee mode m = (m', us) \<Longrightarrow> bsorted m \<Longrightarrow>
   (\<And>i x. (i, x) \<in> set m \<Longrightarrow> transaction_id (it_transaction x) = i) \<Longrightarrow>
   (\<And>e. e \<in> set m \<Longrightarrow> mode_sender mode = Some (sender (fst e)) \<Longrightarrow> \<not> stale changed (fst e)) \<Longrightarrow>
   discarded_ids us = map fst (filter (\<lambda>e. stale changed (fst e)) m)"
proof (induction m arbitrary: mode m' us)
  case (Cons e m)
  obtain i x where e: "e = (i, x)" by fastforce
  obtain x1 us1 mode1 where one: "update_tx changed fee mode i x = (x1, us1, mode1)" by (metis prod_cases3)
  obtain m2 us2 where rest: "update_loop changed fee mode1 m = (m2, us2)" by fastforce
  have us: "us = us1 @ us2" using Cons.prems(1) one rest e by simp
  have id: "transaction_id (it_transaction x) = i" using Cons.prems(3) [of i x] e by simp
  have first: "mode_sender mode \<noteq> Some (sender i)" if "stale changed i"
    using Cons.prems(4) [of e] that e by auto
  note d = update_tx_discards [OF one id]
  have IH: "discarded_ids us2 = map fst (filter (\<lambda>e. stale changed (fst e)) m)"
  proof (rule Cons.IH [OF rest])
    show "bsorted m" using Cons.prems(2) by simp
    show "transaction_id (it_transaction y) = j" if "(j, y) \<in> set m" for j y
      using Cons.prems(3) [of j y] that by simp
    fix f assume f: "f \<in> set m" "mode_sender mode1 = Some (sender (fst f))"
    then have m1: "sender (fst f) = sender i \<and> \<not> stale changed i"
      using d first by (auto split: if_splits)
    then have "nonce i < nonce (fst f)" using Cons.prems(2) f(1) e by (auto simp: tid_order)
    then show "\<not> stale changed (fst f)" using m1 by (auto simp: stale_def split: option.splits)
  qed
  show ?case using d first IH us e by (auto split: if_splits)
qed simp

lemma at_update_discards:
  assumes wf: "all_wf a" and upd: "at_update changed a = (a', us)"
  shows "discarded_ids us = filter (stale changed) (map fst (txs a))"
proof -
  obtain m where m: "update_loop changed (base_fee (tracked_fees a)) First (txs a) = (m, us)"
    using upd by (auto simp: at_update_def split: prod.splits)
  show ?thesis
    using update_loop_discards [OF m all_wfD(8) [OF wf]] all_wf_entry(2) [OF wf]
    by (simp add: filter_map comp_def)
qed

section \<open>Parking descendants\<close>

lemma descendant_txs_mut_moves:
  assumes "bsorted m"
    and "moves new (takeWhile (\<lambda>e. sender (fst e) = sender i) (bfrom i m)) us
           (f (takeWhile (\<lambda>e. sender (fst e) = sender i) (bfrom i m)))"
  shows "moves new m us (descendant_txs_mut i f m)"
proof -
  let ?P = "\<lambda>e. sender (fst e) = sender i"
  have "moves new (bbefore i m @ takeWhile ?P (bfrom i m) @ dropWhile ?P (bfrom i m)) ([] @ us @ [])
      (bbefore i m @ f (takeWhile ?P (bfrom i m)) @ dropWhile ?P (bfrom i m))"
    by (intro moves_append moves_refl assms(2))
  then show ?thesis
    using bbefore_bfrom [OF assms(1)] by (simp add: descendant_txs_mut_def)
qed

lemma set_descendant_txs_mut:
  assumes "bsorted m" and "e \<in> set (descendant_txs_mut i f m)"
  shows "e \<in> set m \<or> e \<in> set (f (takeWhile (\<lambda>e. sender (fst e) = sender i) (bfrom i m)))"
  using assms(2) set_dropWhileD [of e "\<lambda>e. sender (fst e) = sender i" "bfrom i m"]
  by (auto simp: descendant_txs_mut_def bbefore_def bfrom_def)

lemma park_tx_fields:
  "it_transaction (park_tx x) = it_transaction x" "fixed_bits (park_tx x) \<longleftrightarrow> fixed_bits x"
  "it_subpool (park_tx x) = sub_pool_of (it_state (park_tx x))" "has_nonce_gap (it_state (park_tx x))"
  by (simp_all add: park_tx_def Let_def) (simp add: tx_flags)

lemma park_moves:
  "moves None m (concat (map (\<lambda>(j, x). move_of j x (park_tx x)) m)) (bvals_map park_tx m)"
proof (induction m)
  case (Cons e m)
  show ?case
    using moves_move_of [OF Cons.IH park_tx_fields(1), where x = "snd e" and i = "fst e"]
    by (cases e) (simp add: bvals_map_def)
qed (simp add: bvals_map_def moves_Nil)

lemma park_law:
  assumes wf: "all_wf a" and park: "park_descendant_transactions i a = (a', us)"
  shows "all_wf a'" and "moves None (txs a) us (txs a')" and "settings a' = settings a"
    and "sender_info a' = sender_info a" and "at_entries a' = at_entries a"
proof -
  let ?m = "descendant_txs_mut i (bvals_map park_tx) (txs a)"
  have a': "a' = a\<lparr>txs := ?m\<rparr>"
    and us: "us = concat (map (\<lambda>(j, x). move_of j x (park_tx x)) (descendant_txs_inclusive i a))"
    using park by (auto simp: park_descendant_transactions_def)
  have mv: "moves None (txs a) us ?m"
    unfolding us descendant_txs_inclusive_def
    by (rule descendant_txs_mut_moves [OF all_wfD(8) [OF wf]]) (rule park_moves)
  have ok: "state_ok x" if "map_of ?m j = Some x" for j x
  proof -
    have "(j, x) \<in> set ?m" using that by (rule map_of_SomeD)
    then consider "(j, x) \<in> set (txs a)" | y where "(j, y) \<in> set (txs a)" "x = park_tx y"
      using set_descendant_txs_mut [OF all_wfD(8) [OF wf], of "(j, x)" i "bvals_map park_tx"]
      by (auto simp: bvals_map_def bfrom_def dest!: set_takeWhileD)
    then show ?thesis
      using all_wf_entry(1) [OF wf] by cases (auto simp: state_ok_iff park_tx_fields)
  qed
  show "moves None (txs a) us (txs a')" using mv a' by simp
  show "all_wf a'" unfolding a'
    by (rule all_wf_restate [OF wf]) (use moves_entries [OF mv] ok in \<open>auto simp: at_entries_def\<close>)
  show "settings a' = settings a" "sender_info a' = sender_info a" by (simp_all add: a')
  show "at_entries a' = at_entries a" using moves_entries [OF mv] by (simp add: at_entries_def a')
qed

section \<open>Insertion\<close>

lemma insert_visit_fields:
  "it_transaction (insert_visit balance cost parked x) = it_transaction x"
  "fixed_bits x \<Longrightarrow> state_ok (insert_visit balance cost parked x)"
  by (simp_all add: insert_visit_def Let_def state_ok_iff)

lemma insert_scan_visit:
  assumes "insert_scan balance new nxt cost parked st ((i, x) # m) = (m', us, st')" and "nxt = nonce i"
    and "x1 = insert_visit balance cost parked x"
  obtains m2 us2 where "insert_scan balance new (next_nonce i) (next_cumulative_cost x1)
      (\<not> st_is_pending (it_state x1)) (if new = i then it_state x1 else st) m = (m2, us2, st')"
    and "m' = (i, x1) # m2" and "us = (if new = i then [] else move_of i x x1) @ us2"
proof (cases "insert_scan balance new (next_nonce i) (next_cumulative_cost x1)
    (\<not> st_is_pending (it_state x1)) (if new = i then it_state x1 else st) m")
  case (fields m2 us2 st2)
  then show thesis using assms(1,2) that unfolding insert_scan.simps Let_def assms(3) [symmetric] by simp
qed

lemma insert_scan_law:
  "insert_scan balance new nxt cost parked st m = (m', us, st') \<Longrightarrow> (\<And>i x. (i, x) \<in> set m \<Longrightarrow> state_ok x) \<Longrightarrow>
   moves (Some new) m us m' \<and> (\<forall>(i, x) \<in> set m'. state_ok x)"
proof (induction m arbitrary: nxt cost parked st m' us)
  case (Cons e m)
  obtain i x where e: "e = (i, x)" by fastforce
  show ?case
  proof (cases "nxt = nonce i")
    case False
    then show ?thesis using Cons.prems e by (auto intro: moves_refl)
  next
    case True
    define x1 where "x1 = insert_visit balance cost parked x"
    obtain m2 us2 where rest: "insert_scan balance new (next_nonce i) (next_cumulative_cost x1)
        (\<not> st_is_pending (it_state x1)) (if new = i then it_state x1 else st) m = (m2, us2, st')"
      and m': "m' = (i, x1) # m2" and us: "us = (if new = i then [] else move_of i x x1) @ us2"
      by (rule insert_scan_visit [OF Cons.prems(1) [unfolded e] True x1_def])
    have x1: "it_transaction x1 = it_transaction x" "state_ok x1"
      using insert_visit_fields Cons.prems(2) [of i x] e by (simp_all add: x1_def state_ok_iff)
    have "moves (Some new) m us2 m2 \<and> (\<forall>(i, x) \<in> set m2. state_ok x)"
      by (rule Cons.IH [OF rest]) (use Cons.prems(2) in auto)
    then show ?thesis
      using moves_stay [of "Some new" m us2 m2 x1 x i] moves_move_of [of "Some new" m us2 m2 x1 x i] x1 m' us e
      by auto
  qed
qed (auto intro: moves.intros)

lemma insert_scan_state:
  "insert_scan balance new nxt cost parked st m = (m', us, st') \<Longrightarrow> distinct (map fst m) \<Longrightarrow>
   (map_of m new = None \<longrightarrow> st' = st) \<and>
   (\<forall>x. map_of m new = Some x \<longrightarrow> it_state x = st \<longrightarrow> (\<exists>x'. map_of m' new = Some x' \<and> it_state x' = st'))"
proof (induction m arbitrary: nxt cost parked st m' us)
  case (Cons e m)
  obtain i x where e: "e = (i, x)" by fastforce
  show ?case
  proof (cases "nxt = nonce i")
    case False
    then show ?thesis using Cons.prems e by auto
  next
    case True
    define x1 where "x1 = insert_visit balance cost parked x"
    obtain m2 us2 where rest: "insert_scan balance new (next_nonce i) (next_cumulative_cost x1)
        (\<not> st_is_pending (it_state x1)) (if new = i then it_state x1 else st) m = (m2, us2, st')"
      and m': "m' = (i, x1) # m2"
      by (rule insert_scan_visit [OF Cons.prems(1) [unfolded e] True x1_def])
    have "map_of m i = None" using Cons.prems(2) e by (simp add: map_of_eq_None_iff)
    then show ?thesis using Cons.IH [OF rest] Cons.prems(2) m' e by (cases "new = i") auto
  qed
qed simp

lemma contains_conflicting_iff:
  assumes "all_wf a"
  shows "contains_conflicting_transaction t a \<longleftrightarrow>
    (\<exists>i x. map_of (txs a) i = Some x \<and> sender i = tx_sender_id t \<and> is_eip4844 (it_transaction x) \<noteq> is_eip4844 t)"
proof -
  let ?r = "filter (\<lambda>e. sender (fst e) = tx_sender_id t) (txs a)"
  have r: "txs_iter (tx_sender_id t) a = ?r"
    using by_sender_filter [OF all_wfD(8) [OF assms]] by (simp add: txs_iter_def)
  have mem: "(i, x) \<in> set ?r \<longleftrightarrow> map_of (txs a) i = Some x \<and> sender i = tx_sender_id t" for i x
    using in_set_map_of [OF all_wfD(8) [OF assms]] by auto
  have same: "is_eip4844 (it_transaction x) = is_eip4844 (it_transaction y)"
    if "(i, x) \<in> set ?r" "(j, y) \<in> set ?r" for i j x y
    using that entries_okD(4) [OF all_wfD(1) [OF assms], of i "it_transaction x" j "it_transaction y"]
    unfolding mem by (simp add: map_of_at_entries)
  show ?thesis
  proof (cases ?r)
    case Nil
    then have "\<not> (map_of (txs a) i = Some x \<and> sender i = tx_sender_id t)" for i x
      using mem [of i x] by simp
    then show ?thesis unfolding contains_conflicting_transaction_def r Nil by auto
  next
    case (Cons e es)
    obtain k y where e: "e = (k, y)" by fastforce
    have k: "(k, y) \<in> set ?r" using Cons e by simp
    have "contains_conflicting_transaction t a \<longleftrightarrow> is_eip4844 t \<noteq> is_eip4844 (it_transaction y)"
      unfolding contains_conflicting_transaction_def r Cons e by (simp add: tx_type_conflicts_with_def)
    moreover have "is_eip4844 (it_transaction x) = is_eip4844 (it_transaction y)"
      if "map_of (txs a) i = Some x" "sender i = tx_sender_id t" for i x
      using same [OF k, of i x] that mem [of i x] by simp
    moreover have "map_of (txs a) k = Some y" "sender k = tx_sender_id t" using k mem by simp_all
    ultimately show ?thesis by blast
  qed
qed

lemma initial_state_bits:
  "bit (initial_state t anc fees) 7 \<longleftrightarrow> anc = None" "bit (initial_state t anc fees) 6 \<longleftrightarrow> anc = None"
  "\<not> bit (initial_state t anc fees) 5" "bit (initial_state t anc fees) 4"
  "bit (initial_state t anc fees) 3 \<longleftrightarrow> ucast (base_fee fees) \<le> max_fee_per_gas t"
  "bit (initial_state t anc fees) 2 \<longleftrightarrow>
     (is_eip4844 t \<longrightarrow> blob_fee fees \<le> (case max_fee_per_blob_gas t of None \<Rightarrow> 0 | Some f \<Rightarrow> f))"
  "bit (initial_state t anc fees) 1 \<longleftrightarrow> is_eip4844 t"
  unfolding initial_state_def Let_def
  by (cases anc; cases "is_eip4844 t"; simp add: flag_bit bit_if_word)+

lemma initial_state_fixed:
  "fixed_bits \<lparr>it_transaction = t, it_subpool = sp, it_state = initial_state t anc fees, it_cumulative_cost = c\<rparr>"
  by (simp add: fixed_bits_def initial_state_bits [simplified])

lemma insert_auths:
  defines "with_auths \<equiv> \<lambda>t a. (case authority_ids t of None \<Rightarrow> a
    | Some ids \<Rightarrow> a\<lparr>auths := insert_hashes (tx_hash t) ids (auths a)\<rparr>)"
  shows "auths (with_auths t a) = insert_hashes (tx_hash t) (authorities t) (auths a)"
    and "txs (with_auths t a) = txs a" and "by_hash (with_auths t a) = by_hash a"
    and "tx_counter (with_auths t a) = tx_counter a" and "type_counts (with_auths t a) = type_counts a"
    and "sender_info (with_auths t a) = sender_info a" and "settings (with_auths t a) = settings a"
  by (auto simp: with_auths_def authorities_def split: option.splits)

lemma tx_inc_fields [simp]:
  "txs (tx_inc s a) = txs a" "by_hash (tx_inc s a) = by_hash a" "auths (tx_inc s a) = auths a"
  "type_counts (tx_inc s a) = type_counts a" "sender_info (tx_inc s a) = sender_info a"
  "settings (tx_inc s a) = settings a"
  by (simp_all add: tx_inc_def)

lemma type_index_swap:
  "type_index (type_dec ty (type_inc ty' c)) m \<longleftrightarrow> type_index (type_inc ty' (type_dec ty c)) m"
proof -
  have "counter_of k (type_dec ty (type_inc ty' c)) = counter_of k (type_inc ty' (type_dec ty c))" for k
    by (simp add: type_inc_def type_dec_def counter_of_counter_mut)
  then show ?thesis by (simp only: type_index_def)
qed

lemma map_fst_bins_present: "bsorted m \<Longrightarrow> map_of m k \<noteq> None \<Longrightarrow> map fst (bins k v m) = map fst m"
proof (induction k v m rule: bins.induct)
  case (2 k v k' v' m)
  have "map_of m k = None" if "k < k'"
    using "2.prems"(1) that by (force simp: map_of_eq_None_iff)
  with 2 show ?case by auto
qed simp

lemma counter_index_replace:
  assumes "counter_index c m" and "bsorted m" and "map_of m i \<noteq> None"
  shows "counter_index c (bins i t m)"
proof -
  have "sender_count n s = length (filter (\<lambda>i. sender i = s) (map fst n))" for s and n :: entries
    by (simp add: sender_count_def filter_map comp_def)
  then have "sender_count (bins i t m) = sender_count m"
    using map_fst_bins_present [OF assms(2,3)] by (simp only: fun_eq_iff) simp
  then show ?thesis using assms(1) by (simp add: counter_index_def)
qed

text \<open>The container after \<open>place_tx\<close>, the authorities and the counter, in both cases.\<close>

lemma place_vacant:
  assumes wf: "all_wf a" and new: "map_of (txs a) (transaction_id t) = None"
    and fresh: "\<not> at_contains a (tx_hash t)" and nm: "nonce_matches t"
    and con: "\<not> contains_conflicting_transaction t a"
    and fields: "txs b = bins (transaction_id t) x (txs a)" "it_transaction x = t" "state_ok x"
      "by_hash b = bins (tx_hash t) t (by_hash a)" "type_counts b = type_inc (tx_type t) (type_counts a)"
      "auths b = insert_hashes (tx_hash t) (authorities t) (auths a)" "sender_info b = sender_info a"
      "tx_counter b = bins (tx_sender_id t) (tx_count a (tx_sender_id t) + 1) (tx_counter a)"
  shows "all_wf b"
proof -
  note D = all_wfD [OF wf]
  have ents: "at_entries b = bins (transaction_id t) t (at_entries a)"
    by (simp add: at_entries_def fields bvals_map_bins)
  have e: "map_of (at_entries a) (transaction_id t) = None" using new by (simp add: map_of_at_entries)
  show ?thesis
  proof (rule all_wfI, unfold ents fields)
    show "entries_ok (bins (transaction_id t) t (at_entries a))"
      using contains_conflicting_iff [OF wf] con
      by (intro entries_ok_add [OF D(1) nm]) (auto simp: map_of_at_entries)
    show "hash_index (bins (tx_hash t) t (by_hash a)) (bins (transaction_id t) t (at_entries a))"
      using fresh by (intro hash_index_add [OF D(2) e]) (simp add: at_contains_def)
    show "counter_index (bins (tx_sender_id t) (tx_count a (tx_sender_id t) + 1) (tx_counter a))
        (bins (transaction_id t) t (at_entries a))"
      using counter_index_add [OF D(3) e] by (simp add: tx_count_def)
    show "auth_index (insert_hashes (tx_hash t) (authorities t) (auths a)) (bins (transaction_id t) t (at_entries a))"
      by (rule auth_index_add [OF D(4) e])
    show "type_index (type_inc (tx_type t) (type_counts a)) (bins (transaction_id t) t (at_entries a))"
      by (rule type_index_add [OF D(5) e])
    show "state_ok y" if "map_of (bins (transaction_id t) x (txs a)) i = Some y" for i y
      using that D(7) [of i y] fields(3) by (auto simp: map_of_bins_Some)
  qed (rule D(6))
qed

lemma place_occupied:
  assumes wf: "all_wf a" and old: "map_of (txs a) (transaction_id t) = Some y" "it_transaction y = u"
    and fresh: "\<not> at_contains a (tx_hash t)" and nm: "nonce_matches t"
    and con: "\<not> contains_conflicting_transaction t a"
    and fields: "txs b = bins (transaction_id t) x (txs a)" "it_transaction x = t" "state_ok x"
      "by_hash b = bins (tx_hash t) t (bdel (tx_hash u) (by_hash a))"
      "type_counts b = type_dec (tx_type u) (type_inc (tx_type t) (type_counts a))"
      "auths b = insert_hashes (tx_hash t) (authorities t) (remove_hashes (tx_hash u) (authorities u) (auths a))"
      "sender_info b = sender_info a" "tx_counter b = tx_counter a"
  shows "all_wf b"
proof -
  note D = all_wfD [OF wf]
  let ?m = "at_entries a" and ?i = "transaction_id t"
  have sm: "bsorted ?m" by (rule entries_okD [OF D(1)])
  have e: "map_of ?m ?i = Some u" using old by (simp add: map_of_at_entries)
  have id: "transaction_id u = ?i" by (rule entries_okD(2) [OF D(1) e])
  have gone: "map_of (bdel ?i ?m) ?i = None" by (simp add: map_of_bdel)
  have ents: "at_entries b = bins ?i t (bdel ?i ?m)"
    unfolding bins_bdel [OF sm] by (simp add: at_entries_def fields bvals_map_bins)
  show ?thesis
  proof (rule all_wfI, unfold ents fields)
    show "entries_ok (bins ?i t (bdel ?i ?m))"
      using contains_conflicting_iff [OF wf] con
      by (intro entries_ok_add [OF entries_ok_del [OF D(1)] nm]) (auto simp: map_of_bdel_Some map_of_at_entries)
    show "hash_index (bins (tx_hash t) t (bdel (tx_hash u) (by_hash a))) (bins ?i t (bdel ?i ?m))"
      using fresh by (intro hash_index_add [OF hash_index_del [OF D(2) e id] gone]) (simp add: at_contains_def map_of_bdel)
    show "counter_index (tx_counter a) (bins ?i t (bdel ?i ?m))"
      unfolding bins_bdel [OF sm] using counter_index_replace [OF D(3) sm, of ?i t] e by simp
    show "auth_index (insert_hashes (tx_hash t) (authorities t) (remove_hashes (tx_hash u) (authorities u) (auths a)))
        (bins ?i t (bdel ?i ?m))"
      by (rule auth_index_add [OF auth_index_del [OF D(4) D(2) D(1) e] gone])
    show "type_index (type_dec (tx_type u) (type_inc (tx_type t) (type_counts a))) (bins ?i t (bdel ?i ?m))"
      unfolding type_index_swap by (rule type_index_add [OF type_index_del [OF D(5) sm e] gone])
    show "state_ok z" if "map_of (bins ?i x (txs a)) j = Some z" for j z
      using that D(7) [of j z] fields(3) by (auto simp: map_of_bins_Some)
  qed (rule D(6))
qed

lemma place_tx_law:
  assumes wf: "all_wf a" and place: "place_tx x a = Inr (a1, replaced)"
    and t: "it_transaction x = t" and fresh: "\<not> at_contains a (tx_hash t)"
    and nm: "nonce_matches t" and ok: "state_ok x" and con: "\<not> contains_conflicting_transaction t a"
  defines "a2 \<equiv> (case authority_ids t of None \<Rightarrow> a1 | Some ids \<Rightarrow> a1\<lparr>auths := insert_hashes (tx_hash t) ids (auths a1)\<rparr>)"
  shows "all_wf (if replaced = None then tx_inc (tx_sender_id t) a2 else a2)"
    and "txs a2 = bins (transaction_id t) x (txs a)" and "settings a2 = settings a"
    and "sender_info a2 = sender_info a"
    and "replaced = map_option (\<lambda>y. (it_transaction y, it_subpool y)) (map_of (txs a) (transaction_id t))"
    and "\<And>y. map_of (txs a) (transaction_id t) = Some y \<Longrightarrow> \<not> is_underpriced (it_transaction y) t (price_bumps a)"
proof -
  note auths_simps = insert_auths [where t = t and a = a1, folded a2_def]
  show txs2: "txs a2 = bins (transaction_id t) x (txs a)" and "settings a2 = settings a"
    and info: "sender_info a2 = sender_info a"
    and rep: "replaced = map_option (\<lambda>y. (it_transaction y, it_subpool y)) (map_of (txs a) (transaction_id t))"
    and "\<And>y. map_of (txs a) (transaction_id t) = Some y \<Longrightarrow> \<not> is_underpriced (it_transaction y) t (price_bumps a)"
    using place t by (auto simp: place_tx_def auths_simps split: option.splits if_splits)
  show "all_wf (if replaced = None then tx_inc (tx_sender_id t) a2 else a2)"
  proof (cases "map_of (txs a) (transaction_id t)")
    case None
    have "all_wf (tx_inc (tx_sender_id t) a2)"
      by (rule place_vacant [OF wf None fresh nm con, of _ x])
        (use place t ok None in \<open>auto simp: place_tx_def auths_simps tx_inc_def tx_count_def\<close>)
    then show ?thesis using rep None by simp
  next
    case (Some y)
    have "all_wf a2"
      by (rule place_occupied [OF wf Some refl fresh nm con, of _ x])
        (use place t ok Some in \<open>auto simp: place_tx_def auths_simps auths_remove_auths split: if_splits\<close>)
    then show ?thesis using rep Some by simp
  qed
qed

lemma traverse_sender_law:
  assumes sm: "bsorted (txs a)" and ok: "\<forall>i x. map_of (txs a) i = Some x \<longrightarrow> state_ok x"
    and new: "map_of (txs a) new = Some x0" "it_state x0 = st" "on_chain_nonce \<le> nonce new"
    and trav: "traverse_sender balance on_chain_nonce new st a = (a', us, st')"
  obtains m x' where "a' = a\<lparr>txs := m\<rparr>" and "moves (Some new) (txs a) us m"
    and "\<forall>i x. map_of m i = Some x \<longrightarrow> state_ok x"
    and "map_of m new = Some x'" and "it_state x' = st'"
proof -
  define j where "j = TransactionId (sender new) on_chain_nonce"
  define scan where "scan = insert_scan balance new on_chain_nonce 0 False st"
  define r where "r = takeWhile (\<lambda>e. sender (fst e) = sender j) (bfrom j (txs a))"
  obtain r' where r': "scan r = (r', us, st')"
    and a': "a' = a\<lparr>txs := descendant_txs_mut j (\<lambda>m. fst (scan m)) (txs a)\<rparr>"
    using trav unfolding traverse_sender_def Let_def j_def [symmetric] scan_def [symmetric]
      descendant_txs_inclusive_def r_def [symmetric] by (cases "scan r") auto
  let ?m = "descendant_txs_mut j (\<lambda>m. fst (scan m)) (txs a)"
  have r: "r = filter (\<lambda>e. sender (fst e) = sender new \<and> on_chain_nonce \<le> nonce (fst e)) (txs a)"
    using descendants_filter [OF sm, of j] by (simp add: r_def j_def)
  have okr: "state_ok x" if "(i, x) \<in> set r" for i x
    using that ok in_set_map_of [OF sm] by (auto simp: r)
  have law: "moves (Some new) r us r'" "\<forall>(i, x) \<in> set r'. state_ok x"
    using insert_scan_law [OF r' [unfolded scan_def]] okr by blast+
  have mv: "moves (Some new) (txs a) us ?m"
    by (rule descendant_txs_mut_moves [OF sm]) (use law r' in \<open>simp add: r_def [symmetric]\<close>)
  have okm: "state_ok x" if "map_of ?m i = Some x" for i x
    using set_descendant_txs_mut [OF sm map_of_SomeD [OF that]] law(2) r' ok in_set_map_of [OF sm, of i x]
    by (auto simp: r_def [symmetric])
  have sr: "bsorted r" using sm by (simp add: r bsorted_filter)
  have "(new, x0) \<in> set r" using new in_set_map_of [OF sm] by (simp add: r)
  then have "map_of r new = Some x0" using in_set_map_of [OF sr] by blast
  then obtain x' where x': "map_of r' new = Some x'" "it_state x' = st'"
    using insert_scan_state [OF r' [unfolded scan_def] bsorted_distinct [OF sr]] new(2) by blast
  have "(new, x') \<in> set ?m"
    using map_of_SomeD [OF x'(1)] r' by (simp add: descendant_txs_mut_def r_def [symmetric])
  moreover have "bsorted ?m" using moves_keys [OF mv] sm by simp
  ultimately have "map_of ?m new = Some x'" by (simp add: in_set_map_of)
  then show thesis using that [OF a' mv _ _ x'(2)] okm by simp
qed

lemma insert_tx_Inr:
  assumes "insert_tx t balance on_chain_nonce a = Some (Inr (a', r))"
  defines "anc \<equiv> ancestor (tx_nonce t) on_chain_nonce (tx_sender_id t)"
  defines "st \<equiv> initial_state t anc (tracked_fees a)"
  defines "x \<equiv> \<lparr>it_transaction = t, it_subpool = sub_pool_of st, it_state = st, it_cumulative_cost = 0\<rparr>"
  defines "with_auths \<equiv> \<lambda>a1. (case authority_ids t of None \<Rightarrow> a1
    | Some ids \<Rightarrow> a1\<lparr>auths := insert_hashes (tx_hash t) ids (auths a1)\<rparr>)"
  obtains a1 replaced a3 us st' where "on_chain_nonce \<le> tx_nonce t"
    and "ensure_valid t on_chain_nonce a = Inr ()"
    and "is_eip4844 t \<Longrightarrow> ensure_valid_blob_transaction t balance anc a = Inr ()"
    and "ucast (minimal_protocol_basefee a) \<le> max_fee_per_gas t"
    and "place_tx x a = Inr (a1, replaced)"
    and "traverse_sender balance on_chain_nonce (transaction_id t) st (with_auths a1) = (a3, us, st')"
    and "a' = (if replaced = None then tx_inc (tx_sender_id t) a3 else a3)"
    and "r = \<lparr>io_transaction = t, io_move_to = sub_pool_of st', io_state = st',
              io_replaced_tx = replaced, io_updates = us\<rparr>"
proof -
  have n: "on_chain_nonce \<le> tx_nonce t"
    using assms(1) by (auto simp: insert_tx_def split: if_splits)
  have v: "ensure_valid t on_chain_nonce a = Inr ()"
    using assms(1) n by (auto simp: insert_tx_def split: sum.splits)
  have b: "ensure_valid_blob_transaction t balance anc a = Inr ()" if "is_eip4844 t"
    using assms(1) n v that unfolding anc_def by (auto simp: insert_tx_def Let_def split: sum.splits)
  have m: "ucast (minimal_protocol_basefee a) \<le> max_fee_per_gas t"
    using assms(1) n v b unfolding anc_def
    by (cases "is_eip4844 t") (auto simp: insert_tx_def Let_def not_less split: if_splits)
  have body: "(case place_tx x a of Inl e \<Rightarrow> Inl e
      | Inr (a1, replaced) \<Rightarrow>
          let (a3, us, st') = traverse_sender balance on_chain_nonce (transaction_id t) st (with_auths a1);
              a4 = (if replaced = None then tx_inc (tx_sender_id t) a3 else a3)
          in Inr (a4, \<lparr>io_transaction = t, io_move_to = sub_pool_of st', io_state = st',
                       io_replaced_tx = replaced, io_updates = us\<rparr>)) = Inr (a', r)"
  proof -
    have "(if is_eip4844 t then ensure_valid_blob_transaction t balance anc a else Inr ()) = Inr ()"
      using b by simp
    then show ?thesis
      using assms(1) n v m unfolding insert_tx_def Let_def anc_def [symmetric] st_def [symmetric] x_def [symmetric]
        with_auths_def by (simp add: not_less [symmetric])
  qed
  obtain a1 replaced where pl: "place_tx x a = Inr (a1, replaced)"
    using body by (auto split: sum.splits)
  obtain a3 us st' where tr: "traverse_sender balance on_chain_nonce (transaction_id t) st (with_auths a1) = (a3, us, st')"
    by (metis prod_cases3)
  show thesis
    by (rule that [OF n v b m pl tr]) (use body pl tr in \<open>simp_all add: Let_def\<close>)
qed

lemma insert_tx_law:
  assumes wf: "all_wf a" and run: "insert_tx t balance on_chain_nonce a = Some (Inr (a', r))"
    and nm: "nonce_matches t" and fresh: "\<not> at_contains a (tx_hash t)"
  obtains x0 x' where "all_wf a'" and "settings a' = settings a" and "sender_info a' = sender_info a"
    and "io_transaction r = t"
    and "io_replaced_tx r = map_option (\<lambda>y. (it_transaction y, it_subpool y)) (map_of (txs a) (transaction_id t))"
    and "\<forall>y. map_of (txs a) (transaction_id t) = Some y \<longrightarrow> \<not> is_underpriced (it_transaction y) t (price_bumps a)"
    and "it_transaction x0 = t"
    and "moves (Some (transaction_id t)) (bins (transaction_id t) x0 (txs a)) (io_updates r) (txs a')"
    and "map_of (txs a') (transaction_id t) = Some x'" and "it_transaction x' = t"
    and "it_state x' = io_state r" and "it_subpool x' = io_move_to r"
proof -
  define st where "st = initial_state t (ancestor (tx_nonce t) on_chain_nonce (tx_sender_id t)) (tracked_fees a)"
  define x where "x = \<lparr>it_transaction = t, it_subpool = sub_pool_of st, it_state = st, it_cumulative_cost = 0\<rparr>"
  let ?i = "transaction_id t"
  from run obtain a1 replaced a3 us st' where
    n: "on_chain_nonce \<le> tx_nonce t" and ev: "ensure_valid t on_chain_nonce a = Inr ()"
    and pl: "place_tx x a = Inr (a1, replaced)"
    and tr: "traverse_sender balance on_chain_nonce ?i st (case authority_ids t of None \<Rightarrow> a1
        | Some ids \<Rightarrow> a1\<lparr>auths := insert_hashes (tx_hash t) ids (auths a1)\<rparr>) = (a3, us, st')"
    and a': "a' = (if replaced = None then tx_inc (tx_sender_id t) a3 else a3)"
    and r: "r = \<lparr>io_transaction = t, io_move_to = sub_pool_of st', io_state = st',
              io_replaced_tx = replaced, io_updates = us\<rparr>"
    unfolding x_def st_def by (rule insert_tx_Inr)
  define a2 where "a2 = (case authority_ids t of None \<Rightarrow> a1
        | Some ids \<Rightarrow> a1\<lparr>auths := insert_hashes (tx_hash t) ids (auths a1)\<rparr>)"
  have ok: "state_ok x" using initial_state_fixed by (simp add: state_ok_iff x_def st_def)
  have xt: "it_transaction x = t" by (simp add: x_def)
  have con: "\<not> contains_conflicting_transaction t a"
    using ev by (auto simp: ensure_valid_def split: if_splits)
  note P = place_tx_law [OF wf pl xt fresh nm ok con, folded a2_def]
  have sm: "bsorted (txs a2)" unfolding P(2) by (rule bsorted_bins [OF all_wfD(8) [OF wf]])
  have "state_ok y" if "map_of (txs a2) i = Some y" for i y
    using that ok all_wfD(7) [OF wf, of i y] by (auto simp: P(2) map_of_bins_Some)
  then have ok2: "\<forall>i y. map_of (txs a2) i = Some y \<longrightarrow> state_ok y" by blast
  have new: "map_of (txs a2) ?i = Some x" "it_state x = st" "on_chain_nonce \<le> nonce ?i"
    using n nm by (simp_all add: P(2) map_of_bins x_def nonce_matches_def)
  obtain m x' where m: "a3 = a2\<lparr>txs := m\<rparr>" "moves (Some ?i) (txs a2) us m"
      "\<forall>i x. map_of m i = Some x \<longrightarrow> state_ok x" "map_of m ?i = Some x'" "it_state x' = st'"
    by (rule traverse_sender_law [OF sm ok2 new tr [folded a2_def]])
  have a'_eq: "a' = (if replaced = None then tx_inc (tx_sender_id t) a2 else a2)\<lparr>txs := m\<rparr>"
    by (simp add: a' m(1) tx_inc_def tx_count_def)
  have ents: "bvals_map it_transaction m = at_entries (if replaced = None then tx_inc (tx_sender_id t) a2 else a2)"
    using moves_entries [OF m(2)] by (simp add: at_entries_def)
  have wf': "all_wf a'" unfolding a'_eq by (rule all_wf_restate [OF P(1) ents]) (use m(3) in blast)
  have x't: "it_transaction x' = t"
    using arg_cong [OF moves_entries [OF m(2)], of "\<lambda>m. map_of m ?i"] m(4) new(1)
    by (simp add: map_of_bvals_map xt)
  have x'p: "it_subpool x' = sub_pool_of st'" using m(3-5) by (auto simp: state_ok_def)
  show thesis
    by (rule that [OF wf', of x x'])
      (use P(3-6) m(2,4,5) x't x'p xt in \<open>simp_all add: r a'_eq P(2) [symmetric]\<close>)
qed

end
