(* ===== verification/Parked_Pool.thy ===== *)
theory Parked_Pool
  imports Sub_Pool
begin

text \<open>
  \<open>pool/parked.rs\<close>: the pool type behind the queued and the base-fee sub-pool. Beside the
  transactions by identifier it keeps, per sender, a count and the last submission identifier, and
  the set of all senders by last submission, from which \<open>truncate_pool\<close> picks the sender to evict
  from.

  The invariant ties the three together. It is kept by every operation, and under it neither the
  \<open>unreachable!\<close> nor the \<open>assert!\<close> of \<open>remove_sender_count\<close> fires. The pool is an instance of the
  sub-pool interface, and \<open>truncate_pool\<close> returns with a pool within the limit.
\<close>

section \<open>Data\<close>

record sender_tx_count =
  stc_count :: u64
  stc_last_submission_id :: u64

record parked_tx =
  pk_tx_submission_id :: u64
  pk_transaction :: valid_pool_tx

text \<open>
  \<open>SubmissionSenderId\<close> is ordered by its submission identifier alone, in reverse. The set of these
  is a map from submission identifiers to senders, here in ascending order: the \<open>last\<close> element of
  the source is the first one of the list.
\<close>

record parked_pool =
  pk_submission_id :: u64
  pk_by_id :: "(TransactionId, parked_tx) bmap"
  last_sender_submission :: "(u64, SenderId) bmap"
  sender_transaction_count :: "(SenderId, sender_tx_count) bmap"
  pk_size_of :: SizeTracker

definition default_parked_pool :: parked_pool where
  "default_parked_pool =
     \<lparr>pk_submission_id = 0, pk_by_id = [], last_sender_submission = [],
      sender_transaction_count = [], pk_size_of = 0\<rparr>"

section \<open>Operations\<close>

definition pk_next_id :: "parked_pool \<Rightarrow> u64 \<times> parked_pool" where
  "pk_next_id p = (pk_submission_id p, p\<lparr>pk_submission_id := pk_submission_id p + 1\<rparr>)"

text \<open>\<open>BTreeSet::insert\<close> keeps an element that compares equal.\<close>

definition submission_insert :: "u64 \<Rightarrow> SenderId \<Rightarrow> (u64, SenderId) bmap \<Rightarrow> (u64, SenderId) bmap" where
  "submission_insert k s m = (case map_of m k of None \<Rightarrow> bins k s m | Some _ \<Rightarrow> m)"

definition add_sender_count :: "SenderId \<Rightarrow> u64 \<Rightarrow> parked_pool \<Rightarrow> parked_pool" where
  "add_sender_count s submission p =
     (case map_of (sender_transaction_count p) s of
        Some v \<Rightarrow>
          p\<lparr>sender_transaction_count :=
              bins s (v\<lparr>stc_count := stc_count v + 1, stc_last_submission_id := submission\<rparr>)
                (sender_transaction_count p),
            last_sender_submission :=
              submission_insert submission s
                (bdel (stc_last_submission_id v) (last_sender_submission p))\<rparr>
      | None \<Rightarrow>
          p\<lparr>sender_transaction_count :=
              bins s \<lparr>stc_count = 1, stc_last_submission_id = submission\<rparr>
                (sender_transaction_count p),
            last_sender_submission :=
              submission_insert submission s (last_sender_submission p)\<rparr>)"

definition remove_sender_count :: "SenderId \<Rightarrow> parked_pool \<Rightarrow> parked_pool option" where
  "remove_sender_count s p =
     (case map_of (sender_transaction_count p) s of
        None \<Rightarrow> None
      | Some v \<Rightarrow>
          (if stc_count v - 1 = 0
           then (case map_of (last_sender_submission p) (stc_last_submission_id v) of
                   None \<Rightarrow> None
                 | Some _ \<Rightarrow>
                     Some (p\<lparr>sender_transaction_count := bdel s (sender_transaction_count p),
                             last_sender_submission :=
                               bdel (stc_last_submission_id v) (last_sender_submission p)\<rparr>))
           else Some (p\<lparr>sender_transaction_count :=
                          bins s (v\<lparr>stc_count := stc_count v - 1\<rparr>) (sender_transaction_count p)\<rparr>)))"

definition pk_add_transaction :: "valid_pool_tx \<Rightarrow> parked_pool \<Rightarrow> parked_pool" where
  "pk_add_transaction t p =
     (let (submission, p1) = pk_next_id p;
          p2 = p1\<lparr>pk_size_of := size_add (pk_size_of p1) (tx_size t)\<rparr>;
          p3 = add_sender_count (tx_sender_id t) submission p2
      in p3\<lparr>pk_by_id :=
              bins (transaction_id t) \<lparr>pk_tx_submission_id = submission, pk_transaction = t\<rparr>
                (pk_by_id p3)\<rparr>)"

definition pk_remove_transaction ::
    "TransactionId \<Rightarrow> parked_pool \<Rightarrow> (parked_pool \<times> valid_pool_tx option) option" where
  "pk_remove_transaction i p =
     (case map_of (pk_by_id p) i of
        None \<Rightarrow> Some (p, None)
      | Some x \<Rightarrow>
          do { p1 \<leftarrow> remove_sender_count (tx_sender_id (pk_transaction x))
                       (p\<lparr>pk_by_id := bdel i (pk_by_id p)\<rparr>);
               Some (p1\<lparr>pk_size_of := size_sub (pk_size_of p1) (tx_size (pk_transaction x))\<rparr>,
                     Some (pk_transaction x)) })"

definition pk_all :: "parked_pool \<Rightarrow> valid_pool_tx list" where
  "pk_all p = map (pk_transaction \<circ> snd) (pk_by_id p)"

definition pk_len :: "parked_pool \<Rightarrow> nat" where
  "pk_len p = length (pk_by_id p)"

definition pk_size :: "parked_pool \<Rightarrow> usize" where
  "pk_size p = pk_size_of p"

definition pk_exceeds :: "sub_pool_limit \<Rightarrow> parked_pool \<Rightarrow> bool" where
  "pk_exceeds l p = limit_is_exceeded l (pk_len p) (pk_size p)"

definition pk_contains :: "parked_pool \<Rightarrow> TransactionId \<Rightarrow> bool" where
  "pk_contains p i \<longleftrightarrow> map_of (pk_by_id p) i \<noteq> None"

definition pk_get_txs_by_sender :: "parked_pool \<Rightarrow> SenderId \<Rightarrow> TransactionId list" where
  "pk_get_txs_by_sender p s =
     map fst (takeWhile (\<lambda>e. sender (fst e) = s) (bfrom (start_bound s) (pk_by_id p)))"

definition pk_txs_by_sender :: "parked_pool \<Rightarrow> SenderId \<Rightarrow> valid_pool_tx list" where
  "pk_txs_by_sender p s =
     map (pk_transaction \<circ> snd)
       (takeWhile (\<lambda>e. sender (fst e) = s) (bfrom (start_bound s) (pk_by_id p)))"

text \<open>The base-fee scan: a sender whose transaction is too cheap keeps all later ones parked.\<close>

definition satisfy_base_fee :: "u128 \<Rightarrow> parked_pool \<Rightarrow> (TransactionId \<times> parked_tx) list" where
  "satisfy_base_fee basefee p =
     scan_kept (\<lambda>e. sender (fst e)) (\<lambda>e. max_fee_per_gas (pk_transaction (snd e)) < basefee)
       (pk_by_id p)"

definition satisfy_base_fee_transactions :: "u64 \<Rightarrow> parked_pool \<Rightarrow> valid_pool_tx list" where
  "satisfy_base_fee_transactions basefee p =
     map (pk_transaction \<circ> snd) (satisfy_base_fee (ucast basefee) p)"

text \<open>
  \<open>enforce_basefee_with\<close> removes the transactions that can afford the fee; the handler of the
  source is called on each of the returned transactions, in this order.
\<close>

definition enforce_basefee_with :: "u64 \<Rightarrow> parked_pool \<Rightarrow> (parked_pool \<times> valid_pool_tx list) option" where
  "enforce_basefee_with basefee p =
     remove_each pk_remove_transaction
       (map (transaction_id \<circ> pk_transaction \<circ> snd) (satisfy_base_fee (ucast basefee) p)) p"

lemma remove_sender_count_frame:
  "remove_sender_count s p = Some p' \<Longrightarrow>
   pk_by_id p' = pk_by_id p \<and> pk_submission_id p' = pk_submission_id p \<and> pk_size_of p' = pk_size_of p"
  by (auto simp: remove_sender_count_def split: option.splits if_splits)

lemma pk_by_id_remove:
  "pk_remove_transaction i p = Some (p', r) \<Longrightarrow> pk_by_id p' = bdel i (pk_by_id p)"
  by (auto simp: pk_remove_transaction_def bdel_id bind_eq_Some_conv
      dest: remove_sender_count_frame split: option.splits)

text \<open>Inner loop of \<open>truncate_pool\<close>: evict from one sender, highest nonce first.\<close>

function truncate_sender ::
    "sub_pool_limit \<Rightarrow> SenderId \<Rightarrow> parked_pool \<Rightarrow> (parked_pool \<times> valid_pool_tx list) option" where
  "truncate_sender l s p =
     (case last_opt (sender_range s (pk_by_id p)) of
        None \<Rightarrow> Some (p, [])
      | Some e \<Rightarrow>
          (case pk_remove_transaction (fst e) p of
             None \<Rightarrow> None
           | Some (p1, r) \<Rightarrow>
               (let ts = (case r of None \<Rightarrow> [] | Some t \<Rightarrow> [t])
                in if \<not> pk_exceeds l p1 then Some (p1, ts)
                   else do { (p2, ts2) \<leftarrow> truncate_sender l s p1; Some (p2, ts @ ts2) })))"
  by pat_completeness auto
termination
proof (relation "measure (\<lambda>(l, s, p). length (pk_by_id p))", goal_cases)
  case (2 l s p e x p1 r ts)
  then have "e \<in> set (pk_by_id p)"
    by (auto dest!: last_opt_SomeD simp: sender_range_def)
  moreover have "pk_by_id p1 = bdel (fst e) (pk_by_id p)"
    using 2 by (auto intro: pk_by_id_remove)
  ultimately show ?case
    by (auto simp: bdel_def intro!: length_filter_less)
qed simp

declare truncate_sender.simps [simp del]

partial_function (option) truncate_loop ::
    "sub_pool_limit \<Rightarrow> parked_pool \<Rightarrow> (parked_pool \<times> valid_pool_tx list) option" where
  "truncate_loop l p =
     (case last_sender_submission p of
        [] \<Rightarrow> Some (p, [])
      | e # _ \<Rightarrow>
          (if \<not> limit_is_exceeded l (pk_len p) (pk_size p) then Some (p, [])
           else do { (p1, ts1) \<leftarrow> truncate_sender l (snd e) p;
                     (p2, ts2) \<leftarrow> truncate_loop l p1;
                     Some (p2, ts1 @ ts2) }))"

declare truncate_loop.simps [code]

definition pk_truncate_pool ::
    "sub_pool_limit \<Rightarrow> parked_pool \<Rightarrow> (parked_pool \<times> valid_pool_tx list) option" where
  "pk_truncate_pool l p = (if \<not> pk_exceeds l p then Some (p, []) else truncate_loop l p)"

section \<open>Orders of the parked transactions\<close>

text \<open>\<open>BasefeeOrd\<close>, \<open>QueuedOrd\<close> and the tie break by submission; the results are those of \<open>cmp\<close>.\<close>

definition basefee_cmp :: "valid_pool_tx \<Rightarrow> valid_pool_tx \<Rightarrow> Ordering" where
  "basefee_cmp a b = cmp (max_fee_per_gas a) (max_fee_per_gas b)"

definition queued_cmp :: "valid_pool_tx \<Rightarrow> valid_pool_tx \<Rightarrow> Ordering" where
  "queued_cmp a b =
     then_with (cmp (max_fee_per_gas a) (max_fee_per_gas b)) (cmp (timestamp b) (timestamp a))"

definition parked_cmp ::
    "(valid_pool_tx \<Rightarrow> valid_pool_tx \<Rightarrow> Ordering) \<Rightarrow> parked_tx \<Rightarrow> parked_tx \<Rightarrow> Ordering" where
  "parked_cmp tx_cmp a b =
     then_with (tx_cmp (pk_transaction a) (pk_transaction b))
       (cmp (pk_tx_submission_id b) (pk_tx_submission_id a))"

section \<open>The invariant\<close>

definition pk_entries :: "parked_pool \<Rightarrow> entries" where
  "pk_entries p = bvals_map pk_transaction (pk_by_id p)"

text \<open>
  The bookkeeping of the senders, for the numbers of transactions \<open>cnt\<close> and the next submission
  identifier \<open>c\<close>.
\<close>

definition counts_ok ::
    "(u64, SenderId) bmap \<Rightarrow> (SenderId, sender_tx_count) bmap \<Rightarrow> (SenderId \<Rightarrow> nat) \<Rightarrow> u64 \<Rightarrow> bool" where
  "counts_ok lss stc cnt c \<longleftrightarrow>
     bsorted lss \<and> bsorted stc \<and>
     (\<forall>s. cnt s \<le> unat c \<and> (map_of stc s = None \<longrightarrow> cnt s = 0)) \<and>
     (\<forall>s v. map_of stc s = Some v \<longrightarrow>
        cnt s = unat (stc_count v) \<and> 0 < cnt s \<and> stc_last_submission_id v < c \<and> map_of lss (stc_last_submission_id v) = Some s) \<and>
     (\<forall>k s. map_of lss k = Some s \<longrightarrow> (\<exists>v. map_of stc s = Some v \<and> stc_last_submission_id v = k))"

definition pk_inv :: "parked_pool \<Rightarrow> bool" where
  "pk_inv p \<longleftrightarrow>
     bsorted (pk_by_id p) \<and>
     (\<forall>i x. map_of (pk_by_id p) i = Some x \<longrightarrow> transaction_id (pk_transaction x) = i) \<and>
     counts_ok (last_sender_submission p) (sender_transaction_count p) (sender_count (pk_by_id p))
       (pk_submission_id p) \<and>
     pk_size_of p = total_size (pk_entries p)"

definition pk_room :: "parked_pool \<Rightarrow> nat" where
  "pk_room p = submissions_left (pk_submission_id p)"

lemma counts_okD:
  assumes "counts_ok lss stc cnt c"
  shows "bsorted lss" and "bsorted stc" and "cnt s \<le> unat c"
    and "map_of stc s = None \<Longrightarrow> cnt s = 0"
    and "map_of stc s = Some v \<Longrightarrow> cnt s = unat (stc_count v) \<and> 0 < cnt s \<and>
           stc_last_submission_id v < c \<and> map_of lss (stc_last_submission_id v) = Some s"
    and "map_of lss k = Some s \<Longrightarrow> \<exists>v. map_of stc s = Some v \<and> stc_last_submission_id v = k"
  using assms unfolding counts_ok_def by blast+

lemma counts_okI:
  assumes "bsorted lss" and "bsorted stc" and "\<And>s. cnt s \<le> unat c"
    and "\<And>s. map_of stc s = None \<Longrightarrow> cnt s = 0"
    and "\<And>s v. map_of stc s = Some v \<Longrightarrow> cnt s = unat (stc_count v) \<and> 0 < cnt s \<and>
           stc_last_submission_id v < c \<and> map_of lss (stc_last_submission_id v) = Some s"
    and "\<And>k s. map_of lss k = Some s \<Longrightarrow> \<exists>v. map_of stc s = Some v \<and> stc_last_submission_id v = k"
  shows "counts_ok lss stc cnt c"
  using assms unfolding counts_ok_def by blast

lemma counts_ok_add:
  assumes ok: "counts_ok lss stc cnt c" and c: "c \<noteq> max_of"
    and lss: "lss' = submission_insert c s
               (case map_of stc s of None \<Rightarrow> lss | Some v \<Rightarrow> bdel (stc_last_submission_id v) lss)"
    and stc: "stc' = bins s w stc" "stc_last_submission_id w = c"
    and w: "stc_count w = (case map_of stc s of None \<Rightarrow> 1 | Some v \<Rightarrow> stc_count v + 1)"
  shows "counts_ok lss' stc' (cnt(s := Suc (cnt s))) (c + 1)"
proof -
  note D = counts_okD [OF ok]
  have fresh: "map_of lss c = None"
    using D(5,6) by (metis less_irrefl option.exhaust)
  have lss': "bsorted lss'" "map_of lss' = (case map_of stc s of None \<Rightarrow> map_of lss
      | Some v \<Rightarrow> (map_of lss)(stc_last_submission_id v := None))(c \<mapsto> s)"
    using D(1) fresh unfolding lss submission_insert_def
    by (auto simp: bmap_simps split: option.splits if_splits)
  have stc': "bsorted stc'" "map_of stc' = (map_of stc)(s \<mapsto> w)"
    using D(2) by (auto simp: stc bmap_simps)
  have cnt: "unat (stc_count w) = Suc (cnt s)"
  proof (cases "map_of stc s")
    case None
    then show ?thesis using D(4) w by simp
  next
    case (Some v)
    then have v: "unat (stc_count v) = cnt s" using D(5) by simp
    moreover have "unat c < unat (max_of :: u64)"
      using c by (simp add: word_less_nat_alt [symmetric] word_order.not_eq_extremum)
    ultimately have "stc_count v \<noteq> max_of" using D(3) [of s] by auto
    then show ?thesis using w Some v by (simp add: unat_succ)
  qed
  have below: "map_of stc s' = Some v \<Longrightarrow> stc_last_submission_id v < c + 1" for s' v
    using D(5) c by (auto intro: word_less_succ)
  have apart: "map_of stc s = Some u \<Longrightarrow> map_of stc s' = Some v \<Longrightarrow> s' \<noteq> s \<Longrightarrow>
      stc_last_submission_id v \<noteq> stc_last_submission_id u \<and> stc_last_submission_id v \<noteq> c" for s' u v
    using D(5) by (metis less_irrefl option.inject)
  show ?thesis
  proof (rule counts_okI, goal_cases)
    case (3 s') then show ?case using D(3) [of s'] c by (auto simp: unat_succ)
  next
    case (5 s' v) then show ?case
      using D(5) [of s' v] below [of s' v] cnt apart [of _ s' v] c stc(2) fresh
      by (auto simp: stc'(2) lss'(2) word_self_less_succ split: if_splits option.splits)
  next
    case (6 k s') then show ?case
      using D(5) [of s] D(6) [of k s'] stc(2)
      by (auto simp: stc'(2) lss'(2) split: if_splits option.splits)
  qed (use lss' stc' D(4) in \<open>auto split: if_splits\<close>)
qed

lemma counts_ok_remove:
  assumes ok: "counts_ok lss stc cnt c" and pos: "0 < cnt s"
  obtains v where "map_of stc s = Some v"
    and "stc_count v - 1 = 0 \<Longrightarrow> map_of lss (stc_last_submission_id v) = Some s \<and>
      counts_ok (bdel (stc_last_submission_id v) lss) (bdel s stc) (cnt(s := cnt s - 1)) c"
    and "stc_count v - 1 \<noteq> 0 \<Longrightarrow>
      counts_ok lss (bins s (v\<lparr>stc_count := stc_count v - 1\<rparr>) stc) (cnt(s := cnt s - 1)) c"
proof -
  note D = counts_okD [OF ok]
  obtain v where v: "map_of stc s = Some v" using D(4) pos by (cases "map_of stc s") auto
  have dec: "unat (stc_count v - 1) = cnt s - 1" "cnt s = unat (stc_count v)"
    using D(5) [OF v] pos by (auto simp: unat_sub word_le_nat_alt)
  have apart: "map_of stc s' = Some u \<Longrightarrow> s' \<noteq> s \<Longrightarrow>
      stc_last_submission_id u \<noteq> stc_last_submission_id v" for s' u
    using D(5) v by (metis option.inject)
  have le: "(cnt(s := cnt s - 1)) s' \<le> unat c" for s'
    using D(3) [of s'] by auto
  show thesis
  proof (rule that [OF v], goal_cases)
    case 1
    then have "cnt s - 1 = 0" using dec by (metis unat_0)
    then have "counts_ok (bdel (stc_last_submission_id v) lss) (bdel s stc) (cnt(s := cnt s - 1)) c"
    proof (intro counts_okI, goal_cases)
      case (5 s' u) then show ?case
        using D(5) [of s' u] apart [of s' u] by (auto simp: map_of_bdel split: if_splits)
    next
      case (6 k s') then show ?case
        using D(6) [of k s'] v by (auto simp: map_of_bdel split: if_splits)
    qed (use D(1,2,4) le in \<open>auto simp: bmap_simps split: if_splits\<close>)
    then show ?case using D(5) [OF v] by simp
  next
    case 2
    then have "0 < cnt s - 1" using dec by (metis unat_gt_0)
    then show ?case
    proof (intro counts_okI, goal_cases)
      case (5 s' u) then show ?case
        using D(5) [of s' u] D(5) [OF v] dec by (auto simp: map_of_bins split: if_splits)
    next
      case (6 k s') then show ?case
        using D(6) [of k s'] v by (auto simp: map_of_bins split: if_splits)
    qed (use D(1,2,4) le in \<open>auto simp: bmap_simps split: if_splits\<close>)
  qed
qed

lemma remove_sender_count_ok:
  assumes "counts_ok (last_sender_submission p) (sender_transaction_count p) cnt c" and "0 < cnt s"
  shows "\<exists>p'. remove_sender_count s p = Some p' \<and>
    counts_ok (last_sender_submission p') (sender_transaction_count p') (cnt(s := cnt s - 1)) c"
  by (rule counts_ok_remove [OF assms], cases "stc_count (the (map_of (sender_transaction_count p) s)) - 1 = 0")
    (auto simp: remove_sender_count_def)

lemma pk_invD:
  assumes "pk_inv p"
  shows "bsorted (pk_by_id p)"
    and "map_of (pk_by_id p) i = Some x \<Longrightarrow> transaction_id (pk_transaction x) = i"
    and "counts_ok (last_sender_submission p) (sender_transaction_count p) (sender_count (pk_by_id p))
           (pk_submission_id p)"
    and "pk_size_of p = total_size (pk_entries p)"
    and "bsorted (pk_entries p)"
  using assms by (auto simp: pk_inv_def pk_entries_def)

lemma pk_inv_default: "pk_inv default_parked_pool"
  by (auto simp: pk_inv_def default_parked_pool_def counts_ok_def pk_entries_def bvals_map_def
      total_size_def sender_count_def)

lemma pk_entries_None: "map_of (pk_entries p) i = None \<longleftrightarrow> map_of (pk_by_id p) i = None"
  by (simp add: pk_entries_def map_of_bvals_map)

lemma pk_add_fields:
  defines "submitted p t \<equiv> \<lparr>pk_tx_submission_id = pk_submission_id p, pk_transaction = t\<rparr>"
  shows "pk_by_id (pk_add_transaction t p) = bins (transaction_id t) (submitted p t) (pk_by_id p)"
    and "pk_submission_id (pk_add_transaction t p) = pk_submission_id p + 1"
    and "pk_size_of (pk_add_transaction t p) = pk_size_of p + tx_size t"
    and "pk_entries (pk_add_transaction t p) = bins (transaction_id t) t (pk_entries p)"
  by (auto simp: pk_add_transaction_def pk_next_id_def add_sender_count_def Let_def size_add_def
      pk_entries_def bvals_map_bins assms split: option.splits)

lemma pk_add_counts:
  assumes "counts_ok (last_sender_submission p) (sender_transaction_count p) cnt (pk_submission_id p)"
    and "pk_submission_id p \<noteq> max_of"
  shows "counts_ok (last_sender_submission (pk_add_transaction t p))
    (sender_transaction_count (pk_add_transaction t p))
    (cnt(tx_sender_id t := Suc (cnt (tx_sender_id t)))) (pk_submission_id p + 1)"
proof (rule counts_ok_add [OF assms, where w = "case map_of (sender_transaction_count p) (tx_sender_id t) of
      None \<Rightarrow> \<lparr>stc_count = 1, stc_last_submission_id = pk_submission_id p\<rparr>
    | Some v \<Rightarrow> v\<lparr>stc_count := stc_count v + 1, stc_last_submission_id := pk_submission_id p\<rparr>"])
qed (auto simp: pk_add_transaction_def pk_next_id_def add_sender_count_def Let_def split: option.splits)

lemma pk_add_law:
  assumes "pk_inv p" and "map_of (pk_entries p) (transaction_id t) = None" and "0 < pk_room p"
  shows "pk_inv (pk_add_transaction t p)" and "pk_room (pk_add_transaction t p) = pk_room p - 1"
proof -
  note D = pk_invD [OF assms(1)]
  have c: "pk_submission_id p \<noteq> max_of"
    and room: "submissions_left (pk_submission_id p + 1) = submissions_left (pk_submission_id p) - 1"
    using submissions_left_succ assms(3) by (auto simp: pk_room_def)
  show "pk_room (pk_add_transaction t p) = pk_room p - 1"
    using room by (simp add: pk_room_def pk_add_fields)
  have None: "map_of (pk_by_id p) (transaction_id t) = None"
    using assms(2) by (simp add: pk_entries_None)
  have "sender_count (pk_by_id (pk_add_transaction t p)) =
      (sender_count (pk_by_id p))(tx_sender_id t := Suc (sender_count (pk_by_id p) (tx_sender_id t)))"
    using sender_count_bins [OF None] by (simp add: pk_add_fields tx_sender_id_def)
  moreover have "pk_size_of (pk_add_transaction t p) = total_size (pk_entries (pk_add_transaction t p))"
    using assms(2) D(4) by (simp add: pk_add_fields total_size_bins)
  ultimately show "pk_inv (pk_add_transaction t p)"
    unfolding pk_inv_def using pk_add_counts [OF D(3) c, of t] D(1,2)
    by (auto simp: pk_add_fields bmap_simps)
qed

lemma pk_remove_law:
  assumes "pk_inv p"
  obtains p' where "pk_remove_transaction i p = Some (p', map_of (pk_entries p) i)"
    and "pk_inv p'" and "pk_entries p' = bdel i (pk_entries p)"
    and "pk_submission_id p' = pk_submission_id p"
proof (cases "map_of (pk_by_id p) i")
  case None
  then show thesis
    using that [of p] assms
    by (simp add: pk_remove_transaction_def pk_entries_def map_of_bvals_map bdel_id)
next
  case (Some x)
  note D = pk_invD [OF assms]
  have x: "transaction_id (pk_transaction x) = i" using D(2) Some by simp
  let ?s = "tx_sender_id (pk_transaction x)"
  have s: "?s = sender i" using x by (simp add: tx_sender_id_def)
  have cnt: "sender_count (bdel i (pk_by_id p)) =
      (sender_count (pk_by_id p))(?s := sender_count (pk_by_id p) ?s - 1)"
    and pos: "0 < sender_count (pk_by_id p) ?s"
    using sender_count_bdel [OF D(1) Some] s by auto
  have size: "pk_size_of p - tx_size (pk_transaction x) = total_size (bdel i (pk_entries p))"
    using total_size_bdel [OF D(5), of i "pk_transaction x"] D(4) Some
    by (simp add: pk_entries_def map_of_bvals_map)
  obtain p1 where p1: "remove_sender_count ?s (p\<lparr>pk_by_id := bdel i (pk_by_id p)\<rparr>) = Some p1"
    and ok: "counts_ok (last_sender_submission p1) (sender_transaction_count p1)
      (sender_count (bdel i (pk_by_id p))) (pk_submission_id p)"
    unfolding cnt
    using remove_sender_count_ok [of "p\<lparr>pk_by_id := bdel i (pk_by_id p)\<rparr>" _ "pk_submission_id p"] D(3) pos
    by auto
  note frame = remove_sender_count_frame [OF p1]
  let ?p' = "p1\<lparr>pk_size_of := size_sub (pk_size_of p1) (tx_size (pk_transaction x))\<rparr>"
  have entries: "pk_entries ?p' = bdel i (pk_entries p)"
    using frame by (simp add: pk_entries_def bvals_map_bdel)
  have "pk_inv ?p'"
    unfolding pk_inv_def entries using frame ok size D(1,2)
    by (auto simp: bmap_simps size_sub_def)
  then show thesis
    using that [of ?p'] p1 frame entries Some
    by (simp add: pk_remove_transaction_def pk_entries_def map_of_bvals_map)
qed

lemma pk_len_entries: "pk_len p = length (pk_entries p)"
  by (simp add: pk_len_def pk_entries_def)

section \<open>Truncation\<close>

text \<open>
  \<open>trims l p p' ts\<close>: taking the transactions \<open>ts\<close> out of \<open>p\<close> leads to \<open>p'\<close>; each sender keeps its
  lowest nonces, and the limit was still exceeded before the last removal.
\<close>

definition trims :: "sub_pool_limit \<Rightarrow> parked_pool \<Rightarrow> parked_pool \<Rightarrow> valid_pool_tx list \<Rightarrow> bool" where
  "trims l p p' ts \<longleftrightarrow>
     pk_inv p' \<and> pk_submission_id p' = pk_submission_id p \<and>
     evicts (pk_entries p) ts (pk_entries p') \<and> keeps_prefix (pk_entries p) (pk_entries p') \<and>
     (ts \<noteq> [] \<longrightarrow> limit_is_exceeded l (Suc (pk_len p')) (pk_size p' + tx_size (last ts)))"

lemma trims_refl: "pk_inv p \<Longrightarrow> trims l p p []"
  by (simp add: trims_def)

lemma trims_trans:
  assumes "trims l p p1 ts" and "trims l p1 p2 us"
  shows "trims l p p2 (ts @ us)"
proof -
  have dom: "dom (map_of (pk_entries p2)) \<subseteq> dom (map_of (pk_entries p1))"
    using assms(2) map_of_evicts [of "pk_entries p1" us "pk_entries p2"]
    by (auto simp: trims_def split: if_splits)
  have "pk_entries p2 = pk_entries p1" if "us = []"
    using assms(2) that by (simp add: trims_def evicts_def)
  then have "pk_len p2 = pk_len p1 \<and> pk_size p2 = pk_size p1" if "us = []"
    using assms that by (simp add: trims_def pk_len_entries pk_size_def pk_invD(4))
  moreover have "evicts (pk_entries p) (ts @ us) (pk_entries p2)"
    using assms by (auto simp: trims_def intro: evicts_trans)
  ultimately show ?thesis
    using assms keeps_prefix_trans [OF _ _ dom, of "pk_entries p"]
    by (cases "us = []") (auto simp: trims_def)
qed

lemma trims_one:
  assumes "pk_inv p" and "pk_exceeds l p" and "last_opt (sender_range s (pk_by_id p)) = Some e"
  obtains p1 where "pk_remove_transaction (fst e) p = Some (p1, Some (pk_transaction (snd e)))"
    and "trims l p p1 [pk_transaction (snd e)]"
proof -
  note D = pk_invD [OF assms(1)]
  note max = last_sender_range [OF D(1) assms(3)]
  let ?t = "pk_transaction (snd e)"
  have found: "map_of (pk_by_id p) (fst e) = Some (snd e)"
    using max(1) D(1) by (simp flip: in_set_map_of)
  then have id: "transaction_id ?t = fst e" using D(2) by simp
  have t: "map_of (pk_entries p) (fst e) = Some ?t"
    using found by (simp add: pk_entries_def map_of_bvals_map)
  from pk_remove_law [OF assms(1), of "fst e"] obtain p1 where
    p1: "pk_remove_transaction (fst e) p = Some (p1, Some ?t)" "pk_inv p1"
      "pk_entries p1 = bdel (fst e) (pk_entries p)" "pk_submission_id p1 = pk_submission_id p"
    using t by metis
  have "keeps_prefix (pk_entries p) (pk_entries p1)"
  proof -
    have "nonce j \<le> nonce (fst e)" if j: "map_of (pk_entries p) j \<noteq> None" "sender j = s" for j
    proof -
      obtain x where "map_of (pk_by_id p) j = Some x"
        using j(1) unfolding pk_entries_None by blast
      then show ?thesis using max(3) [of "(j, x)"] j(2) D(1) by (simp add: in_set_map_of)
    qed
    then show ?thesis
      using max(2) by (auto simp: keeps_prefix_def p1(3) map_of_bdel linorder_not_less [symmetric] split: if_splits)
  qed
  moreover have "evicts (pk_entries p) [?t] (pk_entries p1)"
    using evicts_one [of "pk_entries p" ?t] t id p1(3) by simp
  moreover have "limit_is_exceeded l (Suc (pk_len p1)) (pk_size p1 + tx_size ?t)"
  proof -
    have "0 < length (pk_entries p)" using t by (cases "pk_entries p") auto
    then have "Suc (pk_len p1) = pk_len p"
      using t by (simp add: pk_len_entries p1(3) length_bdel [OF D(5)])
    moreover have "pk_size p1 + tx_size ?t = pk_size p"
      using total_size_bdel [OF D(5) t] pk_invD(4) [OF p1(2)] D(4) by (simp add: pk_size_def p1(3))
    ultimately show ?thesis using assms(2) by (simp add: pk_exceeds_def)
  qed
  ultimately show thesis
    using that [of p1] p1 by (simp add: trims_def)
qed

lemma truncate_sender_law:
  assumes "pk_inv p" and "pk_exceeds l p"
  shows "\<exists>p' ts. truncate_sender l s p = Some (p', ts) \<and> trims l p p' ts \<and>
    (sender_range s (pk_by_id p) \<noteq> [] \<longrightarrow> ts \<noteq> [])"
  using assms
proof (induction l s p rule: truncate_sender.induct)
  case (1 l s p)
  show ?case
  proof (cases "last_opt (sender_range s (pk_by_id p))")
    case None
    then show ?thesis
      by (subst truncate_sender.simps) (use 1(2) trims_refl in auto)
  next
    case (Some e)
    obtain p1 where p1: "pk_remove_transaction (fst e) p = Some (p1, Some (pk_transaction (snd e)))"
      "trims l p p1 [pk_transaction (snd e)]" by (rule trims_one [OF 1(2,3) Some])
    show ?thesis
    proof (cases "pk_exceeds l p1")
      case False
      then show ?thesis
        by (subst truncate_sender.simps) (use Some p1 in auto)
    next
      case True
      have "pk_inv p1" using p1(2) by (simp add: trims_def)
      from 1(1) [OF Some p1(1) refl refl _ this True] True obtain p2 ts where
        "truncate_sender l s p1 = Some (p2, ts)" "trims l p1 p2 ts" by auto
      then show ?thesis
        using trims_trans [OF p1(2), of p2 ts]
        by (subst truncate_sender.simps) (use Some p1 True in auto)
    qed
  qed
qed

lemma truncate_loop_law:
  assumes "pk_inv p"
  shows "\<exists>p' ts. truncate_loop l p = Some (p', ts) \<and> trims l p p' ts \<and> \<not> pk_exceeds l p'"
  using assms
proof (induction "pk_len p" arbitrary: p rule: less_induct)
  case less
  note D = pk_invD [OF less.prems]
  note C = counts_okD [OF D(3)]
  show ?case
  proof (cases "last_sender_submission p")
    case Nil
    have "sender_transaction_count p = []"
    proof (cases "sender_transaction_count p")
      case (Cons e m)
      then have "map_of (sender_transaction_count p) (fst e) = Some (snd e)" by simp
      from C(5) [OF this] show ?thesis using Nil by simp
    qed
    then have "sender_count (pk_by_id p) s = 0" for s using C(4) [of s] by simp
    from this [of "sender (fst (hd (pk_by_id p)))"] have "pk_by_id p = []"
      by (cases "pk_by_id p") (auto simp: sender_count_def)
    then have "\<not> pk_exceeds l p"
      using D(4) by (simp add: pk_exceeds_def pk_len_def pk_size_def limit_is_exceeded_def
          pk_entries_def bvals_map_def total_size_def)
    then show ?thesis
      by (subst truncate_loop.simps) (use Nil trims_refl [OF less.prems] in auto)
  next
    case (Cons e m)
    show ?thesis
    proof (cases "pk_exceeds l p")
      case False
      then show ?thesis
        by (subst truncate_loop.simps) (use Cons trims_refl [OF less.prems] in \<open>auto simp: pk_exceeds_def\<close>)
    next
      case True
      have "map_of (last_sender_submission p) (fst e) = Some (snd e)" using Cons by simp
      from C(6) [OF this] C(5) [of "snd e"] have "0 < sender_count (pk_by_id p) (snd e)" by blast
      then have "sender_range (snd e) (pk_by_id p) \<noteq> []"
        by (simp add: sender_range_filter sender_count_def)
      with truncate_sender_law [OF less.prems True, of "snd e"] obtain p1 ts1 where
        p1: "truncate_sender l (snd e) p = Some (p1, ts1)" "trims l p p1 ts1" "ts1 \<noteq> []" by blast
      have "pk_len p1 < pk_len p"
        using p1(2,3) length_evicts [OF D(5), of ts1 "pk_entries p1"]
        by (simp add: trims_def pk_len_entries)
      moreover have "pk_inv p1" using p1(2) by (simp add: trims_def)
      ultimately obtain p2 ts2 where
        p2: "truncate_loop l p1 = Some (p2, ts2)" "trims l p1 p2 ts2" "\<not> pk_exceeds l p2"
        using less.hyps by blast
      then show ?thesis
        using trims_trans [OF p1(2) p2(2)]
        by (subst truncate_loop.simps) (use Cons True p1 in \<open>auto simp: pk_exceeds_def\<close>)
    qed
  qed
qed

lemma pk_truncate_law:
  assumes "pk_inv p"
  obtains p' ts where "pk_truncate_pool l p = Some (p', ts)" and "trims l p p' ts" and "\<not> pk_exceeds l p'"
    and "\<not> pk_exceeds l p \<Longrightarrow> ts = []"
proof (cases "pk_exceeds l p")
  case True
  then show thesis
    using truncate_loop_law [OF assms, of l] that by (auto simp: pk_truncate_pool_def)
next
  case False
  then show thesis
    using that [of p "[]"] trims_refl [OF assms] by (simp add: pk_truncate_pool_def)
qed

interpretation parked: bounded_pool pk_inv pk_entries "\<lambda>t p. Some (pk_add_transaction t p)"
  pk_remove_transaction pk_len pk_size pk_room "\<lambda>_. True" pk_truncate_pool
proof (unfold_locales, goal_cases)
  case (1 p) then show ?case by (rule pk_invD)
next
  case (2 p i t) then show ?case
    by (auto simp: pk_entries_def map_of_bvals_map dest: pk_invD(2))
next
  case (3 p t) then show ?case by (simp add: pk_add_law pk_add_fields)
next
  case (4 p i) then show ?case
    by (rule pk_remove_law [of p i]) (auto simp: pk_room_def)
next
  case (5 p) then show ?case by (simp add: pk_len_entries)
next
  case (6 p) then show ?case by (simp add: pk_size_def pk_invD(4))
next
  case (7 p l) then show ?case
    by (rule pk_truncate_law [of p l]) (auto simp: trims_def pk_room_def pk_exceeds_def)
qed

section \<open>The base fee\<close>

lemma satisfy_base_fee_iff:
  assumes "bsorted (pk_by_id p)"
  shows "(i, x) \<in> set (satisfy_base_fee b p) \<longleftrightarrow>
    map_of (pk_by_id p) i = Some x \<and>
    (\<forall>j y. map_of (pk_by_id p) j = Some y \<and> sender j = sender i \<and> nonce j \<le> nonce i \<longrightarrow>
       b \<le> max_fee_per_gas (pk_transaction y))"
  unfolding satisfy_base_fee_def scan_kept_iff [OF assms] Ball_def split_paired_All
  by (auto simp: in_set_map_of [OF assms] not_less)

lemma enforce_basefee_law:
  assumes "pk_inv p"
  obtains p' where "enforce_basefee_with b p = Some (p', satisfy_base_fee_transactions b p)"
    and "pk_inv p'" and "pk_room p' = pk_room p"
    and "evicts (pk_entries p) (satisfy_base_fee_transactions b p) (pk_entries p')"
proof -
  note D = pk_invD [OF assms]
  let ?k = "satisfy_base_fee (ucast b) p"
  have in_p: "map_of (pk_by_id p) (fst e) = Some (snd e)" if "e \<in> set ?k" for e
    using that satisfy_base_fee_iff [OF D(1), of "fst e" "snd e"] by simp
  have ids: "map (transaction_id \<circ> pk_transaction \<circ> snd) ?k = map fst ?k"
    using in_p D(2) by auto
  have "distinct (map fst ?k)"
    unfolding satisfy_base_fee_def by (rule bsorted_distinct [OF sorted_scan_kept [OF D(1)]])
  moreover have "List.map_filter (map_of (pk_entries p)) (map fst ?k) = satisfy_base_fee_transactions b p"
  proof -
    have "List.map_filter (map_of (pk_entries p)) (map fst es) = map (pk_transaction \<circ> snd) es"
      if "set es \<subseteq> set ?k" for es
      using that in_p by (induction es) (auto simp: List.map_filter_simps pk_entries_def map_of_bvals_map)
    then show ?thesis by (simp add: satisfy_base_fee_transactions_def)
  qed
  ultimately show thesis
    using that unfolding enforce_basefee_with_def ids
    by (auto intro: parked.remove_each_evicts [OF assms, of "map fst ?k"])
qed

lemma satisfy_base_fee_transactions_iff:
  assumes "pk_inv p"
  shows "t \<in> set (satisfy_base_fee_transactions b p) \<longleftrightarrow>
    map_of (pk_entries p) (transaction_id t) = Some t \<and>
    (\<forall>j u. map_of (pk_entries p) j = Some u \<and> sender j = tx_sender_id t \<and> nonce j \<le> nonce (transaction_id t) \<longrightarrow>
       ucast b \<le> max_fee_per_gas u)"
    (is "?l \<longleftrightarrow> ?r")
proof -
  note D = pk_invD [OF assms]
  note iff = satisfy_base_fee_iff [OF D(1), of _ _ "ucast b"]
  have lookup: "map_of (pk_entries p) j = Some u \<longleftrightarrow> (\<exists>y. map_of (pk_by_id p) j = Some y \<and> pk_transaction y = u)"
    for j u by (auto simp: pk_entries_def map_of_bvals_map)
  have "?l \<longleftrightarrow> (\<exists>x. (transaction_id t, x) \<in> set (satisfy_base_fee (ucast b) p) \<and> pk_transaction x = t)"
  proof
    assume ?l
    then obtain i x where ix: "(i, x) \<in> set (satisfy_base_fee (ucast b) p)" "pk_transaction x = t"
      by (auto simp: satisfy_base_fee_transactions_def)
    then have "transaction_id t = i" using iff D(2) by blast
    with ix show "\<exists>x. (transaction_id t, x) \<in> set (satisfy_base_fee (ucast b) p) \<and> pk_transaction x = t"
      by blast
  qed (force simp: satisfy_base_fee_transactions_def)
  also have "\<dots> \<longleftrightarrow> ?r"
    unfolding iff lookup tx_sender_id_def by blast
  finally show ?thesis .
qed

end
