(* ===== verification/Pending_Pool.thy ===== *)
theory Pending_Pool
  imports Sub_Pool "HOL-Library.Product_Lexorder"
begin

text \<open>
  \<open>pool/pending.rs\<close>: the transactions that are ready for the next block. The pool keeps the
  transactions by identifier together with, per sender, the one with the highest nonce and the
  independent one. The broadcast channel for new transactions is not part of the state; who listens
  to it sees the transactions passed to \<open>pd_add_transaction\<close>.

  Shown: the invariant (the highest nonces are exact, the independent transactions are in the pool,
  the tracked size is the sum of the sizes) is kept by all operations; the fee updates remove
  exactly the transactions that are too cheap or follow such a one; and truncation ends, never
  subtracts below zero, spares local transactions in its first phase and reaches the limit.
\<close>

section \<open>Data\<close>

text \<open>\<open>ordering\<close> is the \<open>TransactionOrdering\<close> the pool is generic in.\<close>

record pending_tx =
  pd_tx_submission_id :: u64
  pd_transaction :: valid_pool_tx
  priority :: Priority

record pending_pool =
  ordering :: "pool_transaction \<Rightarrow> u64 \<Rightarrow> Priority"
  pd_submission_id :: u64
  pd_by_id :: "(TransactionId, pending_tx) bmap"
  highest_nonces :: "(SenderId, pending_tx) bmap"
  independent_transactions :: "(SenderId, pending_tx) bmap"
  pd_size_of :: SizeTracker

definition unlocks :: "pending_tx \<Rightarrow> TransactionId" where
  "unlocks x = descendant (transaction_id (pd_transaction x))"

text \<open>
  The order of pending transactions: by priority, and among equal ones the earlier submission is
  the greater one.
\<close>

definition pending_key :: "pending_tx \<Rightarrow> Priority \<times> u64" where
  "pending_key x = (priority x, max_of - pd_tx_submission_id x)"

section \<open>Operations\<close>

definition new_pending_pool :: "(pool_transaction \<Rightarrow> u64 \<Rightarrow> Priority) \<Rightarrow> pending_pool" where
  "new_pending_pool ord =
     \<lparr>ordering = ord, pd_submission_id = 0, pd_by_id = [], highest_nonces = [],
      independent_transactions = [], pd_size_of = 0\<rparr>"

definition clear_transactions :: "pending_pool \<Rightarrow> pending_pool \<times> (TransactionId, pending_tx) bmap" where
  "clear_transactions p =
     (p\<lparr>independent_transactions := [], highest_nonces := [], pd_size_of := size_reset, pd_by_id := []\<rparr>,
      pd_by_id p)"

definition update_highest :: "pending_tx \<Rightarrow> (SenderId, pending_tx) bmap \<Rightarrow> (SenderId, pending_tx) bmap" where
  "update_highest x m =
     (case map_of m (tx_sender_id (pd_transaction x)) of
        None \<Rightarrow> bins (tx_sender_id (pd_transaction x)) x m
      | Some y \<Rightarrow>
          (if tx_nonce (pd_transaction y) < tx_nonce (pd_transaction x)
           then bins (tx_sender_id (pd_transaction x)) x m else m))"

definition update_independent :: "pending_tx \<Rightarrow> (SenderId, pending_tx) bmap \<Rightarrow> (SenderId, pending_tx) bmap" where
  "update_independent x m =
     (case map_of m (tx_sender_id (pd_transaction x)) of
        None \<Rightarrow> bins (tx_sender_id (pd_transaction x)) x m
      | Some y \<Rightarrow>
          (if tx_nonce (pd_transaction x) < tx_nonce (pd_transaction y)
           then bins (tx_sender_id (pd_transaction x)) x m else m))"

definition update_independents_and_highest_nonces :: "pending_tx \<Rightarrow> pending_pool \<Rightarrow> pending_pool" where
  "update_independents_and_highest_nonces x p =
     p\<lparr>highest_nonces := update_highest x (highest_nonces p),
       independent_transactions := update_independent x (independent_transactions p)\<rparr>"

definition pd_next_id :: "pending_pool \<Rightarrow> u64 \<times> pending_pool" where
  "pd_next_id p = (pd_submission_id p, p\<lparr>pd_submission_id := pd_submission_id p + 1\<rparr>)"

definition pd_add_transaction :: "valid_pool_tx \<Rightarrow> u64 \<Rightarrow> pending_pool \<Rightarrow> pending_pool" where
  "pd_add_transaction t base_fee p =
     (let p1 = p\<lparr>pd_size_of := size_add (pd_size_of p) (tx_size t)\<rparr>;
          (submission, p2) = pd_next_id p1;
          x = \<lparr>pd_tx_submission_id = submission, pd_transaction = t,
               priority = ordering p2 (vp_transaction t) base_fee\<rparr>;
          p3 = update_independents_and_highest_nonces x p2
      in p3\<lparr>pd_by_id := bins (transaction_id t) x (pd_by_id p3)\<rparr>)"

text \<open>Putting a transaction back while the pool is rebuilt for a new fee.\<close>

definition reinsert :: "TransactionId \<times> pending_tx \<Rightarrow> pending_pool \<Rightarrow> pending_pool" where
  "reinsert e p =
     (let p1 = p\<lparr>pd_size_of := size_add (pd_size_of p) (tx_size (pd_transaction (snd e)))\<rparr>;
          p2 = update_independents_and_highest_nonces (snd e) p1
      in p2\<lparr>pd_by_id := bins (fst e) (snd e) (pd_by_id p2)\<rparr>)"

definition below_blob_fee :: "u128 \<Rightarrow> valid_pool_tx \<Rightarrow> bool" where
  "below_blob_fee blob_fee t \<longleftrightarrow>
     is_eip4844 t \<and> (case max_fee_per_blob_gas t of None \<Rightarrow> True | Some f \<Rightarrow> f < blob_fee)"

definition pd_update_blob_fee :: "u128 \<Rightarrow> pending_pool \<Rightarrow> pending_pool \<times> valid_pool_tx list" where
  "pd_update_blob_fee blob_fee p =
     (let (p1, txs) = clear_transactions p;
          bad = (\<lambda>e. below_blob_fee blob_fee (pd_transaction (snd e)));
          p2 = fold reinsert (scan_kept (\<lambda>e. sender (fst e)) bad txs) p1
      in (p2, map (pd_transaction \<circ> snd) (scan_removed (\<lambda>e. sender (fst e)) bad txs)))"

definition pd_update_base_fee :: "u64 \<Rightarrow> pending_pool \<Rightarrow> pending_pool \<times> valid_pool_tx list" where
  "pd_update_base_fee base_fee p =
     (let (p1, txs) = clear_transactions p;
          bad = (\<lambda>e. max_fee_per_gas (pd_transaction (snd e)) < ucast base_fee);
          prio = (\<lambda>e. (fst e, (snd e)\<lparr>priority :=
                    ordering p (vp_transaction (pd_transaction (snd e))) base_fee\<rparr>));
          p2 = fold reinsert (map prio (scan_kept (\<lambda>e. sender (fst e)) bad txs)) p1
      in (p2, map (pd_transaction \<circ> snd) (scan_removed (\<lambda>e. sender (fst e)) bad txs)))"

definition unlock_next :: "TransactionId \<Rightarrow> pending_pool \<Rightarrow> pending_pool" where
  "unlock_next i p =
     (case map_of (independent_transactions p) (sender i) of
        None \<Rightarrow> p
      | Some lowest \<Rightarrow>
          (if tx_nonce (pd_transaction lowest) = nonce i
           then (case map_of (pd_by_id p) (descendant i) of
                   None \<Rightarrow>
                     p\<lparr>independent_transactions := bdel (sender i) (independent_transactions p)\<rparr>
                 | Some unlocked \<Rightarrow>
                     p\<lparr>independent_transactions :=
                         bins (sender i) unlocked
                           (bdel (sender i) (independent_transactions p))\<rparr>)
           else p))"

definition lower_highest :: "TransactionId \<Rightarrow> pending_pool \<Rightarrow> pending_pool" where
  "lower_highest i p =
     (case map_of (highest_nonces p) (sender i) of
        None \<Rightarrow> p
      | Some y \<Rightarrow>
          (if tx_nonce (pd_transaction y) = nonce i
           then (case last_opt (sender_range (sender i) (pd_by_id p)) of
                   Some e \<Rightarrow> p\<lparr>highest_nonces := bins (sender i) (snd e) (highest_nonces p)\<rparr>
                 | None \<Rightarrow> p\<lparr>highest_nonces := bdel (sender i) (highest_nonces p)\<rparr>)
           else p))"

definition pd_remove_transaction ::
    "TransactionId \<Rightarrow> pending_pool \<Rightarrow> pending_pool \<times> valid_pool_tx option" where
  "pd_remove_transaction i p =
     (let p1 = unlock_next i p
      in case map_of (pd_by_id p1) i of
           None \<Rightarrow> (p1, None)
         | Some x \<Rightarrow>
             (lower_highest i
                (p1\<lparr>pd_by_id := bdel i (pd_by_id p1),
                    pd_size_of := size_sub (pd_size_of p1) (tx_size (pd_transaction x))\<rparr>),
              Some (pd_transaction x)))"

definition pd_all :: "pending_pool \<Rightarrow> valid_pool_tx list" where
  "pd_all p = map (pd_transaction \<circ> snd) (pd_by_id p)"

definition pd_len :: "pending_pool \<Rightarrow> nat" where
  "pd_len p = length (pd_by_id p)"

definition pd_size :: "pending_pool \<Rightarrow> usize" where
  "pd_size p = pd_size_of p"

definition pd_exceeds :: "sub_pool_limit \<Rightarrow> pending_pool \<Rightarrow> bool" where
  "pd_exceeds l p = limit_is_exceeded l (pd_len p) (pd_size p)"

definition pd_contains :: "pending_pool \<Rightarrow> TransactionId \<Rightarrow> bool" where
  "pd_contains p i \<longleftrightarrow> map_of (pd_by_id p) i \<noteq> None"

definition pd_get_txs_by_sender :: "pending_pool \<Rightarrow> SenderId \<Rightarrow> TransactionId list" where
  "pd_get_txs_by_sender p s =
     map fst (takeWhile (\<lambda>e. sender (fst e) = s) (bfrom (start_bound s) (pd_by_id p)))"

definition pd_txs_by_sender :: "pending_pool \<Rightarrow> SenderId \<Rightarrow> valid_pool_tx list" where
  "pd_txs_by_sender p s =
     map (pd_transaction \<circ> snd)
       (takeWhile (\<lambda>e. sender (fst e) = s) (bfrom (start_bound s) (pd_by_id p)))"

section \<open>Truncation\<close>

text \<open>
  The counters of \<open>remove_to_limit\<close>: how many senders can still lose a transaction, the senders
  found to be local, and number and size of what is marked for removal. Lengths and counters are
  natural numbers; where the source subtracts, a result below zero is \<open>None\<close>, and the proofs show
  that it does not occur.
\<close>

record removal =
  non_local_senders :: nat
  local_senders :: "SenderId list"
  total_removed :: nat
  removed_size :: usize
  marked :: "TransactionId list"

definition checked_sub :: "nat \<Rightarrow> nat \<Rightarrow> nat option" where
  "checked_sub a b = (if b \<le> a then Some (a - b) else None)"

definition removal_candidates :: "sub_pool_limit \<Rightarrow> nat \<Rightarrow> usize \<Rightarrow> nat \<Rightarrow> nat" where
  "removal_candidates l current_len current_size locals =
     (let excess_txs = current_len - max_txs l;
          avg_tx_size = max (unat current_size div max current_len 1) 1;
          excess_size = unat current_size - unat (max_size l);
          excess_size_txs = (excess_size + avg_tx_size - 1) div avg_tx_size
      in max (max excess_txs excess_size_txs) 1 + locals)"

text \<open>
  Selecting the \<open>k\<close> smallest elements and sorting them is taking the first \<open>k\<close> of the sorted list;
  no two pending transactions compare equal.
\<close>

definition worst_transactions :: "nat \<Rightarrow> pending_pool \<Rightarrow> pending_tx list" where
  "worst_transactions k p = take k (sort_key pending_key (map snd (highest_nonces p)))"

text \<open>One pass over the worst transactions; \<open>True\<close> stands for the early return.\<close>

fun mark_worst ::
    "sub_pool_limit \<Rightarrow> bool \<Rightarrow> nat \<Rightarrow> usize \<Rightarrow> pending_tx list \<Rightarrow> removal \<Rightarrow> bool \<times> removal" where
  "mark_worst l remove_locals len0 size0 [] r = (False, r)"
| "mark_worst l remove_locals len0 size0 (x # xs) r =
     (if \<not> limit_is_exceeded l (len0 - total_removed r) (size0 - removed_size r) \<or>
         non_local_senders r = 0
      then (True, r)
      else if \<not> remove_locals \<and> tx_is_local (pd_transaction x)
      then mark_worst l remove_locals len0 size0 xs
             (if tx_sender_id (pd_transaction x) \<in> set (local_senders r) then r
              else r\<lparr>local_senders := tx_sender_id (pd_transaction x) # local_senders r,
                     non_local_senders := non_local_senders r - 1\<rparr>)
      else mark_worst l remove_locals len0 size0 xs
             (r\<lparr>removed_size := removed_size r + tx_size (pd_transaction x),
                total_removed := total_removed r + 1,
                marked := marked r @ [transaction_id (pd_transaction x)]\<rparr>))"

definition pd_remove ::
    "TransactionId \<Rightarrow> pending_pool \<Rightarrow> (pending_pool \<times> valid_pool_tx option) option" where
  "pd_remove i p = Some (pd_remove_transaction i p)"

partial_function (option) remove_loop ::
    "sub_pool_limit \<Rightarrow> bool \<Rightarrow> nat \<Rightarrow> usize \<Rightarrow> nat \<Rightarrow> removal \<Rightarrow> pending_pool \<Rightarrow>
     (pending_pool \<times> valid_pool_tx list) option" where
  "remove_loop l remove_locals len0 size0 unique_senders r p =
     do { unique_removed \<leftarrow> checked_sub unique_senders (length (highest_nonces p));
          senders \<leftarrow> checked_sub (non_local_senders r) unique_removed;
          current_len \<leftarrow> checked_sub len0 (total_removed r);
          (let k = removal_candidates l current_len (size0 - removed_size r) (length (local_senders r));
               (early, r1) = mark_worst l remove_locals len0 size0 (worst_transactions k p)
                               (r\<lparr>non_local_senders := senders, marked := []\<rparr>)
           in do { (p1, ts1) \<leftarrow> remove_each pd_remove (marked r1) p;
                   (if early \<or> \<not> pd_exceeds l p1 \<or> non_local_senders r1 = 0
                    then Some (p1, ts1)
                    else do { (p2, ts2) \<leftarrow>
                                remove_loop l remove_locals len0 size0 (length (highest_nonces p)) r1 p1;
                              Some (p2, ts1 @ ts2) }) }) }"

declare remove_loop.simps [code]

definition remove_to_limit ::
    "sub_pool_limit \<Rightarrow> bool \<Rightarrow> pending_pool \<Rightarrow> (pending_pool \<times> valid_pool_tx list) option" where
  "remove_to_limit l remove_locals p =
     remove_loop l remove_locals (pd_len p) (pd_size p) (length (highest_nonces p))
       \<lparr>non_local_senders = length (highest_nonces p), local_senders = [], total_removed = 0,
        removed_size = 0, marked = []\<rparr> p"

definition pd_truncate_pool ::
    "sub_pool_limit \<Rightarrow> pending_pool \<Rightarrow> (pending_pool \<times> valid_pool_tx list) option" where
  "pd_truncate_pool l p =
     (if \<not> pd_exceeds l p then Some (p, [])
      else do { (p1, ts1) \<leftarrow> remove_to_limit l False p;
                (if \<not> pd_exceeds l p1 then Some (p1, ts1)
                 else do { (p2, ts2) \<leftarrow> remove_to_limit l True p1; Some (p2, ts1 @ ts2) }) })"

section \<open>The invariant\<close>

definition pd_entries :: "pending_pool \<Rightarrow> entries" where
  "pd_entries p = bvals_map pd_transaction (pd_by_id p)"

definition is_highest :: "(TransactionId, pending_tx) bmap \<Rightarrow> SenderId \<Rightarrow> pending_tx \<Rightarrow> bool" where
  "is_highest m s x \<longleftrightarrow>
     (\<exists>i. map_of m i = Some x \<and> sender i = s \<and>
        (\<forall>j. map_of m j \<noteq> None \<longrightarrow> sender j = s \<longrightarrow> nonce j \<le> nonce i))"

text \<open>The maps, apart from the size: they only depend on the transactions by identifier.\<close>

definition pd_maps_ok ::
    "(TransactionId, pending_tx) bmap \<Rightarrow> (SenderId, pending_tx) bmap \<Rightarrow> (SenderId, pending_tx) bmap \<Rightarrow> bool" where
  "pd_maps_ok m hi ind \<longleftrightarrow>
     bsorted m \<and> bsorted hi \<and> bsorted ind \<and>
     (\<forall>i x. map_of m i = Some x \<longrightarrow>
        transaction_id (pd_transaction x) = i \<and> nonce_matches (pd_transaction x)) \<and>
     (\<forall>s x. map_of hi s = Some x \<longleftrightarrow> is_highest m s x) \<and>
     (\<forall>s x. map_of ind s = Some x \<longrightarrow>
        tx_sender_id (pd_transaction x) = s \<and> map_of m (transaction_id (pd_transaction x)) = Some x)"

definition pd_inv :: "pending_pool \<Rightarrow> bool" where
  "pd_inv p \<longleftrightarrow>
     pd_maps_ok (pd_by_id p) (highest_nonces p) (independent_transactions p) \<and>
     pd_size_of p = total_size (pd_entries p) \<and>
     (\<forall>i x. map_of (pd_by_id p) i = Some x \<longrightarrow> pd_tx_submission_id x < pd_submission_id p) \<and>
     (\<forall>i j x y. map_of (pd_by_id p) i = Some x \<longrightarrow> map_of (pd_by_id p) j = Some y \<longrightarrow>
        pd_tx_submission_id x = pd_tx_submission_id y \<longrightarrow> i = j)"

definition pd_room :: "pending_pool \<Rightarrow> nat" where
  "pd_room p = submissions_left (pd_submission_id p)"

lemma is_highest_unique: "is_highest m s x \<Longrightarrow> is_highest m s y \<Longrightarrow> x = y"
  unfolding is_highest_def
  by (metis TransactionId.expand option.distinct(1) option.inject order.antisym)

lemma last_range_highest:
  assumes "bsorted m" and "last_opt (sender_range s m) = Some e"
  shows "is_highest m s (snd e)"
proof -
  note max = last_sender_range [OF assms]
  have "map_of m (fst e) = Some (snd e)" using max(1) assms(1) by (simp flip: in_set_map_of)
  moreover have "nonce j \<le> nonce (fst e)" if "map_of m j = Some y" "sender j = s" for j y
    using max(3) [of "(j, y)"] that assms(1) by (simp add: in_set_map_of)
  ultimately show ?thesis
    using max(2) by (auto simp: is_highest_def)
qed

lemma is_highest_ex:
  assumes "bsorted m" and "map_of m i \<noteq> None"
  obtains x where "is_highest m (sender i) x"
proof -
  obtain y where "(i, y) \<in> set (sender_range (sender i) m)"
    using assms by (auto simp: sender_range_filter in_set_map_of)
  then obtain e where "last_opt (sender_range (sender i) m) = Some e"
    by (cases "last_opt (sender_range (sender i) m)") auto
  from that [OF last_range_highest [OF assms(1) this]] show thesis .
qed

lemma sender_range_present:
  assumes "map_of m j = Some y"
  shows "last_opt (sender_range (sender j) m) \<noteq> None"
proof -
  have "(j, y) \<in> set (sender_range (sender j) m)"
    using map_of_SomeD [OF assms] by (simp add: sender_range_filter)
  then show ?thesis by auto
qed

lemma last_range_None:
  assumes "last_opt (sender_range s m) = None"
  shows "\<not> is_highest m s x"
proof
  assume "is_highest m s x"
  then obtain i where "map_of m i = Some x" "sender i = s" by (auto simp: is_highest_def)
  then have "(i, x) \<in> set (sender_range s m)" by (simp add: sender_range_filter map_of_SomeD)
  then show False using assms by simp
qed

lemma is_highestI:
  assumes "map_of m i = Some x"
    and "\<And>j y. map_of m j = Some y \<Longrightarrow> sender j = sender i \<Longrightarrow> nonce j \<le> nonce i"
  shows "is_highest m (sender i) x"
  using assms by (auto simp: is_highest_def)

lemma is_highestE:
  assumes "is_highest m s x"
  obtains i where "map_of m i = Some x" and "sender i = s"
    and "\<And>j y. map_of m j = Some y \<Longrightarrow> sender j = s \<Longrightarrow> nonce j \<le> nonce i"
  using assms by (auto simp: is_highest_def)

text \<open>A map holds the highest nonces if its values are highest and no sender is missing.\<close>

lemma highest_exact:
  assumes "bsorted m" and "\<And>s x. map_of hi s = Some x \<Longrightarrow> is_highest m s x"
    and "\<And>i x. map_of m i = Some x \<Longrightarrow> map_of hi (sender i) \<noteq> None"
  shows "map_of hi s = Some x \<longleftrightarrow> is_highest m s x"
proof
  assume hx: "is_highest m s x"
  then obtain i where "map_of m i = Some x" "sender i = s" by (rule is_highestE)
  with assms(3) obtain y where "map_of hi s = Some y" by blast
  with assms(2) [of s y] hx show "map_of hi s = Some x"
    using is_highest_unique by metis
qed (rule assms(2))

lemma pd_maps_okD:
  assumes "pd_maps_ok m hi ind"
  shows "bsorted m" and "bsorted hi" and "bsorted ind"
    and "map_of m i = Some x \<Longrightarrow> transaction_id (pd_transaction x) = i \<and> tx_sender_id (pd_transaction x) = sender i \<and>
           tx_nonce (pd_transaction x) = nonce i"
    and "map_of hi s = Some x \<longleftrightarrow> is_highest m s x"
    and "map_of ind s = Some x \<Longrightarrow>
           tx_sender_id (pd_transaction x) = s \<and> map_of m (transaction_id (pd_transaction x)) = Some x"
  using assms unfolding pd_maps_ok_def by (auto simp: tx_sender_id_def nonce_matches_def)

lemma highest_present:
  assumes "pd_maps_ok m hi ind" and "map_of m i = Some x"
  obtains y where "map_of hi (sender i) = Some y"
  using is_highest_ex [of m i] pd_maps_okD(1,5) [OF assms(1)] assms(2) by auto

lemma update_highest_ok:
  assumes ok: "pd_maps_ok m hi ind" and new: "map_of m i = None"
    and i: "transaction_id (pd_transaction x) = i" and nm: "nonce_matches (pd_transaction x)"
  shows "map_of (update_highest x hi) s = Some y \<longleftrightarrow> is_highest (bins i x m) s y"
proof (rule highest_exact)
  note D = pd_maps_okD [OF ok]
  have xs: "tx_sender_id (pd_transaction x) = sender i" "tx_nonce (pd_transaction x) = nonce i"
    using i nm by (auto simp: tx_sender_id_def nonce_matches_def)
  show "bsorted (bins i x m)" using D(1) by (rule bsorted_bins)
  show "map_of (update_highest x hi) (sender j) \<noteq> None" if "map_of (bins i x m) j = Some z" for j z
    using that highest_present [OF ok, of j z]
    by (cases "map_of hi (sender i)") (auto simp: update_highest_def xs map_of_bins split: if_splits)
  fix s y assume hy: "map_of (update_highest x hi) s = Some y"
  show "is_highest (bins i x m) s y"
  proof (cases "map_of hi s = Some y \<and> (s = sender i \<longrightarrow> nonce i \<le> tx_nonce (pd_transaction y))")
    case True
    then have "is_highest m s y" using D(5) by simp
    then obtain k where k: "map_of m k = Some y" "sender k = s"
      "\<And>j y. map_of m j = Some y \<Longrightarrow> sender j = s \<Longrightarrow> nonce j \<le> nonce k" by (rule is_highestE) blast
    have "is_highest (bins i x m) (sender k) y"
    proof (rule is_highestI)
      show "map_of (bins i x m) k = Some y" using k(1) new by (auto simp: map_of_bins)
    qed (use k True D(4) [OF k(1)] in \<open>auto simp: map_of_bins split: if_splits\<close>)
    with k(2) show ?thesis by simp
  next
    case False
    have sy: "s = sender i \<and> y = x"
      using hy False by (auto simp: update_highest_def xs map_of_bins split: option.splits if_splits)
    have "nonce j \<le> nonce i" if j: "map_of m j = Some z" "sender j = sender i" for j z
    proof -
      obtain w where w: "map_of hi (sender i) = Some w" using highest_present [OF ok j(1)] j(2) by auto
      then have "is_highest m (sender i) w" using D(5) by simp
      then obtain k where k: "map_of m k = Some w"
        "\<And>j y. map_of m j = Some y \<Longrightarrow> sender j = sender i \<Longrightarrow> nonce j \<le> nonce k" by (rule is_highestE) blast
      have "nonce k \<le> nonce i"
        using hy False sy w D(4) [OF k(1)]
        by (auto simp: update_highest_def xs map_of_bins split: if_splits)
      then show ?thesis using k(2) [OF j] by simp
    qed
    then have "is_highest (bins i x m) (sender i) x"
      by (intro is_highestI) (auto simp: map_of_bins split: if_splits)
    with sy show ?thesis by simp
  qed
qed

lemma pd_maps_insert:
  assumes ok: "pd_maps_ok m hi ind" and new: "map_of m i = None"
    and i: "transaction_id (pd_transaction x) = i" and nm: "nonce_matches (pd_transaction x)"
  shows "pd_maps_ok (bins i x m) (update_highest x hi) (update_independent x ind)"
proof -
  note D = pd_maps_okD [OF ok]
  have "bsorted (update_highest x hi)" "bsorted (update_independent x ind)"
    using D(2,3) by (auto simp: update_highest_def update_independent_def bsorted_bins split: option.splits)
  moreover have "tx_sender_id (pd_transaction y) = s \<and>
      map_of (bins i x m) (transaction_id (pd_transaction y)) = Some y"
    if "map_of (update_independent x ind) s = Some y" for s y
    using that D(6) [of s y] new i
    by (auto simp: update_independent_def tx_sender_id_def map_of_bins split: option.splits if_splits)
  ultimately show ?thesis
    using update_highest_ok [OF assms] D(1,4) ok i nm
    unfolding pd_maps_ok_def by (auto simp: bmap_simps)
qed

lemma unlock_next_fields [simp]:
  "pd_by_id (unlock_next i p) = pd_by_id p" "highest_nonces (unlock_next i p) = highest_nonces p"
  "pd_size_of (unlock_next i p) = pd_size_of p" "pd_submission_id (unlock_next i p) = pd_submission_id p"
  "ordering (unlock_next i p) = ordering p"
  by (auto simp: unlock_next_def split: option.splits)

lemma lower_highest_fields [simp]:
  "pd_by_id (lower_highest i p) = pd_by_id p"
  "independent_transactions (lower_highest i p) = independent_transactions p"
  "pd_size_of (lower_highest i p) = pd_size_of p" "pd_submission_id (lower_highest i p) = pd_submission_id p"
  "ordering (lower_highest i p) = ordering p"
  by (auto simp: lower_highest_def split: option.splits)

lemma descendant_neq: "descendant i \<noteq> i" "sender (descendant i) = sender i"
  by (cases i; simp add: descendant_def next_nonce_def)+

lemma unlock_next_ok:
  assumes ok: "pd_maps_ok (pd_by_id p) (highest_nonces p) (independent_transactions p)"
    and y: "map_of (independent_transactions (unlock_next i p)) s = Some y"
  shows "tx_sender_id (pd_transaction y) = s \<and>
    map_of (bdel i (pd_by_id p)) (transaction_id (pd_transaction y)) = Some y"
proof -
  note D = pd_maps_okD [OF ok]
  show ?thesis
  proof (cases "map_of (independent_transactions p) s = Some y")
    case True
    note ind = D(6) [OF this]
    then have n: "tx_nonce (pd_transaction y) = nonce (transaction_id (pd_transaction y))"
      using D(4) by blast
    have "transaction_id (pd_transaction y) \<noteq> i"
    proof
      assume "transaction_id (pd_transaction y) = i"
      then have "s = sender i" "tx_nonce (pd_transaction y) = nonce i"
        using ind n by (auto simp: tx_sender_id_def)
      then show False
        using y True ind D(4) [of "descendant i" y] descendant_neq [of i]
        by (auto simp: unlock_next_def map_of_bins map_of_bdel \<open>transaction_id (pd_transaction y) = i\<close>
            split: option.splits)
    qed
    then show ?thesis using ind by (simp add: map_of_bdel)
  next
    case False
    have "s = sender i \<and> map_of (pd_by_id p) (descendant i) = Some y"
      using y False by (auto simp: unlock_next_def map_of_bins map_of_bdel split: option.splits if_splits)
    then show ?thesis using D(4) [of "descendant i" y] descendant_neq by (simp add: map_of_bdel)
  qed
qed

lemma lower_highest_ok:
  assumes ok: "pd_maps_ok m hi ind" and x: "map_of m i = Some x"
    and p: "pd_by_id p = bdel i m" "highest_nonces p = hi"
  shows "map_of (highest_nonces (lower_highest i p)) s = Some y \<longleftrightarrow> is_highest (bdel i m) s y"
proof (rule highest_exact)
  note D = pd_maps_okD [OF ok]
  show sm: "bsorted (bdel i m)" using D(1) by (rule bsorted_bdel)
  obtain z where z: "map_of hi (sender i) = Some z" by (rule highest_present [OF ok x])
  then have "is_highest m (sender i) z" using D(5) by simp
  then obtain k where k: "map_of m k = Some z" "sender k = sender i"
    "\<And>j y. map_of m j = Some y \<Longrightarrow> sender j = sender i \<Longrightarrow> nonce j \<le> nonce k" by (rule is_highestE) blast
  have zk: "tx_nonce (pd_transaction z) = nonce i \<longleftrightarrow> k = i"
    using D(4) [OF k(1)] k(2) by (auto intro: TransactionId.expand)
  have keep: "is_highest (bdel i m) s y" if h: "map_of hi s = Some y" "s = sender i \<longrightarrow> k \<noteq> i" for s y
  proof -
    have "is_highest m s y" using h D(5) by simp
    then obtain k' where k': "map_of m k' = Some y" "sender k' = s"
      "\<And>j y. map_of m j = Some y \<Longrightarrow> sender j = s \<Longrightarrow> nonce j \<le> nonce k'" by (rule is_highestE) blast
    have "k' \<noteq> i"
    proof
      assume "k' = i"
      then have "nonce k = nonce i" using k'(3) [of k z] k k'(1,2) by (auto intro: order.antisym)
      then have "k = i" using k(2) by (auto intro: TransactionId.expand)
      then show False using h(2) k'(2) \<open>k' = i\<close> by simp
    qed
    then have "is_highest (bdel i m) (sender k') y"
      using k' by (intro is_highestI) (auto simp: map_of_bdel split: if_splits)
    then show ?thesis using k'(2) by simp
  qed
  show "is_highest (bdel i m) s y" if "map_of (highest_nonces (lower_highest i p)) s = Some y" for s y
    using that keep [of s y] last_range_highest [OF sm, of "sender i"] z zk
    by (auto simp: lower_highest_def p bmap_simps split: option.splits if_splits)
  show "map_of (highest_nonces (lower_highest i p)) (sender j) \<noteq> None"
    if j: "map_of (bdel i m) j = Some y" for j y
  proof -
    obtain w where "map_of hi (sender j) = Some w"
      using j highest_present [OF ok, of j] by (auto simp: map_of_bdel split: if_splits)
    moreover have "last_opt (sender_range (sender i) (bdel i m)) \<noteq> None" if "sender j = sender i"
      using sender_range_present [OF j] that by simp
    ultimately show ?thesis
      using z by (auto simp: lower_highest_def p bmap_simps split: option.splits)
  qed
qed

lemma pd_invD:
  assumes "pd_inv p"
  shows "pd_maps_ok (pd_by_id p) (highest_nonces p) (independent_transactions p)"
    and "pd_size_of p = total_size (pd_entries p)"
    and "map_of (pd_by_id p) i = Some x \<Longrightarrow> pd_tx_submission_id x < pd_submission_id p"
    and "map_of (pd_by_id p) i = Some x \<Longrightarrow> map_of (pd_by_id p) j = Some y \<Longrightarrow>
           pd_tx_submission_id x = pd_tx_submission_id y \<Longrightarrow> i = j"
    and "bsorted (pd_by_id p)" and "bsorted (pd_entries p)"
  using assms unfolding pd_inv_def pd_maps_ok_def pd_entries_def map_fst_bvals_map by blast+

lemma pd_invI:
  assumes "pd_maps_ok (pd_by_id p) (highest_nonces p) (independent_transactions p)"
    and "pd_size_of p = total_size (pd_entries p)"
    and "\<And>i x. map_of (pd_by_id p) i = Some x \<Longrightarrow> pd_tx_submission_id x < pd_submission_id p"
    and "\<And>i j x y. map_of (pd_by_id p) i = Some x \<Longrightarrow> map_of (pd_by_id p) j = Some y \<Longrightarrow>
           pd_tx_submission_id x = pd_tx_submission_id y \<Longrightarrow> i = j"
  shows "pd_inv p"
  using assms unfolding pd_inv_def by blast

lemma pd_maps_ok_empty: "pd_maps_ok [] [] []"
  by (simp add: pd_maps_ok_def is_highest_def)

lemma pd_inv_new: "pd_inv (new_pending_pool ord)"
  by (rule pd_invI) (auto simp: new_pending_pool_def pd_maps_ok_empty pd_entries_def bvals_map_def total_size_def)

lemma map_of_pd_entries: "map_of (pd_entries p) i = map_option pd_transaction (map_of (pd_by_id p) i)"
  by (simp add: pd_entries_def map_of_bvals_map)

lemma pd_add_fields:
  defines "pending p b t \<equiv> \<lparr>pd_tx_submission_id = pd_submission_id p, pd_transaction = t,
               priority = ordering p (vp_transaction t) b\<rparr>"
  shows "pd_by_id (pd_add_transaction t b p) = bins (transaction_id t) (pending p b t) (pd_by_id p)"
    and "highest_nonces (pd_add_transaction t b p) = update_highest (pending p b t) (highest_nonces p)"
    and "independent_transactions (pd_add_transaction t b p) =
           update_independent (pending p b t) (independent_transactions p)"
    and "pd_submission_id (pd_add_transaction t b p) = pd_submission_id p + 1"
    and "pd_size_of (pd_add_transaction t b p) = pd_size_of p + tx_size t"
    and "pd_entries (pd_add_transaction t b p) = bins (transaction_id t) t (pd_entries p)"
    and "ordering (pd_add_transaction t b p) = ordering p"
  by (simp_all add: pd_add_transaction_def pd_next_id_def update_independents_and_highest_nonces_def
      Let_def size_add_def pd_entries_def bvals_map_bins assms)

lemma pd_add_law:
  assumes inv: "pd_inv p" and new: "map_of (pd_entries p) (transaction_id t) = None"
    and nm: "nonce_matches t" and room: "0 < pd_room p"
  shows "pd_inv (pd_add_transaction t b p)" and "pd_room (pd_add_transaction t b p) = pd_room p - 1"
proof -
  note D = pd_invD [OF inv]
  have c: "pd_submission_id p \<noteq> max_of"
    and left: "submissions_left (pd_submission_id p + 1) = submissions_left (pd_submission_id p) - 1"
    using submissions_left_succ room by (auto simp: pd_room_def)
  show "pd_room (pd_add_transaction t b p) = pd_room p - 1"
    using left by (simp add: pd_room_def pd_add_fields)
  have None: "map_of (pd_by_id p) (transaction_id t) = None"
    using new by (simp add: map_of_pd_entries)
  have below: "map_of (pd_by_id p) i = Some x \<Longrightarrow>
      pd_tx_submission_id x < pd_submission_id p + 1 \<and> pd_tx_submission_id x \<noteq> pd_submission_id p" for i x
    using D(3) [of i x] c by (auto intro: word_less_succ)
  show "pd_inv (pd_add_transaction t b p)"
  proof (rule pd_invI, goal_cases)
    case 1 then show ?case
      unfolding pd_add_fields by (rule pd_maps_insert [OF D(1) None]) (simp_all add: nm)
  next
    case 2 then show ?case using new D(2) by (simp add: pd_add_fields total_size_bins)
  next
    case (3 i x) then show ?case
      using below [of i x] c by (auto simp: pd_add_fields map_of_bins word_self_less_succ split: if_splits)
  next
    case (4 i j x y)
    have other: "map_of (pd_by_id p) k = Some z" if "map_of (pd_by_id (pd_add_transaction t b p)) k = Some z"
      "k \<noteq> transaction_id t" for k z using that by (simp add: pd_add_fields map_of_bins)
    have new: "pd_tx_submission_id z = pd_submission_id p"
      if "map_of (pd_by_id (pd_add_transaction t b p)) (transaction_id t) = Some z" for z
      using that by (auto simp: pd_add_fields map_of_bins)
    consider "i = transaction_id t" "j = transaction_id t" | "i = transaction_id t" "j \<noteq> transaction_id t"
      | "i \<noteq> transaction_id t" "j = transaction_id t" | "i \<noteq> transaction_id t" "j \<noteq> transaction_id t"
      by blast
    then show ?case
    proof cases
      case 2 then show ?thesis using 4 new [of x] below [OF other [OF 4(2)]] by auto
    next
      case 3 then show ?thesis using 4 new [of y] below [OF other [OF 4(1)]] by auto
    next
      case c: 4 then show ?thesis using D(4) [OF other other] 4 by blast
    qed simp
  qed
qed

lemma pd_remove_fields:
  assumes "pd_inv p"
  shows "pd_entries (fst (pd_remove_transaction i p)) = bdel i (pd_entries p)"
    and "snd (pd_remove_transaction i p) = map_of (pd_entries p) i"
    and "pd_by_id (fst (pd_remove_transaction i p)) = bdel i (pd_by_id p)"
    and "pd_submission_id (fst (pd_remove_transaction i p)) = pd_submission_id p"
    and "ordering (fst (pd_remove_transaction i p)) = ordering p"
  by (auto simp: pd_remove_transaction_def Let_def pd_entries_def bvals_map_bdel map_of_bvals_map
      bdel_id split: option.splits)

lemma unlock_next_absent:
  assumes "pd_maps_ok (pd_by_id p) (highest_nonces p) (independent_transactions p)"
    and "map_of (pd_by_id p) i = None"
  shows "unlock_next i p = p"
proof (cases "map_of (independent_transactions p) (sender i)")
  case (Some x)
  note D = pd_maps_okD [OF assms(1)]
  have "transaction_id (pd_transaction x) \<noteq> i" using D(6) [OF Some] assms(2) by auto
  then have "tx_nonce (pd_transaction x) \<noteq> nonce i"
    using D(6) [OF Some] D(4) [of "transaction_id (pd_transaction x)" x]
    by (auto simp: tx_sender_id_def intro: TransactionId.expand)
  then show ?thesis using Some by (simp add: unlock_next_def)
qed (simp add: unlock_next_def)

lemma pd_remove_law:
  assumes inv: "pd_inv p"
  shows "pd_inv (fst (pd_remove_transaction i p))"
proof (cases "map_of (pd_by_id p) i")
  case None
  then show ?thesis
    using inv unlock_next_absent [OF pd_invD(1) [OF inv] None] by (simp add: pd_remove_transaction_def)
next
  case (Some x)
  note D = pd_invD [OF inv] and M = pd_maps_okD [OF pd_invD(1) [OF inv]]
  define q where "q = (unlock_next i p)\<lparr>pd_by_id := bdel i (pd_by_id p),
    pd_size_of := size_sub (pd_size_of p) (tx_size (pd_transaction x))\<rparr>"
  have r: "fst (pd_remove_transaction i p) = lower_highest i q"
    using Some by (simp add: pd_remove_transaction_def q_def Let_def)
  have q: "pd_by_id q = bdel i (pd_by_id p)" "highest_nonces q = highest_nonces p"
    "independent_transactions q = independent_transactions (unlock_next i p)"
    "pd_submission_id q = pd_submission_id p"
    by (simp_all add: q_def)
  have sorted: "bsorted (highest_nonces (lower_highest i q))" "bsorted (independent_transactions q)"
    using M(2,3) by (auto simp: lower_highest_def unlock_next_def q(2,3) bmap_simps split: option.splits)
  have "pd_maps_ok (bdel i (pd_by_id p)) (highest_nonces (lower_highest i q)) (independent_transactions q)"
    unfolding pd_maps_ok_def
    using sorted M(1,4) D(1) lower_highest_ok [OF D(1) Some q(1,2)] unlock_next_ok [OF D(1), of i] q(3)
    by (auto simp: bmap_simps nonce_matches_def split: if_splits)
  moreover have "pd_size_of q = total_size (bdel i (pd_entries p))"
    using total_size_bdel [OF D(6), of i "pd_transaction x"] Some D(2)
    by (simp add: q_def size_sub_def map_of_pd_entries)
  ultimately show ?thesis
    unfolding r using q D(3,4)
    by (intro pd_invI) (auto simp: pd_entries_def bvals_map_bdel map_of_bdel split: if_splits)
qed

lemma pd_remove_eq:
  "pd_inv p \<Longrightarrow> pd_remove i p = Some (fst (pd_remove_transaction i p), map_of (pd_entries p) i)"
  using pd_remove_fields(2) [of p i] by (simp add: pd_remove_def prod_eq_iff)

interpretation pending: sub_pool pd_inv pd_entries "\<lambda>t p. Some (pd_add_transaction t b p)"
  pd_remove pd_len pd_size pd_room nonce_matches
  for b
proof (unfold_locales, goal_cases)
  case (1 p) then show ?case by (rule pd_invD)
next
  case (2 p i t) then show ?case
    using pd_invD(1) [OF 2(1)] by (auto simp: pd_maps_ok_def map_of_pd_entries)
next
  case (3 p t) then show ?case by (simp add: pd_add_law pd_add_fields)
next
  case (4 p i) then show ?case
    by (simp add: pd_remove_eq pd_remove_law pd_remove_fields pd_room_def)
next
  case (5 p) then show ?case by (simp add: pd_len_def pd_entries_def)
next
  case (6 p) then show ?case by (simp add: pd_size_def pd_invD(2))
qed

section \<open>Fee updates\<close>

lemma fold_reinsert:
  assumes "pd_maps_ok (pd_by_id p) (highest_nonces p) (independent_transactions p)"
    and "pd_size_of p = total_size (pd_entries p)" and "bsorted (pd_by_id p @ xs)"
    and "\<And>i x. (i, x) \<in> set xs \<Longrightarrow> transaction_id (pd_transaction x) = i \<and> nonce_matches (pd_transaction x)"
  defines "q \<equiv> fold reinsert xs p"
  shows "pd_maps_ok (pd_by_id q) (highest_nonces q) (independent_transactions q) \<and>
    pd_size_of q = total_size (pd_entries q) \<and> pd_by_id q = pd_by_id p @ xs \<and>
    pd_submission_id q = pd_submission_id p \<and> ordering q = ordering p"
  using assms(1-4) unfolding q_def
proof (induction xs arbitrary: p)
  case (Cons e xs)
  obtain i x where e: "e = (i, x)" by fastforce
  have x: "transaction_id (pd_transaction x) = i" "nonce_matches (pd_transaction x)"
    using Cons.prems(4) e by auto
  have below: "\<forall>k \<in> fst ` set (pd_by_id p). k < i"
    using Cons.prems(3) by (auto simp: e sorted_wrt_append)
  then have "i \<notin> fst ` set (pd_by_id p)" by blast
  then have new: "map_of (pd_by_id p) i = None" by (simp add: map_of_eq_None_iff)
  define r where "r = reinsert e p"
  have r: "pd_by_id r = bins i x (pd_by_id p)" "highest_nonces r = update_highest x (highest_nonces p)"
    "independent_transactions r = update_independent x (independent_transactions p)"
    "pd_size_of r = pd_size_of p + tx_size (pd_transaction x)"
    "pd_submission_id r = pd_submission_id p" "ordering r = ordering p"
    by (simp_all add: r_def reinsert_def Let_def update_independents_and_highest_nonces_def size_add_def e)
  have "pd_maps_ok (pd_by_id r) (highest_nonces r) (independent_transactions r)"
    unfolding r by (rule pd_maps_insert [OF Cons.prems(1) new x])
  moreover have "pd_size_of r = total_size (pd_entries r)"
    using total_size_bins [of "pd_entries p" "pd_transaction x"] new Cons.prems(2)
    by (simp add: r pd_entries_def bvals_map_bins map_of_bvals_map x(1))
  moreover have "pd_by_id r = pd_by_id p @ [e]"
    using bins_append [OF below] by (simp add: r e)
  ultimately show ?case
    using Cons.IH [of r] Cons.prems(3,4) r(5,6) by (auto simp: r_def)
qed simp

text \<open>Rebuilding the pool from some of its own transactions, with new priorities.\<close>

lemma rebuild_law:
  assumes inv: "pd_inv p" and sorted: "bsorted xs"
    and own: "\<And>i x. (i, x) \<in> set xs \<Longrightarrow> \<exists>y. map_of (pd_by_id p) i = Some y \<and>
       pd_transaction x = pd_transaction y \<and> pd_tx_submission_id x = pd_tx_submission_id y"
  defines "q \<equiv> fold reinsert xs (fst (clear_transactions p))"
  shows "pd_inv q" and "pd_by_id q = xs" and "pd_submission_id q = pd_submission_id p"
    and "ordering q = ordering p"
proof -
  note D = pd_invD [OF inv] and M = pd_maps_okD [OF pd_invD(1) [OF inv]]
  let ?c = "fst (clear_transactions p)"
  have c: "pd_by_id ?c = []" "pd_maps_ok (pd_by_id ?c) (highest_nonces ?c) (independent_transactions ?c)"
    "pd_size_of ?c = total_size (pd_entries ?c)" "pd_submission_id ?c = pd_submission_id p"
    "ordering ?c = ordering p"
    by (simp_all add: clear_transactions_def pd_maps_ok_empty pd_entries_def bvals_map_def total_size_def
        size_reset_def)
  have "transaction_id (pd_transaction x) = i \<and> nonce_matches (pd_transaction x)" if "(i, x) \<in> set xs" for i x
    using own [OF that] M(4) by (auto simp: nonce_matches_def)
  then have q: "pd_maps_ok (pd_by_id q) (highest_nonces q) (independent_transactions q)"
    "pd_size_of q = total_size (pd_entries q)" "pd_by_id q = xs" "pd_submission_id q = pd_submission_id p"
    "ordering q = ordering p"
    using fold_reinsert [OF c(2,3), of xs] sorted unfolding q_def c by auto
  then show "pd_by_id q = xs" and "pd_submission_id q = pd_submission_id p" and "ordering q = ordering p"
    by auto
  show "pd_inv q"
  proof (rule pd_invI [OF q(1,2)], goal_cases)
    case (1 i x)
    then have "(i, x) \<in> set xs" by (simp add: q(3) map_of_SomeD)
    then show ?case using own D(3) q(4) by fastforce
  next
    case (2 i j x y)
    then have "(i, x) \<in> set xs" "(j, y) \<in> set xs" by (simp_all add: q(3) map_of_SomeD)
    then obtain x' y' where "map_of (pd_by_id p) i = Some x'" "map_of (pd_by_id p) j = Some y'"
      "pd_tx_submission_id x' = pd_tx_submission_id y'" using own 2(3) by metis
    then show ?case by (rule D(4))
  qed
qed

text \<open>What the scan takes out of a pool and what it leaves.\<close>

lemma scan_evicts:
  fixes tx :: "'v \<Rightarrow> valid_pool_tx"
  assumes "bsorted m" and own: "\<And>i x. map_of m i = Some x \<Longrightarrow> transaction_id (tx x) = i"
  shows "evicts (bvals_map tx m) (map (tx \<circ> snd) (scan_removed (\<lambda>e. sender (fst e)) bad m))
    (bvals_map tx (scan_kept (\<lambda>e. sender (fst e)) bad m))"
proof -
  let ?rm = "scan_removed (\<lambda>e. sender (fst e)) bad m"
  have in_m: "map_of m (fst e) = Some (snd e)" if "e \<in> set ?rm" for e
    using that scan_partition [of m "\<lambda>e. sender (fst e)" bad] assms(1)
    by (metis UnI1 in_set_map_of prod.collapse)
  have ids: "map transaction_id (map (tx \<circ> snd) ?rm) = map fst ?rm"
    using in_m own by auto
  have "distinct m" using bsorted_distinct [OF assms(1)] by (simp add: distinct_map)
  then have "scan_kept (\<lambda>e. sender (fst e)) bad m = filter (\<lambda>e. e \<notin> set ?rm) m"
    by (rule scan_kept_filter)
  also have "\<dots> = filter (\<lambda>e. fst e \<notin> fst ` set ?rm) m"
  proof (rule filter_cong [OF refl])
    fix e assume e: "e \<in> set m"
    have "e = f" if "f \<in> set ?rm" "fst e = fst f" for f
      using in_m [OF that(1)] that(2) e assms(1) by (simp add: prod_eq_iff flip: in_set_map_of)
        (metis assms(1) in_set_map_of option.inject prod.collapse)
    then show "e \<notin> set ?rm \<longleftrightarrow> fst e \<notin> fst ` set ?rm" by blast
  qed
  finally have kept: "bvals_map tx (scan_kept (\<lambda>e. sender (fst e)) bad m)
      = filter (\<lambda>e. fst e \<notin> set (map fst ?rm)) (bvals_map tx m)"
    by (simp add: bvals_map_def filter_map comp_def)
  have "distinct (map fst ?rm)" by (rule bsorted_distinct [OF sorted_scan_removed [OF assms(1)]])
  moreover have "map_of (bvals_map tx m) (transaction_id t) = Some t" if t: "t \<in> set (map (tx \<circ> snd) ?rm)" for t
  proof -
    obtain e where e: "e \<in> set ?rm" "t = tx (snd e)" using t by auto
    then have "transaction_id t = fst e" using own [OF in_m] by simp
    then show ?thesis using in_m [OF e(1)] e(2) by (simp add: map_of_bvals_map)
  qed
  ultimately show ?thesis
    unfolding evicts_def kept using ids by (metis list.set_map)
qed

lemma scan_kept_own:
  assumes "bsorted m" and "(i, x) \<in> set (scan_kept grp bad m)"
  shows "map_of m i = Some x"
proof -
  have "(i, x) \<in> set m" using assms(2) scan_partition [of m grp bad] by blast
  then show ?thesis using assms(1) by (simp flip: in_set_map_of)
qed

lemma pd_update_blob_fee_law:
  assumes inv: "pd_inv p" and upd: "pd_update_blob_fee f p = (q, ts)"
  shows "pd_inv q" and "evicts (pd_entries p) ts (pd_entries q)" and "pd_room q = pd_room p"
proof -
  note D = pd_invD [OF inv] and M = pd_maps_okD [OF pd_invD(1) [OF inv]]
  let ?bad = "\<lambda>e. below_blob_fee f (pd_transaction (snd e))"
  let ?kept = "scan_kept (\<lambda>e. sender (fst e)) ?bad (pd_by_id p)"
  have q: "q = fold reinsert ?kept (fst (clear_transactions p))"
    "ts = map (pd_transaction \<circ> snd) (scan_removed (\<lambda>e. sender (fst e)) ?bad (pd_by_id p))"
    using upd by (auto simp: pd_update_blob_fee_def clear_transactions_def Let_def)
  have own: "\<exists>y. map_of (pd_by_id p) i = Some y \<and> pd_transaction x = pd_transaction y \<and>
      pd_tx_submission_id x = pd_tx_submission_id y" if "(i, x) \<in> set ?kept" for i x
    using scan_kept_own [OF M(1) that] by simp
  have r: "pd_inv q" "pd_by_id q = ?kept" "pd_submission_id q = pd_submission_id p"
    unfolding q(1) by (rule rebuild_law [OF inv sorted_scan_kept [OF M(1)] own]; assumption)+
  show "pd_inv q" and "pd_room q = pd_room p" using r by (auto simp: pd_room_def)
  show "evicts (pd_entries p) ts (pd_entries q)"
    unfolding pd_entries_def r(2) q(2) using M(4) by (intro scan_evicts [OF M(1)]) blast
qed

lemma pd_update_base_fee_law:
  assumes inv: "pd_inv p" and upd: "pd_update_base_fee f p = (q, ts)"
  shows "pd_inv q" and "evicts (pd_entries p) ts (pd_entries q)" and "pd_room q = pd_room p"
    and "map_of (pd_by_id q) i = Some x \<Longrightarrow> priority x = ordering p (vp_transaction (pd_transaction x)) f"
proof -
  note D = pd_invD [OF inv] and M = pd_maps_okD [OF pd_invD(1) [OF inv]]
  let ?bad = "\<lambda>e. max_fee_per_gas (pd_transaction (snd e)) < ucast f"
  let ?prio = "\<lambda>x. x\<lparr>priority := ordering p (vp_transaction (pd_transaction x)) f\<rparr>"
  let ?kept = "scan_kept (\<lambda>e. sender (fst e)) ?bad (pd_by_id p)"
  have q: "q = fold reinsert (bvals_map ?prio ?kept) (fst (clear_transactions p))"
    "ts = map (pd_transaction \<circ> snd) (scan_removed (\<lambda>e. sender (fst e)) ?bad (pd_by_id p))"
    using upd by (auto simp: pd_update_base_fee_def clear_transactions_def Let_def bvals_map_def)
  have own: "\<exists>y. map_of (pd_by_id p) i = Some y \<and> pd_transaction x = pd_transaction y \<and>
      pd_tx_submission_id x = pd_tx_submission_id y" if ix: "(i, x) \<in> set (bvals_map ?prio ?kept)" for i x
  proof -
    obtain y where y: "(i, y) \<in> set ?kept" "x = ?prio y" using ix by (auto simp: bvals_map_def)
    then show ?thesis using scan_kept_own [OF M(1) y(1)] by simp
  qed
  have sorted: "bsorted (bvals_map ?prio ?kept)"
    using sorted_scan_kept [OF M(1)] by simp
  have r: "pd_inv q" "pd_by_id q = bvals_map ?prio ?kept" "pd_submission_id q = pd_submission_id p"
    unfolding q(1) by (rule rebuild_law [OF inv sorted own]; assumption)+
  show "pd_inv q" and "pd_room q = pd_room p" using r by (auto simp: pd_room_def)
  have "bvals_map pd_transaction (bvals_map ?prio ?kept) = bvals_map pd_transaction ?kept"
    by (simp add: bvals_map_def)
  then show "evicts (pd_entries p) ts (pd_entries q)"
    unfolding pd_entries_def r(2) q(2) using scan_evicts [OF M(1), of pd_transaction] M(4) by simp
  show "priority x = ordering p (vp_transaction (pd_transaction x)) f" if "map_of (pd_by_id q) i = Some x"
    using that by (auto simp: r(2) map_of_bvals_map)
qed

lemma pd_removed_by_scan:
  assumes inv: "pd_inv p"
    and ts: "ts = map (pd_transaction \<circ> snd)
      (scan_removed (\<lambda>e. sender (fst e)) (\<lambda>e. bad (pd_transaction (snd e))) (pd_by_id p))"
  shows "t \<in> set ts \<longleftrightarrow> map_of (pd_entries p) (transaction_id t) = Some t \<and>
    (\<exists>j u. map_of (pd_entries p) j = Some u \<and> sender j = tx_sender_id t \<and>
       nonce j \<le> nonce (transaction_id t) \<and> bad u)"
    (is "?l \<longleftrightarrow> ?r")
proof -
  note M = pd_maps_okD [OF pd_invD(1) [OF inv]]
  let ?rm = "scan_removed (\<lambda>e. sender (fst e)) (\<lambda>e. bad (pd_transaction (snd e))) (pd_by_id p)"
  have iff: "(i, x) \<in> set ?rm \<longleftrightarrow> map_of (pd_by_id p) i = Some x \<and>
      (\<exists>j y. map_of (pd_by_id p) j = Some y \<and> sender j = sender i \<and> nonce j \<le> nonce i \<and> bad (pd_transaction y))"
    for i x
    unfolding scan_removed_iff [OF M(1)] Bex_def split_paired_Ex by (auto simp: in_set_map_of [OF M(1)])
  have "?l \<longleftrightarrow> (\<exists>i x. (i, x) \<in> set ?rm \<and> pd_transaction x = t)"
    unfolding ts by force
  also have "\<dots> \<longleftrightarrow> (\<exists>x. (transaction_id t, x) \<in> set ?rm \<and> pd_transaction x = t)"
    using M(4) unfolding iff by blast
  also have "\<dots> \<longleftrightarrow> ?r"
    unfolding iff map_of_pd_entries tx_sender_id_def map_option_eq_Some by blast
  finally show ?thesis .
qed

section \<open>Truncation reaches the limit\<close>

text \<open>
  One pass marks some of the given transactions: those it passes over are local, and each sender
  found to be local is taken off the number of removable senders.
\<close>

definition marks :: "bool \<Rightarrow> pending_tx list \<Rightarrow> removal \<Rightarrow> removal \<Rightarrow> pending_tx list \<Rightarrow> bool" where
  "marks rl xs r r1 taken \<longleftrightarrow>
     set taken \<subseteq> set xs \<and> distinct (map (tx_sender_id \<circ> pd_transaction) taken) \<and>
     marked r1 = marked r @ map (transaction_id \<circ> pd_transaction) taken \<and>
     total_removed r1 = total_removed r + length taken \<and>
     removed_size r1 = removed_size r + sum_list (map (tx_size \<circ> pd_transaction) taken) \<and>
     non_local_senders r1 + length (local_senders r1) = non_local_senders r + length (local_senders r) \<and>
     length (local_senders r) \<le> length (local_senders r1) \<and> distinct (local_senders r1) \<and>
     set (local_senders r) \<subseteq> set (local_senders r1) \<and>
     (\<forall>s \<in> set (local_senders r1). s \<in> set (local_senders r) \<or>
        (\<not> rl \<and> (\<exists>x \<in> set xs. tx_sender_id (pd_transaction x) = s \<and> tx_is_local (pd_transaction x)))) \<and>
     (\<forall>x \<in> set taken. \<not> rl \<longrightarrow> \<not> tx_is_local (pd_transaction x))"

definition pass_end :: "sub_pool_limit \<Rightarrow> nat \<Rightarrow> usize \<Rightarrow> bool \<Rightarrow> pending_tx list \<Rightarrow> removal \<Rightarrow> pending_tx list \<Rightarrow> bool" where
  "pass_end l len0 size0 early xs r1 taken \<longleftrightarrow>
     (early \<longrightarrow> \<not> limit_is_exceeded l (len0 - total_removed r1) (size0 - removed_size r1) \<or>
        non_local_senders r1 = 0) \<and>
     (\<not> early \<longrightarrow> (\<forall>x \<in> set xs. x \<in> set taken \<or> tx_sender_id (pd_transaction x) \<in> set (local_senders r1)))"

lemma marks_skip:
  assumes "marks False xs r' r1 taken" and "tx_is_local (pd_transaction x)" and "0 < non_local_senders r"
    and "r' = (if tx_sender_id (pd_transaction x) \<in> set (local_senders r) then r
      else r\<lparr>local_senders := tx_sender_id (pd_transaction x) # local_senders r,
             non_local_senders := non_local_senders r - 1\<rparr>)"
  shows "marks False (x # xs) r r1 taken" and "tx_sender_id (pd_transaction x) \<in> set (local_senders r1)"
  using assms by (auto simp: marks_def split: if_splits)

lemma marks_take:
  assumes "marks rl xs (r\<lparr>removed_size := removed_size r + tx_size (pd_transaction x),
        total_removed := total_removed r + 1,
        marked := marked r @ [transaction_id (pd_transaction x)]\<rparr>) r1 taken"
    and "rl \<or> \<not> tx_is_local (pd_transaction x)"
    and "tx_sender_id (pd_transaction x) \<notin> set (map (tx_sender_id \<circ> pd_transaction) xs)"
  shows "marks rl (x # xs) r r1 (x # taken)"
  using assms by (auto simp: marks_def)

lemma mark_worst_law:
  assumes "mark_worst l rl len0 size0 xs r = (early, r1)"
    and "distinct (map (tx_sender_id \<circ> pd_transaction) xs)" and "distinct (local_senders r)"
  shows "\<exists>taken. marks rl xs r r1 taken \<and> pass_end l len0 size0 early xs r1 taken"
  using assms
proof (induction xs arbitrary: r)
  case Nil
  then show ?case by (auto simp: marks_def pass_end_def intro!: exI [of _ "[]"])
next
  case (Cons x xs)
  let ?s = "tx_sender_id (pd_transaction x)"
  have dist: "distinct (map (tx_sender_id \<circ> pd_transaction) xs)"
    and x: "?s \<notin> set (map (tx_sender_id \<circ> pd_transaction) xs)" using Cons.prems(2) by (simp_all add: comp_def)
  consider (stop) "\<not> limit_is_exceeded l (len0 - total_removed r) (size0 - removed_size r) \<or> non_local_senders r = 0"
    | (skip) "limit_is_exceeded l (len0 - total_removed r) (size0 - removed_size r)" "0 < non_local_senders r"
        "\<not> rl" "tx_is_local (pd_transaction x)"
    | (take) "limit_is_exceeded l (len0 - total_removed r) (size0 - removed_size r)" "0 < non_local_senders r"
        "rl \<or> \<not> tx_is_local (pd_transaction x)" by blast
  then show ?case
  proof cases
    case stop
    then have "early" "r1 = r" using Cons.prems(1) by auto
    then show ?thesis using stop Cons.prems by (auto simp: marks_def pass_end_def intro!: exI [of _ "[]"])
  next
    case skip
    define r' where "r' = (if ?s \<in> set (local_senders r) then r
      else r\<lparr>local_senders := ?s # local_senders r, non_local_senders := non_local_senders r - 1\<rparr>)"
    have "mark_worst l rl len0 size0 xs r' = (early, r1)" using Cons.prems(1) skip by (simp add: r'_def)
    moreover have "distinct (local_senders r')" using Cons.prems(3) by (simp add: r'_def)
    ultimately obtain taken where t: "marks rl xs r' r1 taken" "pass_end l len0 size0 early xs r1 taken"
      using Cons.IH [OF _ dist] by blast
    have "marks False xs r' r1 taken" using t(1) skip(3) by simp
    from marks_skip [OF this skip(4,2) r'_def] t(2) show ?thesis
      using skip(3) by (intro exI [of _ taken]) (simp add: pass_end_def)
  next
    case take
    let ?r = "r\<lparr>removed_size := removed_size r + tx_size (pd_transaction x),
        total_removed := total_removed r + 1,
        marked := marked r @ [transaction_id (pd_transaction x)]\<rparr>"
    have "mark_worst l rl len0 size0 xs ?r = (early, r1)" using Cons.prems(1) take by auto
    from Cons.IH [OF this dist] obtain taken where
      "marks rl xs ?r r1 taken" and pass: "pass_end l len0 size0 early xs r1 taken"
      using Cons.prems(3) by auto
    from marks_take [OF this(1) take(3) x] pass show ?thesis
      by (intro exI [of _ "x # taken"]) (auto simp: pass_end_def)
  qed
qed

lemma highest_tops:
  assumes inv: "pd_inv p" and x: "map_of (highest_nonces p) s = Some x"
  shows "tops (pd_entries p) s (pd_transaction x)" and "tx_sender_id (pd_transaction x) = s"
    and "map_of (pd_entries p) (transaction_id (pd_transaction x)) = Some (pd_transaction x)"
proof -
  note M = pd_maps_okD [OF pd_invD(1) [OF inv]]
  have "is_highest (pd_by_id p) s x" using M(5) x by simp
  then obtain i where i: "map_of (pd_by_id p) i = Some x" "sender i = s"
    "\<And>j y. map_of (pd_by_id p) j = Some y \<Longrightarrow> sender j = s \<Longrightarrow> nonce j \<le> nonce i" by (rule is_highestE) blast
  show "tops (pd_entries p) s (pd_transaction x)"
    unfolding tops_def using i by (intro exI [of _ i]) (auto simp: map_of_pd_entries)
  show "tx_sender_id (pd_transaction x) = s"
    and "map_of (pd_entries p) (transaction_id (pd_transaction x)) = Some (pd_transaction x)"
    using M(4) [OF i(1)] i by (auto simp: map_of_pd_entries)
qed

lemma tops_highest:
  assumes inv: "pd_inv p" and t: "tops (pd_entries p) s t"
  obtains x where "map_of (highest_nonces p) s = Some x" and "pd_transaction x = t"
proof -
  obtain i where i: "map_of (pd_entries p) i = Some t" "sender i = s"
    "\<forall>j. map_of (pd_entries p) j \<noteq> None \<longrightarrow> sender j = s \<longrightarrow> nonce j \<le> nonce i"
    using t unfolding tops_def by blast
  obtain x where x: "map_of (pd_by_id p) i = Some x" "pd_transaction x = t"
    using i(1) by (auto simp: map_of_pd_entries)
  then have "is_highest (pd_by_id p) (sender i) x"
    using i(3) by (intro is_highestI) (auto simp: map_of_pd_entries i(2))
  then show thesis
    using that x(2) pd_maps_okD(5) [OF pd_invD(1) [OF inv]] i(2) by simp
qed

lemma worst_props:
  assumes inv: "pd_inv p"
  shows "x \<in> set (worst_transactions k p) \<Longrightarrow>
      map_of (highest_nonces p) (tx_sender_id (pd_transaction x)) = Some x"
    and "distinct (map (tx_sender_id \<circ> pd_transaction) (worst_transactions k p))"
    and "length (worst_transactions k p) = min k (length (highest_nonces p))"
proof -
  have sorted: "bsorted (highest_nonces p)" using pd_maps_okD(2) [OF pd_invD(1) [OF inv]] .
  have own: "tx_sender_id (pd_transaction (snd e)) = fst e" if "e \<in> set (highest_nonces p)" for e
    using that highest_tops(2) [OF inv, of "fst e" "snd e"] sorted by (simp flip: in_set_map_of)
  show "map_of (highest_nonces p) (tx_sender_id (pd_transaction x)) = Some x"
    if "x \<in> set (worst_transactions k p)"
  proof -
    have "x \<in> snd ` set (highest_nonces p)"
      using that by (auto simp: worst_transactions_def dest: in_set_takeD)
    then obtain e where "e \<in> set (highest_nonces p)" "x = snd e" by blast
    then show ?thesis using own [of e] sorted by (simp flip: in_set_map_of)
  qed
  have eq: "map (tx_sender_id \<circ> pd_transaction) (map snd (highest_nonces p)) = map fst (highest_nonces p)"
    using own by auto
  have "distinct (map (tx_sender_id \<circ> pd_transaction) (map snd (highest_nonces p)))"
    unfolding eq by (rule bsorted_distinct [OF sorted])
  then have "distinct (map (tx_sender_id \<circ> pd_transaction) (sort_key pending_key (map snd (highest_nonces p))))"
    by (simp only: distinct_map [of "tx_sender_id \<circ> pd_transaction"] distinct_sort set_sort)
  then show "distinct (map (tx_sender_id \<circ> pd_transaction) (worst_transactions k p))"
    unfolding worst_transactions_def take_map [symmetric] by (rule distinct_take)
  show "length (worst_transactions k p) = min k (length (highest_nonces p))"
    by (simp add: worst_transactions_def)
qed

definition loop_inv :: "bool \<Rightarrow> nat \<Rightarrow> usize \<Rightarrow> nat \<Rightarrow> removal \<Rightarrow> pending_pool \<Rightarrow> bool" where
  "loop_inv rl len0 size0 us r p \<longleftrightarrow>
     pd_inv p \<and> non_local_senders r + length (local_senders r) = us \<and> length (highest_nonces p) \<le> us \<and>
     distinct (local_senders r) \<and>
     (\<forall>s \<in> set (local_senders r). \<not> rl \<and> (\<exists>t. tops (pd_entries p) s t \<and> tx_is_local t)) \<and>
     len0 = pd_len p + total_removed r \<and> size0 = pd_size p + removed_size r"

lemma locals_le:
  assumes "loop_inv rl len0 size0 us r p"
  shows "set (local_senders r) \<subseteq> dom (map_of (highest_nonces p))"
    and "length (local_senders r) \<le> length (highest_nonces p)"
proof -
  have inv: "pd_inv p" using assms by (simp add: loop_inv_def)
  show sub: "set (local_senders r) \<subseteq> dom (map_of (highest_nonces p))"
  proof
    fix s assume "s \<in> set (local_senders r)"
    then obtain t where "tops (pd_entries p) s t" using assms by (auto simp: loop_inv_def)
    then show "s \<in> dom (map_of (highest_nonces p))" by (rule tops_highest [OF inv]) blast
  qed
  have "card (set (local_senders r)) \<le> card (dom (map_of (highest_nonces p)))"
    by (rule card_mono [OF finite_dom_map_of sub])
  then show "length (local_senders r) \<le> length (highest_nonces p)"
    using assms length_card_dom [OF pd_maps_okD(2) [OF pd_invD(1) [OF inv]]]
    by (simp add: loop_inv_def distinct_card)
qed

definition finished :: "sub_pool_limit \<Rightarrow> bool \<Rightarrow> pending_pool \<Rightarrow> bool" where
  "finished l rl p \<longleftrightarrow>
     \<not> pd_exceeds l p \<or>
     \<not> rl \<and> (\<forall>s x. map_of (highest_nonces p) s = Some x \<longrightarrow> tx_is_local (pd_transaction x))"

text \<open>What one pass does to the pool, with the result of the loop when it stops there.\<close>

definition shrinks :: "bool \<Rightarrow> pending_pool \<Rightarrow> pending_pool \<Rightarrow> valid_pool_tx list \<Rightarrow> bool" where
  "shrinks rl p p1 ts \<longleftrightarrow>
     pd_inv p1 \<and> pd_room p1 = pd_room p \<and> evicts (pd_entries p) ts (pd_entries p1) \<and>
     keeps_prefix (pd_entries p) (pd_entries p1) \<and> (\<not> rl \<longrightarrow> (\<forall>t \<in> set ts. \<not> tx_is_local t))"

lemma shrinks_refl: "pd_inv p \<Longrightarrow> shrinks rl p p []"
  by (simp add: shrinks_def)

lemma shrinks_trans: "shrinks rl p p1 ts \<Longrightarrow> shrinks rl p1 p2 us \<Longrightarrow> shrinks rl p p2 (ts @ us)"
proof -
  assume a: "shrinks rl p p1 ts" "shrinks rl p1 p2 us"
  have "dom (map_of (pd_entries p2)) \<subseteq> dom (map_of (pd_entries p1))"
    using a(2) map_of_evicts [of "pd_entries p1" us "pd_entries p2"]
    by (auto simp: shrinks_def split: if_splits)
  then show ?thesis
    using a by (auto simp: shrinks_def intro: evicts_trans keeps_prefix_trans)
qed

lemma remove_taken:
  assumes inv: "pd_inv p" and sub: "set taken \<subseteq> set (worst_transactions k p)"
    and dist: "distinct (map (tx_sender_id \<circ> pd_transaction) taken)"
    and loc: "\<forall>x \<in> set taken. \<not> rl \<longrightarrow> \<not> tx_is_local (pd_transaction x)"
  obtains p1 where
    "remove_each pd_remove (map (transaction_id \<circ> pd_transaction) taken) p = Some (p1, map pd_transaction taken)"
    and "shrinks rl p p1 (map pd_transaction taken)"
proof -
  let ?ids = "map (transaction_id \<circ> pd_transaction) taken"
  have top: "tops (pd_entries p) (tx_sender_id (pd_transaction x)) (pd_transaction x) \<and>
      map_of (pd_entries p) (transaction_id (pd_transaction x)) = Some (pd_transaction x)" if "x \<in> set taken" for x
    using highest_tops [OF inv worst_props(1) [OF inv]] that sub by blast
  have eq: "map (tx_sender_id \<circ> pd_transaction) taken = map sender ?ids"
    by (simp add: tx_sender_id_def)
  have "distinct ?ids" using dist unfolding eq by (simp only: distinct_map)
  moreover have "List.map_filter (map_of (pd_entries p)) ?ids = map pd_transaction taken"
    using top by (induction taken) (simp_all add: List.map_filter_simps)
  ultimately obtain p1 where p1: "remove_each pd_remove ?ids p = Some (p1, map pd_transaction taken)"
    "pd_inv p1" "evicts (pd_entries p) (map pd_transaction taken) (pd_entries p1)" "pd_room p1 = pd_room p"
    using pending.remove_each_evicts [OF inv, of ?ids] by metis
  have own: "transaction_id t = i" if "map_of (pd_entries p) i = Some t" for i t
    using pending.entries_id [OF inv that] by simp
  have "keeps_prefix (pd_entries p) (pd_entries p1)"
    by (rule keeps_prefix_tops [OF p1(3) _ own]) (use top in auto)
  then show thesis
    using that p1 loc by (auto simp: shrinks_def)
qed

lemma shrinks_counts:
  assumes "pd_inv p" and "shrinks rl p p1 ts"
  shows "pd_len p = pd_len p1 + length ts" and "pd_size p = pd_size p1 + sum_list (map tx_size ts)"
    and "length (highest_nonces p1) \<le> length (highest_nonces p)"
proof -
  have p1: "pd_inv p1" "evicts (pd_entries p) ts (pd_entries p1)" using assms(2) by (auto simp: shrinks_def)
  show "pd_len p = pd_len p1 + length ts"
    using length_evicts [OF pd_invD(6) [OF assms(1)] p1(2)] by (simp add: pd_len_def pd_entries_def)
  show "pd_size p = pd_size p1 + sum_list (map tx_size ts)"
    using total_size_evicts [OF pd_invD(6) [OF assms(1)] p1(2)] assms(1) p1(1)
    by (simp add: pending.psize_law)
  have "dom (map_of (highest_nonces p1)) \<subseteq> dom (map_of (highest_nonces p))"
  proof
    fix s assume "s \<in> dom (map_of (highest_nonces p1))"
    then obtain x where "map_of (highest_nonces p1) s = Some x" by blast
    note x = highest_tops(2,3) [OF p1(1) this]
    have "map_of (pd_entries p) (transaction_id (pd_transaction x)) \<noteq> None"
      using x(2) map_of_evicts [OF p1(2)] by (auto split: if_splits)
    then obtain y where "map_of (pd_by_id p) (transaction_id (pd_transaction x)) = Some y"
      by (auto simp: map_of_pd_entries)
    from highest_present [OF pd_invD(1) [OF assms(1)] this] x(1)
    show "s \<in> dom (map_of (highest_nonces p))" by (auto simp: tx_sender_id_def)
  qed
  then show "length (highest_nonces p1) \<le> length (highest_nonces p)"
    using pd_maps_okD(2) [OF pd_invD(1)] assms(1) p1(1)
    by (simp add: length_card_dom card_mono finite_dom_map_of)
qed

lemma no_senders_empty:
  assumes "pd_inv p" and "highest_nonces p = []"
  shows "pd_len p = 0" and "\<not> pd_exceeds l p"
proof -
  have "pd_by_id p = []"
  proof (cases "pd_by_id p")
    case (Cons e m)
    then have "map_of (pd_by_id p) (fst e) = Some (snd e)" by simp
    from highest_present [OF pd_invD(1) [OF assms(1)] this] assms(2) show ?thesis by auto
  qed
  then show "pd_len p = 0" and "\<not> pd_exceeds l p"
    using pd_invD(2) [OF assms(1)]
    by (simp_all add: pd_exceeds_def pd_len_def pd_size_def limit_is_exceeded_def pd_entries_def
        bvals_map_def total_size_def)
qed

lemma finished_no_sender:
  assumes L: "loop_inv rl len0 size0 us r p" and us: "length (highest_nonces p) \<le> us"
    and stop: "non_local_senders r = 0" and len: "length (local_senders r) = us"
  shows "finished l rl p"
proof -
  have inv: "pd_inv p" and dist: "distinct (local_senders r)" using L by (auto simp: loop_inv_def)
  note sorted = pd_maps_okD(2) [OF pd_invD(1) [OF inv]]
  have "card (set (local_senders r)) = card (dom (map_of (highest_nonces p)))"
    using locals_le(2) [OF L] us len length_card_dom [OF sorted] dist by (simp add: distinct_card)
  then have dom: "set (local_senders r) = dom (map_of (highest_nonces p))"
    by (rule card_subset_eq [OF finite_dom_map_of locals_le(1) [OF L]])
  show ?thesis
  proof (cases rl)
    case True
    then have "local_senders r = []" using L by (cases "local_senders r") (auto simp: loop_inv_def)
    then have "highest_nonces p = []" using us len by simp
    then show ?thesis using no_senders_empty [OF inv] by (simp add: finished_def)
  next
    case False
    have "tx_is_local (pd_transaction x)" if x: "map_of (highest_nonces p) s = Some x" for s x
    proof -
      have "s \<in> set (local_senders r)" using x dom by blast
      then obtain t where "tops (pd_entries p) s t" "tx_is_local t" using L by (auto simp: loop_inv_def)
      then show ?thesis using highest_tops(1) [OF inv x] tops_unique by blast
    qed
    then show ?thesis using False by (simp add: finished_def)
  qed
qed

lemma pass_loop_inv:
  assumes L: "loop_inv rl len0 size0 us r p"
    and m: "marks rl (worst_transactions k p)
      (r\<lparr>non_local_senders := length (highest_nonces p) - length (local_senders r), marked := []\<rparr>) r1 taken"
    and sh: "shrinks rl p p1 (map pd_transaction taken)"
  shows "loop_inv rl len0 size0 (length (highest_nonces p)) r1 p1"
proof -
  have inv: "pd_inv p" using L by (simp add: loop_inv_def)
  have "\<not> rl \<and> (\<exists>t. tops (pd_entries p1) s t \<and> tx_is_local t)" if s: "s \<in> set (local_senders r1)" for s
  proof -
    have "\<not> rl \<and> (\<exists>t. tops (pd_entries p) s t \<and> tx_is_local t)"
    proof (cases "s \<in> set (local_senders r)")
      case True
      then show ?thesis using L by (auto simp: loop_inv_def)
    next
      case False
      then obtain x where x: "\<not> rl" "x \<in> set (worst_transactions k p)"
        "tx_sender_id (pd_transaction x) = s" "tx_is_local (pd_transaction x)"
        using m s unfolding marks_def by auto
      then show ?thesis using highest_tops(1) [OF inv worst_props(1) [OF inv x(2)]] by auto
    qed
    then obtain t where t: "\<not> rl" "tops (pd_entries p) s t" "tx_is_local t" by blast
    have "tx_sender_id u \<noteq> s" if u: "u \<in> set (map pd_transaction taken)" for u
    proof
      assume us: "tx_sender_id u = s"
      obtain x where x: "x \<in> set taken" "u = pd_transaction x" using u by auto
      have "x \<in> set (worst_transactions k p)" using x(1) m by (auto simp: marks_def)
      then have "tops (pd_entries p) s u"
        using highest_tops(1) [OF inv worst_props(1) [OF inv]] x(2) us by auto
      then have "u = t" using t(2) by (rule tops_unique)
      then show False using m x t(1,3) by (auto simp: marks_def)
    qed
    moreover have "evicts (pd_entries p) (map pd_transaction taken) (pd_entries p1)"
      using sh by (simp add: shrinks_def)
    ultimately have "tops (pd_entries p1) s t" by (intro tops_evicts [OF t(2)])
    then show ?thesis using t by blast
  qed
  then show ?thesis
    using m sh shrinks_counts [OF inv sh] locals_le(2) [OF L] L
    by (auto simp: loop_inv_def marks_def shrinks_def comp_def)
qed

lemma pass_progress:
  assumes L: "loop_inv rl len0 size0 us r p"
    and m: "marks rl (worst_transactions (c + length (local_senders r)) p)
      (r\<lparr>non_local_senders := length (highest_nonces p) - length (local_senders r), marked := []\<rparr>) r1 taken"
    and all: "\<forall>x \<in> set (worst_transactions (c + length (local_senders r)) p).
      x \<in> set taken \<or> tx_sender_id (pd_transaction x) \<in> set (local_senders r1)"
    and c: "1 \<le> c" and n: "non_local_senders r1 \<noteq> 0" and none: "taken = []"
  shows "non_local_senders r1 < length (highest_nonces p) - length (local_senders r)"
proof (rule ccontr)
  let ?w = "worst_transactions (c + length (local_senders r)) p"
  have inv: "pd_inv p" using L by (simp add: loop_inv_def)
  assume "\<not> ?thesis"
  then have eq: "length (local_senders r1) = length (local_senders r)"
    and n1: "non_local_senders r1 = length (highest_nonces p) - length (local_senders r)"
    using m by (auto simp: marks_def)
  have "set (map (tx_sender_id \<circ> pd_transaction) ?w) \<subseteq> set (local_senders r1)"
    using all none by auto
  then have "card (set (map (tx_sender_id \<circ> pd_transaction) ?w)) \<le> card (set (local_senders r1))"
    by (rule card_mono [OF finite_set])
  then have "length ?w \<le> length (local_senders r1)"
    using worst_props(2) [OF inv, of "c + length (local_senders r)"] m
    by (simp only: distinct_card marks_def length_map)
  then have "length (highest_nonces p) \<le> length (local_senders r)"
    using worst_props(3) [OF inv, of "c + length (local_senders r)"] eq c by simp
  then show False using n n1 by simp
qed

lemma removal_candidates_ge:
  obtains c where "removal_candidates l n sz locals = c + locals" and "1 \<le> c"
  by (simp add: removal_candidates_def Let_def)

lemma pass_law:
  assumes L: "loop_inv rl len0 size0 us r p"
    and k: "k = removal_candidates l n sz (length (local_senders r))"
    and mark: "mark_worst l rl len0 size0 (worst_transactions k p)
      (r\<lparr>non_local_senders := length (highest_nonces p) - length (local_senders r), marked := []\<rparr>) = (early, r1)"
  obtains p1 ts where "remove_each pd_remove (marked r1) p = Some (p1, ts)" and "shrinks rl p p1 ts"
    and "loop_inv rl len0 size0 (length (highest_nonces p)) r1 p1"
    and "early \<or> non_local_senders r1 = 0 \<Longrightarrow> finished l rl p1"
    and "\<not> early \<Longrightarrow> non_local_senders r1 \<noteq> 0 \<Longrightarrow>
      pd_len p1 + non_local_senders r1 < pd_len p + (length (highest_nonces p) - length (local_senders r))"
proof -
  have inv: "pd_inv p" and dist: "distinct (local_senders r)" using L by (auto simp: loop_inv_def)
  from removal_candidates_ge [of l n sz "length (local_senders r)"] obtain c where
    c: "k = c + length (local_senders r)" "1 \<le> c" using k by metis
  obtain taken where m: "marks rl (worst_transactions k p)
      (r\<lparr>non_local_senders := length (highest_nonces p) - length (local_senders r), marked := []\<rparr>) r1 taken"
    and pe: "pass_end l len0 size0 early (worst_transactions k p) r1 taken"
    using mark_worst_law [OF mark worst_props(2) [OF inv]] dist by auto
  have "set taken \<subseteq> set (worst_transactions k p)" "distinct (map (tx_sender_id \<circ> pd_transaction) taken)"
    "\<forall>x \<in> set taken. \<not> rl \<longrightarrow> \<not> tx_is_local (pd_transaction x)"
    and marked: "marked r1 = map (transaction_id \<circ> pd_transaction) taken"
    using m by (simp_all add: marks_def)
  from remove_taken [OF inv this(1-3)] obtain p1 where
    p1: "remove_each pd_remove (marked r1) p = Some (p1, map pd_transaction taken)"
      "shrinks rl p p1 (map pd_transaction taken)" unfolding marked by blast
  note L1 = pass_loop_inv [OF L m p1(2)]
  have fin: "finished l rl p1" if stop: "early \<or> non_local_senders r1 = 0"
  proof (cases "non_local_senders r1 = 0")
    case True
    then show ?thesis
      using L1 by (intro finished_no_sender [OF L1]) (auto simp: loop_inv_def)
  next
    case False
    then have "\<not> limit_is_exceeded l (len0 - total_removed r1) (size0 - removed_size r1)"
      using stop pe by (simp add: pass_end_def)
    then show ?thesis using L1 by (simp add: finished_def pd_exceeds_def loop_inv_def)
  qed
  have prog: "pd_len p1 + non_local_senders r1 < pd_len p + (length (highest_nonces p) - length (local_senders r))"
    if go: "\<not> early" "non_local_senders r1 \<noteq> 0"
  proof (cases "taken = []")
    case True
    have "non_local_senders r1 < length (highest_nonces p) - length (local_senders r)"
      by (rule pass_progress [OF L m [unfolded c(1)] _ c(2) go(2) True])
        (use pe go(1) in \<open>simp add: pass_end_def c(1)\<close>)
    then show ?thesis using shrinks_counts(1) [OF inv p1(2)] by simp
  next
    case False
    then have "pd_len p1 < pd_len p" using shrinks_counts(1) [OF inv p1(2)] by simp
    moreover have "non_local_senders r1 \<le> length (highest_nonces p) - length (local_senders r)"
      using m by (auto simp: marks_def)
    ultimately show ?thesis by simp
  qed
  show thesis by (rule that [OF p1 L1 fin prog])
qed

lemma remove_loop_law:
  assumes "loop_inv rl len0 size0 us r p"
  shows "\<exists>p' ts. remove_loop l rl len0 size0 us r p = Some (p', ts) \<and> shrinks rl p p' ts \<and> finished l rl p'"
  using assms
proof (induction "pd_len p + (length (highest_nonces p) - length (local_senders r))" arbitrary: us r p
    rule: less_induct)
  case less
  note L = less.prems
  let ?n = "length (highest_nonces p)"
  define k where "k = removal_candidates l (len0 - total_removed r) (size0 - removed_size r) (length (local_senders r))"
  let ?r = "r\<lparr>non_local_senders := ?n - length (local_senders r), marked := []\<rparr>"
  obtain early r1 where mark: "mark_worst l rl len0 size0 (worst_transactions k p) ?r = (early, r1)"
    by fastforce
  from pass_law [OF L k_def mark] obtain p1 ts where
    p1: "remove_each pd_remove (marked r1) p = Some (p1, ts)" "shrinks rl p p1 ts"
      "loop_inv rl len0 size0 ?n r1 p1" "early \<or> non_local_senders r1 = 0 \<Longrightarrow> finished l rl p1"
      "\<not> early \<Longrightarrow> non_local_senders r1 \<noteq> 0 \<Longrightarrow>
        pd_len p1 + non_local_senders r1 < pd_len p + (?n - length (local_senders r))" by metis
  have subs: "checked_sub us ?n = Some (us - ?n)"
    "checked_sub (non_local_senders r) (us - ?n) = Some (?n - length (local_senders r))"
    "checked_sub len0 (total_removed r) = Some (len0 - total_removed r)"
    using L locals_le(2) [OF L] by (auto simp: loop_inv_def checked_sub_def)
  show ?case
  proof (cases "early \<or> \<not> pd_exceeds l p1 \<or> non_local_senders r1 = 0")
    case True
    then have "finished l rl p1" using p1(4) by (auto simp: finished_def)
    then show ?thesis
      using True p1(2) by (subst remove_loop.simps) (simp add: subs mark p1(1) flip: k_def)
  next
    case False
    have "length (highest_nonces p1) - length (local_senders r1) \<le> non_local_senders r1"
      using p1(3) by (auto simp: loop_inv_def)
    then have "pd_len p1 + (length (highest_nonces p1) - length (local_senders r1))
        < pd_len p + (?n - length (local_senders r))" using p1(5) False by simp
    from less.hyps [OF this p1(3)] obtain p2 ts2 where
      p2: "remove_loop l rl len0 size0 ?n r1 p1 = Some (p2, ts2)" "shrinks rl p1 p2 ts2" "finished l rl p2"
      by blast
    then show ?thesis
      using False shrinks_trans [OF p1(2) p2(2)]
      by (subst remove_loop.simps) (simp add: subs mark p1(1) flip: k_def)
  qed
qed

lemma remove_to_limit_law:
  assumes "pd_inv p"
  obtains p' ts where "remove_to_limit l rl p = Some (p', ts)" and "shrinks rl p p' ts" and "finished l rl p'"
proof -
  have "loop_inv rl (pd_len p) (pd_size p) (length (highest_nonces p))
      \<lparr>non_local_senders = length (highest_nonces p), local_senders = [], total_removed = 0,
       removed_size = 0, marked = []\<rparr> p"
    using assms by (simp add: loop_inv_def)
  from remove_loop_law [OF this, of l] show thesis
    using that unfolding remove_to_limit_def by blast
qed

lemma pd_truncate_law:
  assumes inv: "pd_inv p"
  obtains p' ts where "pd_truncate_pool l p = Some (p', ts)" and "shrinks True p p' ts"
    and "\<not> pd_exceeds l p'" and "\<not> pd_exceeds l p \<Longrightarrow> ts = []"
proof (cases "pd_exceeds l p")
  case False
  then show thesis using that [of p "[]"] shrinks_refl [OF inv] by (simp add: pd_truncate_pool_def)
next
  case True
  obtain p1 ts1 where p1: "remove_to_limit l False p = Some (p1, ts1)" "shrinks False p p1 ts1"
    by (rule remove_to_limit_law [OF inv])
  have s1: "shrinks True p p1 ts1" and inv1: "pd_inv p1" using p1(2) by (auto simp: shrinks_def)
  show thesis
  proof (cases "pd_exceeds l p1")
    case False
    then show ?thesis using that [of p1 ts1] True p1 s1 by (simp add: pd_truncate_pool_def)
  next
    case exc: True
    obtain p2 ts2 where "remove_to_limit l True p1 = Some (p2, ts2)" "shrinks True p1 p2 ts2" "finished l True p2"
      by (rule remove_to_limit_law [OF inv1])
    then show ?thesis
      using that [of p2 "ts1 @ ts2"] True exc p1 shrinks_trans [OF s1, of p2 ts2]
      by (simp add: pd_truncate_pool_def finished_def)
  qed
qed

interpretation pending: bounded_pool pd_inv pd_entries "\<lambda>t p. Some (pd_add_transaction t b p)"
  pd_remove pd_len pd_size pd_room nonce_matches pd_truncate_pool
  for b
proof (unfold_locales, goal_cases)
  case (1 p l) then show ?case
    by (rule pd_truncate_law [of p l]) (auto simp: shrinks_def pd_exceeds_def)
qed

end
