(* ===== verification/Tx_Pool.thy ===== *)
theory Tx_Pool
  imports Pool_Moves Parked_Pool Pending_Pool
begin

text \<open>
  \<open>TxPool\<close> of \<open>pool/txpool.rs\<close>: the four sub-pools and the container of all transactions behind one
  set of operations. An operation that can panic in the source returns an option, \<open>None\<close> being the
  panic. Metrics and traces are left out.

  This theory is the model. \<open>Pool_Invariant\<close> states how the container and the sub-pools agree;
  \<open>Pool_Operations\<close>, \<open>Pool_Fees\<close> and \<open>Pool_Limits\<close> prove that no operation panics and that all keep the agreement.
\<close>

section \<open>TxPool\<close>

record tx_pool =
  tp_pending :: pending_pool
  tp_config :: pool_config
  tp_queued :: parked_pool
  tp_basefee :: parked_pool
  tp_blob :: blob_pool
  tp_all :: all_transactions

definition new_tx_pool :: "(pool_transaction \<Rightarrow> u64 \<Rightarrow> Priority) \<Rightarrow> pool_config \<Rightarrow> tx_pool" where
  "new_tx_pool ord c =
     \<lparr>tp_pending = new_pending_pool ord, tp_config = c, tp_queued = default_parked_pool,
      tp_basefee = default_parked_pool, tp_blob = default_blob_pool, tp_all = new_all_transactions c\<rparr>"

section \<open>Queries\<close>

definition get_highest_transaction_by_sender :: "SenderId \<Rightarrow> tx_pool \<Rightarrow> valid_pool_tx option" where
  "get_highest_transaction_by_sender s p =
     map_option (\<lambda>e. it_transaction (snd e)) (last_opt (txs_iter s (tp_all p)))"

definition get_highest_nonce_by_sender :: "SenderId \<Rightarrow> tx_pool \<Rightarrow> u64 option" where
  "get_highest_nonce_by_sender s p =
     map_option (\<lambda>e. tx_nonce (it_transaction (snd e))) (last_opt (txs_iter s (tp_all p)))"

fun last_consecutive :: "u64 \<Rightarrow> valid_pool_tx option \<Rightarrow> (TransactionId, internal_tx) bmap \<Rightarrow> valid_pool_tx option" where
  "last_consecutive nxt l [] = l"
| "last_consecutive nxt l ((i, x) # m) =
     (if nxt \<noteq> nonce i then l else last_consecutive (next_nonce i) (Some (it_transaction x)) m)"

definition get_highest_consecutive_transaction_by_sender :: "TransactionId \<Rightarrow> tx_pool \<Rightarrow> valid_pool_tx option" where
  "get_highest_consecutive_transaction_by_sender on_chain p =
     (let n = (case map_of (sender_info (tp_all p)) (sender on_chain) of
                 None \<Rightarrow> nonce on_chain
               | Some current \<Rightarrow> max (nonce on_chain) (si_state_nonce current))
      in last_consecutive n None (descendant_txs_inclusive (TransactionId (sender on_chain) n) (tp_all p)))"

definition unique_senders :: "tx_pool \<Rightarrow> Address list" where
  "unique_senders p = remdups (map (\<lambda>e. pt_sender (vp_transaction (it_transaction (snd e)))) (txs (tp_all p)))"

definition tp_size :: "tx_pool \<Rightarrow> pool_size" where
  "tp_size p =
     \<lparr>ps_pending = pd_len (tp_pending p), ps_pending_size = pd_size (tp_pending p),
      ps_blob = bl_len (tp_blob p), ps_blob_size = bl_size (tp_blob p),
      ps_basefee = pk_len (tp_basefee p), ps_basefee_size = pk_size (tp_basefee p),
      ps_queued = pk_len (tp_queued p), ps_queued_size = pk_size (tp_queued p),
      ps_total = at_len (tp_all p)\<rparr>"

definition tp_block_info :: "tx_pool \<Rightarrow> block_info" where
  "tp_block_info p =
     \<lparr>bi_last_seen_block_hash = last_seen_block_hash (tp_all p),
      bi_last_seen_block_number = last_seen_block_number (tp_all p),
      bi_block_gas_limit = block_gas_limit (tp_all p),
      bi_pending_basefee = base_fee (tracked_fees (tp_all p)),
      bi_pending_blob_fee = Some (blob_fee (tracked_fees (tp_all p)))\<rparr>"

definition pending_transactions :: "tx_pool \<Rightarrow> valid_pool_tx list" where
  "pending_transactions p = pd_all (tp_pending p)"

definition pending_transactions_count :: "tx_pool \<Rightarrow> nat" where
  "pending_transactions_count p = pd_len (tp_pending p)"

definition pending_transactions_with_predicate :: "(valid_pool_tx \<Rightarrow> bool) \<Rightarrow> tx_pool \<Rightarrow> valid_pool_tx list" where
  "pending_transactions_with_predicate f p = filter f (pending_transactions p)"

definition pending_txs_by_sender :: "SenderId \<Rightarrow> tx_pool \<Rightarrow> valid_pool_tx list" where
  "pending_txs_by_sender s p = pd_txs_by_sender (tp_pending p) s"

definition queued_transactions :: "tx_pool \<Rightarrow> valid_pool_tx list" where
  "queued_transactions p = pk_all (tp_basefee p) @ pk_all (tp_queued p)"

definition queued_transactions_count :: "tx_pool \<Rightarrow> nat" where
  "queued_transactions_count p = pk_len (tp_basefee p) + pk_len (tp_queued p)"

definition queued_and_pending_txs_by_sender :: "SenderId \<Rightarrow> tx_pool \<Rightarrow> TransactionId list \<times> TransactionId list" where
  "queued_and_pending_txs_by_sender s p =
     (pk_get_txs_by_sender (tp_queued p) s, pd_get_txs_by_sender (tp_pending p) s)"

definition queued_txs_by_sender :: "SenderId \<Rightarrow> tx_pool \<Rightarrow> valid_pool_tx list" where
  "queued_txs_by_sender s p = pk_txs_by_sender (tp_basefee p) s @ pk_txs_by_sender (tp_queued p) s"

definition tp_contains :: "tx_pool \<Rightarrow> B256 \<Rightarrow> bool" where
  "tp_contains p h \<longleftrightarrow> at_contains (tp_all p) h"

definition subpool_contains :: "SubPool \<Rightarrow> TransactionId \<Rightarrow> tx_pool \<Rightarrow> bool" where
  "subpool_contains sp i p =
     (case sp of
        Queued \<Rightarrow> pk_contains (tp_queued p) i
      | Pending \<Rightarrow> pd_contains (tp_pending p) i
      | BaseFee \<Rightarrow> pk_contains (tp_basefee p) i
      | Blob \<Rightarrow> bl_contains (tp_blob p) i)"

definition is_exceeded :: "tx_pool \<Rightarrow> bool" where
  "is_exceeded p \<longleftrightarrow> config_is_exceeded (tp_config p) (tp_size p)"

definition tp_get :: "tx_pool \<Rightarrow> B256 \<Rightarrow> valid_pool_tx option" where
  "tp_get p h = map_of (by_hash (tp_all p)) h"

definition tp_get_all :: "B256 list \<Rightarrow> tx_pool \<Rightarrow> valid_pool_tx list" where
  "tp_get_all hs p = List.map_filter (tp_get p) hs"

definition get_transactions_by_sender :: "SenderId \<Rightarrow> tx_pool \<Rightarrow> valid_pool_tx list" where
  "get_transactions_by_sender s p = map (it_transaction \<circ> snd) (txs_iter s (tp_all p))"

definition get_pending_transaction_by_sender_and_nonce :: "SenderId \<Rightarrow> u64 \<Rightarrow> tx_pool \<Rightarrow> valid_pool_tx option" where
  "get_pending_transaction_by_sender_and_nonce s n p =
     map_option (it_transaction \<circ> snd)
       (List.find (\<lambda>e. nonce (fst e) = n \<and> it_subpool (snd e) = Pending) (txs_iter s (tp_all p)))"

definition tp_len :: "tx_pool \<Rightarrow> nat" where
  "tp_len p = at_len (tp_all p)"

definition tp_is_empty :: "tx_pool \<Rightarrow> bool" where
  "tp_is_empty p \<longleftrightarrow> at_is_empty (tp_all p)"

section \<open>Sub-pools\<close>

definition remove_from_subpool :: "SubPool \<Rightarrow> TransactionId \<Rightarrow> tx_pool \<Rightarrow> (tx_pool \<times> valid_pool_tx option) option" where
  "remove_from_subpool sp i p =
     (case sp of
        Queued \<Rightarrow> do { (q, r) \<leftarrow> pk_remove_transaction i (tp_queued p); Some (p\<lparr>tp_queued := q\<rparr>, r) }
      | Pending \<Rightarrow> (let (q, r) = pd_remove_transaction i (tp_pending p) in Some (p\<lparr>tp_pending := q\<rparr>, r))
      | BaseFee \<Rightarrow> do { (q, r) \<leftarrow> pk_remove_transaction i (tp_basefee p); Some (p\<lparr>tp_basefee := q\<rparr>, r) }
      | Blob \<Rightarrow> (let (q, r) = bl_remove_transaction i (tp_blob p) in Some (p\<lparr>tp_blob := q\<rparr>, r)))"

definition add_transaction_to_subpool :: "SubPool \<Rightarrow> valid_pool_tx \<Rightarrow> tx_pool \<Rightarrow> tx_pool option" where
  "add_transaction_to_subpool sp t p =
     (case sp of
        Queued \<Rightarrow> Some (p\<lparr>tp_queued := pk_add_transaction t (tp_queued p)\<rparr>)
      | Pending \<Rightarrow>
          Some (p\<lparr>tp_pending := pd_add_transaction t (base_fee (tracked_fees (tp_all p))) (tp_pending p)\<rparr>)
      | BaseFee \<Rightarrow> Some (p\<lparr>tp_basefee := pk_add_transaction t (tp_basefee p)\<rparr>)
      | Blob \<Rightarrow> do { q \<leftarrow> bl_add_transaction t (tp_blob p); Some (p\<lparr>tp_blob := q\<rparr>) })"

definition add_new_transaction ::
    "valid_pool_tx \<Rightarrow> (valid_pool_tx \<times> SubPool) option \<Rightarrow> SubPool \<Rightarrow> tx_pool \<Rightarrow> tx_pool option" where
  "add_new_transaction t replaced sp p =
     do { p1 \<leftarrow> (case replaced of
                     None \<Rightarrow> Some p
                   | Some (old, old_sp) \<Rightarrow>
                       do { (q, _) \<leftarrow> remove_from_subpool old_sp (transaction_id old) p; Some q });
          add_transaction_to_subpool sp t p1 }"

definition move_transaction ::
    "SubPool \<Rightarrow> SubPool \<Rightarrow> TransactionId \<Rightarrow> tx_pool \<Rightarrow> (tx_pool \<times> valid_pool_tx option) option" where
  "move_transaction from to i p =
     do { (p1, r) \<leftarrow> remove_from_subpool from i p;
          (case r of
             None \<Rightarrow> Some (p1, None)
           | Some t \<Rightarrow> do { p2 \<leftarrow> add_transaction_to_subpool to t p1; Some (p2, Some t) }) }"

section \<open>Removal\<close>

text \<open>The common shape: take it out of the container, then out of the sub-pool it was in.\<close>

definition remove_found ::
    "all_transactions \<times> (valid_pool_tx \<times> SubPool) option \<Rightarrow> tx_pool \<Rightarrow> (tx_pool \<times> valid_pool_tx option) option" where
  "remove_found ar p =
     (case ar of
        (a, None) \<Rightarrow> Some (p\<lparr>tp_all := a\<rparr>, None)
      | (a, Some (t, sp)) \<Rightarrow> remove_from_subpool sp (transaction_id t) (p\<lparr>tp_all := a\<rparr>))"

definition prune_transaction_by_hash :: "B256 \<Rightarrow> tx_pool \<Rightarrow> (tx_pool \<times> valid_pool_tx option) option" where
  "prune_transaction_by_hash h p = remove_found (at_remove_transaction_by_hash h (tp_all p)) p"

definition prune_transaction_by_id :: "TransactionId \<Rightarrow> tx_pool \<Rightarrow> (tx_pool \<times> valid_pool_tx option) option" where
  "prune_transaction_by_id i p = remove_found (at_remove_transaction_by_id i (tp_all p)) p"

definition remove_transaction :: "TransactionId \<Rightarrow> tx_pool \<Rightarrow> (tx_pool \<times> valid_pool_tx option) option" where
  "remove_transaction i p = remove_found (at_remove_transaction i (tp_all p)) p"

fun process_updates :: "pool_update list \<Rightarrow> tx_pool \<Rightarrow> (tx_pool \<times> update_outcome) option" where
  "process_updates [] p = Some (p, default_outcome)"
| "process_updates (u # us) p =
     (case up_destination u of
        Discard \<Rightarrow>
          do { (p1, r) \<leftarrow> prune_transaction_by_id (up_id u) p;
               (p2, oc) \<leftarrow> process_updates us p1;
               Some (p2, case r of None \<Rightarrow> oc | Some t \<Rightarrow> oc\<lparr>discarded := t # discarded oc\<rparr>) }
      | Pool to \<Rightarrow>
          do { (p1, r) \<leftarrow> move_transaction (up_current u) to (up_id u) p;
               (p2, oc) \<leftarrow> process_updates us p1;
               Some (p2, case r of
                           None \<Rightarrow> oc
                         | Some t \<Rightarrow> if to = Pending then oc\<lparr>promoted := t # promoted oc\<rparr> else oc) })"

definition remove_transaction_by_hash :: "B256 \<Rightarrow> tx_pool \<Rightarrow> (tx_pool \<times> valid_pool_tx option) option" where
  "remove_transaction_by_hash h p =
     (case at_remove_transaction_by_hash h (tp_all p) of
        (a, None) \<Rightarrow> Some (p\<lparr>tp_all := a\<rparr>, None)
      | (a, Some (t, sp)) \<Rightarrow>
          let (a1, us) = park_descendant_transactions (transaction_id t) a
          in do { (p1, _) \<leftarrow> process_updates us (p\<lparr>tp_all := a1\<rparr>);
                  remove_from_subpool sp (transaction_id t) p1 })"

text \<open>A removal applied to each of a list, collecting what was found.\<close>

fun removing_each ::
    "('k \<Rightarrow> tx_pool \<Rightarrow> (tx_pool \<times> valid_pool_tx option) option) \<Rightarrow> 'k list \<Rightarrow> tx_pool \<Rightarrow>
     (tx_pool \<times> valid_pool_tx list) option" where
  "removing_each rm [] p = Some (p, [])"
| "removing_each rm (k # ks) p =
     do { (p1, r) \<leftarrow> rm k p;
          (p2, ts) \<leftarrow> removing_each rm ks p1;
          Some (p2, case r of None \<Rightarrow> ts | Some t \<Rightarrow> t # ts) }"

definition remove_transactions :: "B256 list \<Rightarrow> tx_pool \<Rightarrow> (tx_pool \<times> valid_pool_tx list) option" where
  "remove_transactions = removing_each remove_transaction_by_hash"

definition prune_transactions :: "B256 list \<Rightarrow> tx_pool \<Rightarrow> (tx_pool \<times> valid_pool_tx list) option" where
  "prune_transactions = removing_each prune_transaction_by_hash"

definition remove_transactions_by_sender :: "SenderId \<Rightarrow> tx_pool \<Rightarrow> (tx_pool \<times> valid_pool_tx list) option" where
  "remove_transactions_by_sender s p =
     removing_each remove_transaction (map transaction_id (get_transactions_by_sender s p)) p"

lemma remove_from_subpool_all:
  "remove_from_subpool sp i p = Some (p', r) \<Longrightarrow> tp_all p' = tp_all p"
  by (cases sp) (auto simp: remove_from_subpool_def Let_def bind_eq_Some_conv split: prod.splits)

lemma txs_at_remove_transaction: "txs (fst (at_remove_transaction i a)) = bdel i (txs a)"
  by (auto simp: at_remove_transaction_def Let_def bdel_id split: option.splits)

lemma remove_transaction_txs:
  assumes "remove_transaction i p = Some (p', r)"
  shows "txs (tp_all p') = bdel i (txs (tp_all p))"
proof (cases "at_remove_transaction i (tp_all p)")
  case (Pair a o)
  have "tp_all p' = a"
    using assms Pair by (auto simp: remove_transaction_def remove_found_def dest: remove_from_subpool_all split: option.splits)
  then show ?thesis using txs_at_remove_transaction [of i "tp_all p"] Pair by simp
qed

text \<open>The descendants are popped one by one; each removal makes the container smaller.\<close>

function remove_descendants :: "TransactionId \<Rightarrow> tx_pool \<Rightarrow> (tx_pool \<times> valid_pool_tx list) option" where
  "remove_descendants i p =
     (case descendant_txs_exclusive i (tp_all p) of
        [] \<Rightarrow> Some (p, [])
      | (j, _) # _ \<Rightarrow>
          do { (p1, r) \<leftarrow> remove_transaction j p;
               (p2, ts) \<leftarrow> remove_descendants j p1;
               Some (p2, case r of None \<Rightarrow> ts | Some t \<Rightarrow> t # ts) })"
  by pat_completeness auto

termination
proof (relation "measure (\<lambda>(i, p). length (txs (tp_all p)))", goal_cases)
  case (2 i p e m j x z p1 r)
  have "(j, x) \<in> set (txs (tp_all p))"
    using 2(1,2) set_takeWhileD [of "(j, x)" "\<lambda>e. sender (fst e) = sender i" "bafter i (txs (tp_all p))"]
    by (auto simp: descendant_txs_exclusive_def bafter_def)
  then have "length (bdel j (txs (tp_all p))) < length (txs (tp_all p))"
    unfolding bdel_def by (intro length_filter_less) auto
  then show ?case using remove_transaction_txs [of j p p1 r] 2(3,4) by auto
qed simp

definition remove_transactions_and_descendants ::
    "B256 list \<Rightarrow> tx_pool \<Rightarrow> (tx_pool \<times> valid_pool_tx list) option" where
  "remove_transactions_and_descendants hs p =
     foldl (\<lambda>st h.
        do { (p0, removed) \<leftarrow> st;
             (p1, r) \<leftarrow> remove_transaction_by_hash h p0;
             (case r of
                None \<Rightarrow> Some (p1, removed)
              | Some t \<Rightarrow>
                  do { (p2, ts) \<leftarrow> remove_descendants (transaction_id t) p1;
                       Some (p2, removed @ t # ts) }) })
       (Some (p, [])) hs"

section \<open>Fee updates\<close>

text \<open>
  Giving the transactions a sub-pool has released new state bits, and adding each to the sub-pool that
  follows from them; the second result lists those that became pending.
\<close>

definition set_state :: "TransactionId \<Rightarrow> TxState \<Rightarrow> tx_pool \<Rightarrow> tx_pool" where
  "set_state i st p =
     p\<lparr>tp_all := (tp_all p)\<lparr>txs := bupd i (\<lambda>x. x\<lparr>it_state := st, it_subpool := sub_pool_of st\<rparr>) (txs (tp_all p))\<rparr>\<rparr>"

fun reclassify ::
    "(TxState \<Rightarrow> TxState) \<Rightarrow> (SubPool \<Rightarrow> valid_pool_tx \<Rightarrow> tx_pool \<Rightarrow> tx_pool option) \<Rightarrow> valid_pool_tx list \<Rightarrow> tx_pool \<Rightarrow>
     (tx_pool \<times> valid_pool_tx list) option" where
  "reclassify f add [] p = Some (p, [])"
| "reclassify f add (t # ts) p =
     do { x \<leftarrow> map_of (txs (tp_all p)) (transaction_id t);
          let st = f (it_state x);
          let sp = sub_pool_of st;
          p1 \<leftarrow> add sp t (set_state (transaction_id t) st p);
          (p2, us) \<leftarrow> reclassify f add ts p1;
          Some (p2, if sp = Pending then t # us else us) }"

definition set_tracked_fees :: "pending_fees \<Rightarrow> tx_pool \<Rightarrow> tx_pool" where
  "set_tracked_fees fees p = p\<lparr>tp_all := (tp_all p)\<lparr>tracked_fees := fees\<rparr>\<rparr>"

definition update_blob_fee :: "u128 \<Rightarrow> Ordering \<Rightarrow> tx_pool \<Rightarrow> (tx_pool \<times> valid_pool_tx list) option" where
  "update_blob_fee fee base_ord p0 =
     (let old = blob_fee (tracked_fees (tp_all p0));
          p = set_tracked_fees ((tracked_fees (tp_all p0))\<lparr>blob_fee := fee\<rparr>) p0
      in case (cmp fee old, base_ord) of
           (Ordering.Less, _) \<Rightarrow>
             do { (b, ts) \<leftarrow> enforce_pending_fees (tracked_fees (tp_all p)) (tp_blob p);
                  reclassify (\<lambda>st. st_insert (st_insert st ENOUGH_BLOB_FEE_CAP_BLOCK) ENOUGH_FEE_CAP_BLOCK)
                    add_transaction_to_subpool ts (p\<lparr>tp_blob := b\<rparr>) }
         | (_, Ordering.Less) \<Rightarrow>
             do { (b, ts) \<leftarrow> enforce_pending_fees (tracked_fees (tp_all p)) (tp_blob p);
                  reclassify (\<lambda>st. st_insert (st_insert st ENOUGH_BLOB_FEE_CAP_BLOCK) ENOUGH_FEE_CAP_BLOCK)
                    add_transaction_to_subpool ts (p\<lparr>tp_blob := b\<rparr>) }
         | (Equal, _) \<Rightarrow> Some (p, [])
         | (Greater, _) \<Rightarrow>
             (let (q, ts) = pd_update_blob_fee fee (tp_pending p)
              in do { (p1, _) \<leftarrow> reclassify (\<lambda>st. st_remove st ENOUGH_BLOB_FEE_CAP_BLOCK)
                                   add_transaction_to_subpool ts (p\<lparr>tp_pending := q\<rparr>);
                      Some (p1, []) }))"

text \<open>
  The handler of \<open>update_basefee\<close> for a transaction that leaves the base-fee pool: it never adds to
  that pool, so running it after the pool has released all of them is the same as running it in
  between. The branch for a transaction that stays in the base-fee pool only logs.
\<close>

definition add_from_basefee :: "SubPool \<Rightarrow> valid_pool_tx \<Rightarrow> tx_pool \<Rightarrow> tx_pool option" where
  "add_from_basefee sp t p = (if sp = BaseFee then Some p else add_transaction_to_subpool sp t p)"

definition update_basefee :: "u64 \<Rightarrow> tx_pool \<Rightarrow> (tx_pool \<times> valid_pool_tx list \<times> Ordering) option" where
  "update_basefee fee p0 =
     (let old = base_fee (tracked_fees (tp_all p0));
          p = set_tracked_fees ((tracked_fees (tp_all p0))\<lparr>base_fee := fee\<rparr>) p0
      in case cmp fee old of
           Equal \<Rightarrow> Some (p, [], Equal)
         | Greater \<Rightarrow>
             (let (q, ts) = pd_update_base_fee fee (tp_pending p)
              in do { (p1, _) \<leftarrow> reclassify (\<lambda>st. st_remove st ENOUGH_FEE_CAP_BLOCK)
                                   add_transaction_to_subpool ts (p\<lparr>tp_pending := q\<rparr>);
                      Some (p1, [], Greater) })
         | Ordering.Less \<Rightarrow>
             do { (b, ts) \<leftarrow> enforce_basefee_with fee (tp_basefee p);
                  (p1, us) \<leftarrow> reclassify (\<lambda>st. st_insert st ENOUGH_FEE_CAP_BLOCK) add_from_basefee ts
                                (p\<lparr>tp_basefee := b\<rparr>);
                  Some (p1, us, Ordering.Less) })"

definition tp_set_block_info :: "block_info \<Rightarrow> tx_pool \<Rightarrow> (tx_pool \<times> update_outcome) option" where
  "tp_set_block_info info p =
     do { (p1, ts, ord) \<leftarrow> update_basefee (bi_pending_basefee info) p;
          (p2, us) \<leftarrow> (case bi_pending_blob_fee info of
                          None \<Rightarrow> Some (p1, [])
                        | Some f \<Rightarrow> update_blob_fee f ord p1);
          Some (p2\<lparr>tp_all := at_set_block_info info (tp_all p2)\<rparr>, default_outcome\<lparr>promoted := ts @ us\<rparr>) }"

definition update_pending_fees_only :: "u64 \<Rightarrow> u128 option \<Rightarrow> tx_pool \<Rightarrow> tx_pool \<times> u64 \<times> u128" where
  "update_pending_fees_only new_base new_blob p =
     (let old = tracked_fees (tp_all p)
      in (set_tracked_fees
            \<lparr>base_fee = new_base, blob_fee = (case new_blob of None \<Rightarrow> blob_fee old | Some f \<Rightarrow> f)\<rparr> p,
          base_fee old, blob_fee old))"

definition apply_fee_updates :: "u64 \<Rightarrow> u128 \<Rightarrow> update_outcome \<Rightarrow> tx_pool \<Rightarrow> (tx_pool \<times> update_outcome) option" where
  "apply_fee_updates prev_base prev_blob oc p =
     (let new = tracked_fees (tp_all p)
      in if base_fee new = prev_base \<and> blob_fee new = prev_blob then Some (p, oc)
         else
           do { let p0 = set_tracked_fees \<lparr>base_fee = prev_base, blob_fee = prev_blob\<rparr> p;
                (p1, ts, ord) \<leftarrow> update_basefee (base_fee new) p0;
                (p2, us) \<leftarrow> update_blob_fee (blob_fee new) ord p1;
                Some (p2, oc\<lparr>promoted := promoted oc @ ts @ us\<rparr>) })"

section \<open>Account updates and new blocks\<close>

definition update_accounts ::
    "(SenderId, sender_context) bmap \<Rightarrow> tx_pool \<Rightarrow> (tx_pool \<times> update_outcome) option" where
  "update_accounts changed p =
     (let (a, us) = at_update changed (tp_all p);
          a1 = a\<lparr>sender_info := fold (\<lambda>(s, c). bins s c) changed (sender_info a)\<rparr>
      in process_updates us (p\<lparr>tp_all := a1\<rparr>))"

record canonical_outcome =
  co_block_hash :: B256
  co_mined :: "B256 list"
  co_promoted :: "valid_pool_tx list"
  co_discarded :: "valid_pool_tx list"

definition on_canonical_state_change ::
    "block_info \<Rightarrow> B256 list \<Rightarrow> (SenderId, sender_context) bmap \<Rightarrow> tx_pool \<Rightarrow> (tx_pool \<times> canonical_outcome) option" where
  "on_canonical_state_change info mined changed p =
     do { (p1, _) \<leftarrow> removing_each prune_transaction_by_hash mined p;
          let (p2, prev_base, prev_blob) =
                update_pending_fees_only (bi_pending_basefee info) (bi_pending_blob_fee info) p1;
          (p3, oc) \<leftarrow> update_accounts changed p2;
          (p4, oc1) \<leftarrow> apply_fee_updates prev_base prev_blob oc p3;
          Some (p4\<lparr>tp_all := at_set_block_info info (tp_all p4)\<rparr>,
                \<lparr>co_block_hash = bi_last_seen_block_hash info, co_mined = mined,
                 co_promoted = promoted oc1, co_discarded = discarded oc1\<rparr>) }"

section \<open>Adding a transaction\<close>

datatype PoolErrorKind =
    AlreadyImported
  | ReplacementUnderpriced
  | FeeCapBelowMinimum u128
  | SpammerExceededCapacity Address
  | ExistingConflictingTransactionType Address u8
  | ExceedsGasLimit u64 u64
  | Eip4844NonceGap
  | InvalidOverdraft U256 U256
  | OutOfOrderTxFromDelegated
  | InflightTxLimitReached
  | AuthorityReserved

record pool_error =
  pe_hash :: B256
  pe_kind :: PoolErrorKind

datatype AddedTransaction =
    AddedPending valid_pool_tx "valid_pool_tx option" "valid_pool_tx list" "valid_pool_tx list"
  | AddedParked valid_pool_tx "valid_pool_tx option" SubPool "QueuedReason option"

text \<open>The hash of empty code, \<open>KECCAK_EMPTY\<close>, is defined outside this code base: it is a parameter.\<close>

definition check_delegation_limit ::
    "B256 \<Rightarrow> valid_pool_tx \<Rightarrow> u64 \<Rightarrow> B256 option \<Rightarrow> tx_pool \<Rightarrow> PoolErrorKind + unit" where
  "check_delegation_limit keccak_empty t on_chain_nonce code_hash p =
     (if (code_hash = None \<or> code_hash = Some keccak_empty) \<and> map_of (auths (tp_all p)) (tx_sender_id t) = None
      then Inr ()
      else
        let ids = pd_get_txs_by_sender (tp_pending p) (tx_sender_id t)
        in if ids = []
           then if of_nat (max_inflight_delegated_slot_limit (tp_config p)) \<le> saturating_sub (tx_nonce t) on_chain_nonce
                then Inl OutOfOrderTxFromDelegated else Inr ()
           else if transaction_id t \<in> set ids then Inr ()
           else if length ids < max_inflight_delegated_slot_limit (tp_config p) then Inr ()
           else Inl InflightTxLimitReached)"

definition validate_auth ::
    "B256 \<Rightarrow> valid_pool_tx \<Rightarrow> u64 \<Rightarrow> B256 option \<Rightarrow> tx_pool \<Rightarrow> PoolErrorKind + unit" where
  "validate_auth keccak_empty t on_chain_nonce code_hash p =
     (case check_delegation_limit keccak_empty t on_chain_nonce code_hash p of
        Inl e \<Rightarrow> Inl e
      | Inr _ \<Rightarrow>
          (case authority_ids t of
             None \<Rightarrow> Inr ()
           | Some ids \<Rightarrow>
               if list_ex (\<lambda>s. max_inflight_delegated_slot_limit (tp_config p) < length (txs_iter s (tp_all p))) ids
               then Inl AuthorityReserved else Inr ()))"

fun insert_error_kind :: "U256 \<Rightarrow> insert_err \<Rightarrow> PoolErrorKind" where
  "insert_error_kind balance (Underpriced t existing) = ReplacementUnderpriced"
| "insert_error_kind balance (FeeCapBelowMinimumProtocolFeeCap t fee_cap) = FeeCapBelowMinimum fee_cap"
| "insert_error_kind balance (ExceededSenderTransactionsCapacity t) = SpammerExceededCapacity (pt_sender (vp_transaction t))"
| "insert_error_kind balance (TxGasLimitMoreThanAvailableBlockGas t block_limit tx_limit) = ExceedsGasLimit tx_limit block_limit"
| "insert_error_kind balance (BlobTxHasNonceGap t) = Eip4844NonceGap"
| "insert_error_kind balance (Overdraft t) = InvalidOverdraft (tx_cost t) balance"
| "insert_error_kind balance (TxTypeConflict t) =
     ExistingConflictingTransactionType (pt_sender (vp_transaction t)) (tx_type t)"

text \<open>
  The moves are split around the nonce of the new transaction: those of lower nonces first, then the
  new transaction, then the others.
\<close>

definition add_between ::
    "insert_ok \<Rightarrow> tx_pool \<Rightarrow> (tx_pool \<times> update_outcome) option" where
  "add_between r p =
     (let new_nonce = nonce (transaction_id (io_transaction r));
          lower = takeWhile (\<lambda>u. \<not> new_nonce \<le> nonce (up_id u)) (io_updates r);
          rest = dropWhile (\<lambda>u. \<not> new_nonce \<le> nonce (up_id u)) (io_updates r)
      in do { (p1, oc) \<leftarrow> process_updates lower p;
              p2 \<leftarrow> add_new_transaction (io_transaction r) (io_replaced_tx r) (io_move_to r) p1;
              (p3, oc') \<leftarrow> process_updates rest p2;
              Some (p3, \<lparr>promoted = promoted oc @ promoted oc', discarded = discarded oc @ discarded oc'\<rparr>) })"

definition add_transaction ::
    "B256 \<Rightarrow> valid_pool_tx \<Rightarrow> U256 \<Rightarrow> u64 \<Rightarrow> B256 option \<Rightarrow> tx_pool \<Rightarrow>
     (tx_pool \<times> (pool_error + AddedTransaction)) option" where
  "add_transaction keccak_empty t balance on_chain_nonce code_hash p =
     (if tp_contains p (tx_hash t) then Some (p, Inl \<lparr>pe_hash = tx_hash t, pe_kind = AlreadyImported\<rparr>)
      else case validate_auth keccak_empty t on_chain_nonce code_hash p of
        Inl e \<Rightarrow> Some (p, Inl \<lparr>pe_hash = tx_hash t, pe_kind = e\<rparr>)
      | Inr _ \<Rightarrow>
          let a0 = tp_all p;
              a = a0\<lparr>sender_info := bins (tx_sender_id t) \<lparr>si_state_nonce = on_chain_nonce, si_balance = balance\<rparr> (sender_info a0)\<rparr>
          in do { res \<leftarrow> insert_tx t balance on_chain_nonce a;
                  (case res of
                     Inl e \<Rightarrow> Some (p\<lparr>tp_all := a\<rparr>, Inl \<lparr>pe_hash = tx_hash t, pe_kind = insert_error_kind balance e\<rparr>)
                   | Inr (a1, r) \<Rightarrow>
                       do { (p1, oc) \<leftarrow> add_between r (p\<lparr>tp_all := a1\<rparr>);
                            let replaced = map_option fst (io_replaced_tx r);
                            Some (p1,
                              Inr (if io_move_to r = Pending
                                   then AddedPending (io_transaction r) replaced (promoted oc) (discarded oc)
                                   else AddedParked (io_transaction r) replaced (io_move_to r)
                                          (determine_queued_reason (io_state r) (io_move_to r)))) }) })"

section \<open>Enforcing the limits\<close>

fun evict_each :: "valid_pool_tx list \<Rightarrow> tx_pool \<Rightarrow> (tx_pool \<times> valid_pool_tx list) option" where
  "evict_each [] p = Some (p, [])"
| "evict_each (t # ts) p =
     do { let p1 = p\<lparr>tp_all := fst (at_remove_transaction (transaction_id t) (tp_all p))\<rparr>;
          (p2, ds) \<leftarrow> remove_descendants (transaction_id t) p1;
          (p3, us) \<leftarrow> evict_each ts p2;
          Some (p3, t # ds @ us) }"

text \<open>One loop of the macro: \<open>exceeds\<close> and \<open>cutoff\<close> (its \<open>truncate_pool\<close>) are those of the sub-pool.\<close>

partial_function (option) discard_loop ::
    "(tx_pool \<Rightarrow> bool) \<Rightarrow> (tx_pool \<Rightarrow> (tx_pool \<times> valid_pool_tx list) option) \<Rightarrow> tx_pool \<Rightarrow>
     (tx_pool \<times> valid_pool_tx list) option" where
  "discard_loop exceeds cutoff p =
     (if exceeds p
      then do { (p1, ts) \<leftarrow> cutoff p;
                (p2, us) \<leftarrow> evict_each ts p1;
                (p3, vs) \<leftarrow> discard_loop exceeds cutoff p2;
                Some (p3, us @ vs) }
      else Some (p, []))"

declare discard_loop.simps [code]

definition discard_pending :: "tx_pool \<Rightarrow> (tx_pool \<times> valid_pool_tx list) option" where
  "discard_pending =
     discard_loop (\<lambda>p. pd_exceeds (pending_limit (tp_config p)) (tp_pending p))
       (\<lambda>p. do { (q, ts) \<leftarrow> pd_truncate_pool (pending_limit (tp_config p)) (tp_pending p);
                  Some (p\<lparr>tp_pending := q\<rparr>, ts) })"

definition discard_basefee :: "tx_pool \<Rightarrow> (tx_pool \<times> valid_pool_tx list) option" where
  "discard_basefee =
     discard_loop (\<lambda>p. pk_exceeds (basefee_limit (tp_config p)) (tp_basefee p))
       (\<lambda>p. do { (q, ts) \<leftarrow> pk_truncate_pool (basefee_limit (tp_config p)) (tp_basefee p);
                  Some (p\<lparr>tp_basefee := q\<rparr>, ts) })"

definition discard_blob :: "tx_pool \<Rightarrow> (tx_pool \<times> valid_pool_tx list) option" where
  "discard_blob =
     discard_loop (\<lambda>p. bl_exceeds (blob_limit (tp_config p)) (tp_blob p))
       (\<lambda>p. do { (q, ts) \<leftarrow> bl_truncate_pool (blob_limit (tp_config p)) (tp_blob p);
                  Some (p\<lparr>tp_blob := q\<rparr>, ts) })"

definition discard_queued :: "tx_pool \<Rightarrow> (tx_pool \<times> valid_pool_tx list) option" where
  "discard_queued =
     discard_loop (\<lambda>p. pk_exceeds (queued_limit (tp_config p)) (tp_queued p))
       (\<lambda>p. do { (q, ts) \<leftarrow> pk_truncate_pool (queued_limit (tp_config p)) (tp_queued p);
                  Some (p\<lparr>tp_queued := q\<rparr>, ts) })"

definition discard_worst :: "tx_pool \<Rightarrow> (tx_pool \<times> valid_pool_tx list) option" where
  "discard_worst p =
     do { (p1, ts1) \<leftarrow> discard_pending p;
          (p2, ts2) \<leftarrow> discard_basefee p1;
          (p3, ts3) \<leftarrow> discard_blob p2;
          (p4, ts4) \<leftarrow> discard_queued p3;
          Some (p4, ts1 @ ts2 @ ts3 @ ts4) }"

text \<open>The assertions of the test builds, for each sub-pool and for the whole pool.\<close>

definition pd_assert_invariants :: "pending_pool \<Rightarrow> bool" where
  "pd_assert_invariants p \<longleftrightarrow>
     length (independent_transactions p) \<le> length (pd_by_id p) \<and>
     length (highest_nonces p) \<le> length (pd_by_id p) \<and>
     length (highest_nonces p) = length (independent_transactions p)"

definition pk_assert_invariants :: "parked_pool \<Rightarrow> bool" where
  "pk_assert_invariants p \<longleftrightarrow> length (last_sender_submission p) = length (sender_transaction_count p)"

definition bl_assert_invariants :: "blob_pool \<Rightarrow> bool" where
  "bl_assert_invariants p \<longleftrightarrow> length (bl_by_id p) = length (bl_set p)"

definition total_is_sum :: "pool_size \<Rightarrow> bool" where
  "total_is_sum s \<longleftrightarrow> ps_total s = ps_basefee s + ps_pending s + ps_queued s + ps_blob s"

definition tp_assert_invariants :: "tx_pool \<Rightarrow> bool" where
  "tp_assert_invariants p \<longleftrightarrow>
     total_is_sum (tp_size p) \<and> at_assert_invariants (tp_all p) \<and> pd_assert_invariants (tp_pending p) \<and>
     pk_assert_invariants (tp_basefee p) \<and> pk_assert_invariants (tp_queued p) \<and>
     bl_assert_invariants (tp_blob p)"

end
