(* ===== verification/Best_Transactions.thy ===== *)
theory Best_Transactions
  imports Tx_Pool "HOL-Library.Multiset"
begin

text \<open>
  \<open>pool/best.rs\<close> and the operations that create its iterators: a copy of the pending pool that yields the
  transactions a block builder should try next. The channel of new transactions is the list of what it
  still holds for this iterator; whoever adds to the pool extends the list.

  The laws are in \<open>Best_Laws\<close> and \<open>Prioritized_Senders\<close>, for iterators with no messages waiting: an iterator
  always returns; it yields of each sender exactly the run of consecutive nonces that starts at the sender's
  independent transaction, in order; what it yields has the highest priority among the ones that are ready;
  the wrapper for fees only yields transactions that pay them; the wrapper for prioritized senders yields what
  the iterator below yields, those first that it chooses within its gas.
\<close>

section \<open>Data\<close>

text \<open>
  What \<open>try_recv\<close> of the channel can return, apart from that there is nothing. The independent
  transactions are a \<open>BTreeSet\<close>, kept by the key of their order.
\<close>

datatype channel_item = Message pending_tx | Lagged

datatype IncomingTransaction = Process pending_tx | Stash pending_tx

record best_transactions =
  be_all :: "(TransactionId, pending_tx) bmap"
  be_independent :: "(Priority \<times> u64, pending_tx) bmap"
  be_invalid :: "SenderId list"
  be_receiver :: "channel_item list option"
  be_last_priority :: "Priority option"
  be_skip_blobs :: bool
  be_out_of_order :: bool

definition MAX_NEW_TRANSACTIONS_PER_BATCH :: nat where
  "MAX_NEW_TRANSACTIONS_PER_BATCH = 16"

section \<open>Operations\<close>

definition pending_set_insert :: "pending_tx \<Rightarrow> (Priority \<times> u64, pending_tx) bmap \<Rightarrow> (Priority \<times> u64, pending_tx) bmap" where
  "pending_set_insert x st = (if map_of st (pending_key x) = None then bins (pending_key x) x st else st)"

definition be_mark_invalid :: "valid_pool_tx \<Rightarrow> best_transactions \<Rightarrow> best_transactions" where
  "be_mark_invalid t b = b\<lparr>be_invalid := List.insert (tx_sender_id t) (be_invalid b)\<rparr>"

definition be_ancestor :: "best_transactions \<Rightarrow> TransactionId \<Rightarrow> pending_tx option" where
  "be_ancestor b i = (case unchecked_ancestor i of None \<Rightarrow> None | Some j \<Rightarrow> map_of (be_all b) j)"

fun recv_next :: "channel_item list \<Rightarrow> pending_tx option \<times> channel_item list" where
  "recv_next [] = (None, [])"
| "recv_next (Lagged # q) = recv_next q"
| "recv_next (Message x # q) = (Some x, q)"

definition be_try_recv :: "best_transactions \<Rightarrow> best_transactions \<times> IncomingTransaction option" where
  "be_try_recv b =
     (case be_receiver b of
        None \<Rightarrow> (b, None)
      | Some q \<Rightarrow>
          (case recv_next q of
             (None, q') \<Rightarrow> (b\<lparr>be_receiver := Some q'\<rparr>, None)
           | (Some x, q') \<Rightarrow>
               (b\<lparr>be_receiver := Some q'\<rparr>,
                Some (if \<not> be_out_of_order b \<and>
                         (case be_last_priority b of None \<Rightarrow> False | Some lp \<Rightarrow> lp < priority x)
                      then Stash x else Process x))))"

definition pop_best :: "best_transactions \<Rightarrow> (pending_tx \<times> best_transactions) option" where
  "pop_best b =
     (case last_opt (be_independent b) of
        None \<Rightarrow> None
      | Some (k, x) \<Rightarrow>
          Some (x, b\<lparr>be_independent := bdel k (be_independent b),
                     be_all := bdel (transaction_id (pd_transaction x)) (be_all b)\<rparr>))"

definition take_in :: "pending_tx \<Rightarrow> best_transactions \<Rightarrow> best_transactions" where
  "take_in x b =
     (let i = transaction_id (pd_transaction x);
          b1 = (if be_ancestor b i = None then b\<lparr>be_independent := pending_set_insert x (be_independent b)\<rparr> else b)
      in b1\<lparr>be_all := bins i x (be_all b1)\<rparr>)"

fun add_new_transactions :: "nat \<Rightarrow> best_transactions \<Rightarrow> best_transactions" where
  "add_new_transactions 0 b = b"
| "add_new_transactions (Suc n) b =
     (case be_try_recv b of
        (b1, None) \<Rightarrow> b1
      | (b1, Some (Process x)) \<Rightarrow> add_new_transactions n (take_in x b1)
      | (b1, Some (Stash x)) \<Rightarrow>
          add_new_transactions n (b1\<lparr>be_all := bins (transaction_id (pd_transaction x)) x (be_all b1)\<rparr>))"

definition unlock_best :: "pending_tx \<Rightarrow> best_transactions \<Rightarrow> best_transactions" where
  "unlock_best x b =
     (case map_of (be_all b) (unlocks x) of
        None \<Rightarrow> b
      | Some y \<Rightarrow> b\<lparr>be_independent := pending_set_insert y (be_independent b)\<rparr>)"

partial_function (option) next_tx_and_priority ::
    "best_transactions \<Rightarrow> (best_transactions \<times> (valid_pool_tx \<times> Priority) option) option" where
  "next_tx_and_priority b =
     (let b1 = add_new_transactions MAX_NEW_TRANSACTIONS_PER_BATCH b
      in case pop_best b1 of
           None \<Rightarrow> Some (b1, None)
         | Some (x, b2) \<Rightarrow>
             (if tx_sender_id (pd_transaction x) \<in> set (be_invalid b2) then next_tx_and_priority b2
              else
                let b3 = unlock_best x b2
                in if be_skip_blobs b3 \<and> is_eip4844 (pd_transaction x)
                   then next_tx_and_priority (be_mark_invalid (pd_transaction x) b3)
                   else Some (if be_receiver b3 = None then b3 else b3\<lparr>be_last_priority := Some (priority x)\<rparr>,
                              Some (pd_transaction x, priority x))))"

declare next_tx_and_priority.simps [code]

definition be_next :: "best_transactions \<Rightarrow> (best_transactions \<times> valid_pool_tx option) option" where
  "be_next b = map_option (\<lambda>(b', r). (b', map_option fst r)) (next_tx_and_priority b)"

definition be_no_updates :: "best_transactions \<Rightarrow> best_transactions" where
  "be_no_updates b = b\<lparr>be_receiver := None, be_last_priority := None\<rparr>"

definition be_allow_updates_out_of_order :: "best_transactions \<Rightarrow> best_transactions" where
  "be_allow_updates_out_of_order b = b\<lparr>be_out_of_order := True\<rparr>"

definition be_set_skip_blobs :: "bool \<Rightarrow> best_transactions \<Rightarrow> best_transactions" where
  "be_set_skip_blobs skip b = b\<lparr>be_skip_blobs := skip\<rparr>"

section \<open>Wrappers\<close>

text \<open>
  \<open>BestTransactionFilter\<close> over an iterator with operations \<open>next\<close> and \<open>mark\<close>: what the predicate rejects is
  marked as invalid. \<open>BestTransactionsWithFees\<close> runs the same loop over \<open>BestTransactions\<close>, with the fees as
  predicate.
\<close>

partial_function (option) filter_next ::
    "('s \<Rightarrow> ('s \<times> valid_pool_tx option) option) \<Rightarrow> (valid_pool_tx \<Rightarrow> 's \<Rightarrow> 's) \<Rightarrow> (valid_pool_tx \<Rightarrow> bool) \<Rightarrow> 's \<Rightarrow>
     ('s \<times> valid_pool_tx option) option" where
  "filter_next nxt mark pred s =
     do { (s1, r) \<leftarrow> nxt s;
          (case r of
             None \<Rightarrow> Some (s1, None)
           | Some t \<Rightarrow> if pred t then Some (s1, Some t) else filter_next nxt mark pred (mark t s1)) }"

declare filter_next.simps [code]

record best_with_fees =
  bf_best :: best_transactions
  bf_base_fee :: u64
  bf_base_fee_per_blob_gas :: u64

definition pays_fees :: "u64 \<Rightarrow> u64 \<Rightarrow> valid_pool_tx \<Rightarrow> bool" where
  "pays_fees basefee blobfee t \<longleftrightarrow>
     ucast basefee \<le> max_fee_per_gas t \<and>
     (case max_fee_per_blob_gas t of None \<Rightarrow> True | Some f \<Rightarrow> ucast blobfee \<le> f)"

definition bf_next :: "best_with_fees \<Rightarrow> (best_with_fees \<times> valid_pool_tx option) option" where
  "bf_next w =
     map_option (\<lambda>(b, r). (w\<lparr>bf_best := b\<rparr>, r))
       (filter_next be_next be_mark_invalid (pays_fees (bf_base_fee w) (bf_base_fee_per_blob_gas w)) (bf_best w))"

text \<open>\<open>BestTransactionsWithPrioritizedSenders\<close>.\<close>

record 's prioritized =
  pr_inner :: 's
  pr_senders :: "Address list"
  pr_max_gas :: u64
  pr_buffer :: "valid_pool_tx list"
  pr_gas :: u64

definition new_prioritized :: "Address list \<Rightarrow> u64 \<Rightarrow> 's \<Rightarrow> 's prioritized" where
  "new_prioritized senders max_gas inner =
     \<lparr>pr_inner = inner, pr_senders = senders, pr_max_gas = max_gas, pr_buffer = [], pr_gas = 0\<rparr>"

definition takes_priority :: "'s prioritized \<Rightarrow> valid_pool_tx \<Rightarrow> bool" where
  "takes_priority w t \<longleftrightarrow>
     pt_sender (vp_transaction t) \<in> set (pr_senders w) \<and> pr_gas w + tx_gas_limit t \<le> pr_max_gas w"

partial_function (option) prioritize_loop ::
    "('s \<Rightarrow> ('s \<times> valid_pool_tx option) option) \<Rightarrow> 's prioritized \<Rightarrow>
     ('s prioritized \<times> valid_pool_tx option) option" where
  "prioritize_loop nxt w =
     do { (s, r) \<leftarrow> nxt (pr_inner w);
          (case r of
             None \<Rightarrow> Some (w\<lparr>pr_inner := s\<rparr>, None)
           | Some t \<Rightarrow>
               if takes_priority w t
               then Some (w\<lparr>pr_inner := s, pr_gas := pr_gas w + tx_gas_limit t\<rparr>, Some t)
               else prioritize_loop nxt (w\<lparr>pr_inner := s, pr_buffer := pr_buffer w @ [t]\<rparr>)) }"

declare prioritize_loop.simps [code]

definition prioritized_next ::
    "('s \<Rightarrow> ('s \<times> valid_pool_tx option) option) \<Rightarrow> 's prioritized \<Rightarrow> ('s prioritized \<times> valid_pool_tx option) option" where
  "prioritized_next nxt w =
     do { (w1, r) \<leftarrow> (if pr_gas w < pr_max_gas w then prioritize_loop nxt w else Some (w, None));
          (case r of
             Some t \<Rightarrow> Some (w1, Some t)
           | None \<Rightarrow>
               (case pr_buffer w1 of
                  t # ts \<Rightarrow> Some (w1\<lparr>pr_buffer := ts\<rparr>, Some t)
                | [] \<Rightarrow> do { (s, r') \<leftarrow> nxt (pr_inner w1); Some (w1\<lparr>pr_inner := s\<rparr>, r') })) }"

definition prioritized_mark_invalid :: "(valid_pool_tx \<Rightarrow> 's \<Rightarrow> 's) \<Rightarrow> valid_pool_tx \<Rightarrow> 's prioritized \<Rightarrow> 's prioritized" where
  "prioritized_mark_invalid mark t w = w\<lparr>pr_inner := mark t (pr_inner w)\<rparr>"

definition prioritized_set_skip_blobs :: "(bool \<Rightarrow> 's \<Rightarrow> 's) \<Rightarrow> bool \<Rightarrow> 's prioritized \<Rightarrow> 's prioritized" where
  "prioritized_set_skip_blobs set_skip skip w =
     w\<lparr>pr_buffer := (if skip then filter (\<lambda>t. \<not> is_eip4844 t) (pr_buffer w) else pr_buffer w),
       pr_inner := set_skip skip (pr_inner w)\<rparr>"

section \<open>Creating the iterators\<close>

definition pd_best :: "pending_pool \<Rightarrow> best_transactions" where
  "pd_best p =
     \<lparr>be_all = pd_by_id p,
      be_independent = fold pending_set_insert (map snd (independent_transactions p)) [],
      be_invalid = [], be_receiver = Some [], be_last_priority = None, be_skip_blobs = False,
      be_out_of_order = False\<rparr>"

definition best_with_basefee_and_blobfee :: "u64 \<Rightarrow> u64 \<Rightarrow> pending_pool \<Rightarrow> best_with_fees" where
  "best_with_basefee_and_blobfee basefee blobfee p =
     \<lparr>bf_best = pd_best p, bf_base_fee = basefee, bf_base_fee_per_blob_gas = blobfee\<rparr>"

fun take_in_unlocked ::
    "(pool_transaction \<Rightarrow> u64 \<Rightarrow> Priority) \<Rightarrow> u64 \<Rightarrow> u64 \<Rightarrow> valid_pool_tx list \<Rightarrow> best_transactions \<Rightarrow> best_transactions" where
  "take_in_unlocked ord basefee submission [] b = b"
| "take_in_unlocked ord basefee submission (t # ts) b =
     take_in_unlocked ord basefee (submission + 1) ts
       (take_in \<lparr>pd_tx_submission_id = submission, pd_transaction = t, priority = ord (vp_transaction t) basefee\<rparr> b)"

definition best_with_unlocked_and_attributes :: "valid_pool_tx list \<Rightarrow> u64 \<Rightarrow> u64 \<Rightarrow> pending_pool \<Rightarrow> best_with_fees" where
  "best_with_unlocked_and_attributes unlocked basefee blobfee p =
     \<lparr>bf_best = take_in_unlocked (ordering p) basefee (pd_submission_id p + 1) unlocked (pd_best p),
      bf_base_fee = basefee, bf_base_fee_per_blob_gas = blobfee\<rparr>"

text \<open>The two kinds of iterators behind the trait object that \<open>best_transactions_with_attributes\<close> returns.\<close>

datatype any_best = Plain best_transactions | WithFees best_with_fees

definition tp_best_transactions :: "tx_pool \<Rightarrow> best_transactions" where
  "tp_best_transactions p = pd_best (tp_pending p)"

definition best_transactions_with_attributes :: "best_attributes \<Rightarrow> tx_pool \<Rightarrow> any_best" where
  "best_transactions_with_attributes attrs p =
     (let fee = ba_basefee attrs;
          new_blob_fee = (case ba_blob_fee attrs of None \<Rightarrow> 0 | Some f \<Rightarrow> f);
          blob_ord = cmp new_blob_fee (ucast (blob_fee (tracked_fees (tp_all p))) :: u64);
          from_blob = satisfy_attributes attrs (tp_blob p)
      in case cmp fee (base_fee (tracked_fees (tp_all p))) of
           Equal \<Rightarrow>
             (case blob_ord of
                Ordering.Less \<Rightarrow> WithFees (best_with_unlocked_and_attributes from_blob fee new_blob_fee (tp_pending p))
              | Equal \<Rightarrow> Plain (pd_best (tp_pending p))
              | Greater \<Rightarrow> WithFees (best_with_basefee_and_blobfee fee new_blob_fee (tp_pending p)))
         | Greater \<Rightarrow>
             (case blob_ord of
                Ordering.Less \<Rightarrow> WithFees (best_with_unlocked_and_attributes from_blob fee new_blob_fee (tp_pending p))
              | _ \<Rightarrow> WithFees (best_with_basefee_and_blobfee fee new_blob_fee (tp_pending p)))
         | Ordering.Less \<Rightarrow>
             WithFees (best_with_unlocked_and_attributes
               (satisfy_base_fee_transactions fee (tp_basefee p) @ from_blob) fee new_blob_fee (tp_pending p)))"

end
