(* ===== verification/Pool_Invariant.thy ===== *)
theory Pool_Invariant
  imports Tx_Pool
begin

text \<open>
  The invariant of \<open>TxPool\<close>: each sub-pool satisfies its own invariant, the container of all
  transactions is well formed, and a sub-pool holds a transaction exactly when the container says so.
  Between two steps of an operation the sub-pools lag behind the container: where each transaction
  really is, is then given by a function \<open>loc\<close>. The laws of the steps are proved against it.

  \<open>tp_room\<close> is the number of submissions that are left before a 64-bit submission counter of a
  sub-pool wraps.
\<close>

section \<open>Where the transactions are\<close>

definition pool_entries :: "SubPool \<Rightarrow> tx_pool \<Rightarrow> entries" where
  "pool_entries sp p =
     (case sp of
        Queued \<Rightarrow> pk_entries (tp_queued p) | BaseFee \<Rightarrow> pk_entries (tp_basefee p)
      | Blob \<Rightarrow> bl_entries (tp_blob p) | Pending \<Rightarrow> pd_entries (tp_pending p))"

definition subpools_inv :: "tx_pool \<Rightarrow> bool" where
  "subpools_inv p \<longleftrightarrow>
     pk_inv (tp_queued p) \<and> pk_inv (tp_basefee p) \<and> bl_inv (tp_blob p) \<and> pd_inv (tp_pending p)"

definition tp_room :: "tx_pool \<Rightarrow> nat" where
  "tp_room p = min (min (pk_room (tp_queued p)) (pk_room (tp_basefee p)))
     (min (bl_room (tp_blob p)) (pd_room (tp_pending p)))"

type_synonym location = "TransactionId \<Rightarrow> (SubPool \<times> valid_pool_tx) option"

definition held_in :: "SubPool \<Rightarrow> (SubPool \<times> valid_pool_tx) option \<Rightarrow> valid_pool_tx option" where
  "held_in sp l = (case l of None \<Rightarrow> None | Some (sp', t) \<Rightarrow> if sp' = sp then Some t else None)"

definition holds :: "tx_pool \<Rightarrow> location \<Rightarrow> bool" where
  "holds p loc \<longleftrightarrow> (\<forall>sp i. map_of (pool_entries sp p) i = held_in sp (loc i))"

definition placed :: "all_transactions \<Rightarrow> location" where
  "placed a i = map_option (\<lambda>x. (it_subpool x, it_transaction x)) (map_of (txs a) i)"

definition tp_inv :: "tx_pool \<Rightarrow> bool" where
  "tp_inv p \<longleftrightarrow> subpools_inv p \<and> all_wf (tp_all p) \<and> holds p (placed (tp_all p))"

definition accepts :: "SubPool \<Rightarrow> valid_pool_tx \<Rightarrow> bool" where
  "accepts sp t \<longleftrightarrow> (sp = Pending \<longrightarrow> nonce_matches t) \<and> (sp = Blob \<longrightarrow> is_eip4844 t)"

lemma held_in_simps [simp]:
  "held_in sp None = None" "held_in sp (Some (sp', t)) = (if sp' = sp then Some t else None)"
  by (simp_all add: held_in_def)

lemma holdsD: "holds p loc \<Longrightarrow> map_of (pool_entries sp p) i = held_in sp (loc i)"
  by (simp add: holds_def)

lemma holdsI: "(\<And>sp i. map_of (pool_entries sp p) i = held_in sp (loc i)) \<Longrightarrow> holds p loc"
  by (simp add: holds_def)

lemma subpools_invD:
  assumes "subpools_inv p"
  shows "pk_inv (tp_queued p)" and "pk_inv (tp_basefee p)" and "bl_inv (tp_blob p)" and "pd_inv (tp_pending p)"
  using assms by (simp_all add: subpools_inv_def)

lemma pool_entries_sorted: "subpools_inv p \<Longrightarrow> bsorted (pool_entries sp p)"
  by (cases sp) (auto simp: pool_entries_def subpools_inv_def parked.entries_sorted pending.entries_sorted
      blob.entries_sorted)

text \<open>An operation on one sub-pool: the new content and the number of submissions it took.\<close>

definition touches :: "SubPool \<Rightarrow> entries \<Rightarrow> nat \<Rightarrow> tx_pool \<Rightarrow> tx_pool \<Rightarrow> bool" where
  "touches sp m n p p' \<longleftrightarrow>
     subpools_inv p' \<and> pool_entries sp p' = m \<and> (\<forall>sp'. sp' \<noteq> sp \<longrightarrow> pool_entries sp' p' = pool_entries sp' p) \<and>
     tp_room p \<le> tp_room p' + n \<and> tp_all p' = tp_all p \<and> tp_config p' = tp_config p"

lemma remove_touches:
  assumes "subpools_inv p"
  obtains p' where "remove_from_subpool sp i p = Some (p', map_of (pool_entries sp p) i)"
    and "touches sp (bdel i (pool_entries sp p)) 0 p p'"
proof (cases sp)
  case Queued
  obtain q where "pk_remove_transaction i (tp_queued p) = Some (q, map_of (pk_entries (tp_queued p)) i)"
      "pk_inv q" "pk_entries q = bdel i (pk_entries (tp_queued p))" "pk_room q = pk_room (tp_queued p)"
    using parked.remove_law [OF subpools_invD(1) [OF assms]] by blast
  then show thesis
    using that [of "p\<lparr>tp_queued := q\<rparr>"] Queued assms
    by (auto simp: remove_from_subpool_def touches_def subpools_inv_def pool_entries_def tp_room_def split: SubPool.split)
next
  case BaseFee
  obtain q where "pk_remove_transaction i (tp_basefee p) = Some (q, map_of (pk_entries (tp_basefee p)) i)"
      "pk_inv q" "pk_entries q = bdel i (pk_entries (tp_basefee p))" "pk_room q = pk_room (tp_basefee p)"
    using parked.remove_law [OF subpools_invD(2) [OF assms]] by blast
  then show thesis
    using that [of "p\<lparr>tp_basefee := q\<rparr>"] BaseFee assms
    by (auto simp: remove_from_subpool_def touches_def subpools_inv_def pool_entries_def tp_room_def split: SubPool.split)
next
  case Blob
  obtain q where "bl_remove i (tp_blob p) = Some (q, map_of (bl_entries (tp_blob p)) i)"
      "bl_inv q" "bl_entries q = bdel i (bl_entries (tp_blob p))" "bl_room q = bl_room (tp_blob p)"
    using blob.remove_law [OF subpools_invD(3) [OF assms]] by blast
  then show thesis
    using that [of "p\<lparr>tp_blob := q\<rparr>"] Blob assms
    by (auto simp: remove_from_subpool_def bl_remove_def touches_def subpools_inv_def pool_entries_def tp_room_def
        split: SubPool.split)
next
  case Pending
  obtain q where "pd_remove i (tp_pending p) = Some (q, map_of (pd_entries (tp_pending p)) i)"
      "pd_inv q" "pd_entries q = bdel i (pd_entries (tp_pending p))" "pd_room q = pd_room (tp_pending p)"
    using pending.remove_law [OF subpools_invD(4) [OF assms]] by blast
  then show thesis
    using that [of "p\<lparr>tp_pending := q\<rparr>"] Pending assms
    by (auto simp: remove_from_subpool_def pd_remove_def touches_def subpools_inv_def pool_entries_def tp_room_def
        split: SubPool.split)
qed

lemma add_touches:
  assumes "subpools_inv p" and "map_of (pool_entries sp p) (transaction_id t) = None" and "accepts sp t"
    and "0 < tp_room p"
  obtains p' where "add_transaction_to_subpool sp t p = Some p'"
    and "touches sp (bins (transaction_id t) t (pool_entries sp p)) 1 p p'"
proof (cases sp)
  case Queued
  let ?q = "pk_add_transaction t (tp_queued p)"
  have "pk_inv ?q" "pk_entries ?q = bins (transaction_id t) t (pk_entries (tp_queued p))"
      "pk_room ?q = pk_room (tp_queued p) - 1"
    using parked.add_law [OF subpools_invD(1) [OF assms(1)], of t] assms(2,4) Queued
    by (auto simp: pool_entries_def tp_room_def)
  then show thesis
    using that [of "p\<lparr>tp_queued := ?q\<rparr>"] Queued assms
    by (auto simp: add_transaction_to_subpool_def touches_def subpools_inv_def pool_entries_def tp_room_def
        split: SubPool.split)
next
  case BaseFee
  let ?q = "pk_add_transaction t (tp_basefee p)"
  have "pk_inv ?q" "pk_entries ?q = bins (transaction_id t) t (pk_entries (tp_basefee p))"
      "pk_room ?q = pk_room (tp_basefee p) - 1"
    using parked.add_law [OF subpools_invD(2) [OF assms(1)], of t] assms(2,4) BaseFee
    by (auto simp: pool_entries_def tp_room_def)
  then show thesis
    using that [of "p\<lparr>tp_basefee := ?q\<rparr>"] BaseFee assms
    by (auto simp: add_transaction_to_subpool_def touches_def subpools_inv_def pool_entries_def tp_room_def
        split: SubPool.split)
next
  case Blob
  obtain q where "bl_add_transaction t (tp_blob p) = Some q" "bl_inv q"
      "bl_entries q = bins (transaction_id t) t (bl_entries (tp_blob p))" "bl_room q = bl_room (tp_blob p) - 1"
    using blob.add_law [OF subpools_invD(3) [OF assms(1)], of t] assms(2-4) Blob
    by (auto simp: pool_entries_def tp_room_def accepts_def)
  then show thesis
    using that [of "p\<lparr>tp_blob := q\<rparr>"] Blob assms
    by (auto simp: add_transaction_to_subpool_def touches_def subpools_inv_def pool_entries_def tp_room_def
        split: SubPool.split)
next
  case Pending
  let ?q = "pd_add_transaction t (base_fee (tracked_fees (tp_all p))) (tp_pending p)"
  have "pd_inv ?q" "pd_entries ?q = bins (transaction_id t) t (pd_entries (tp_pending p))"
      "pd_room ?q = pd_room (tp_pending p) - 1"
    using pending.add_law [OF subpools_invD(4) [OF assms(1)], of t] assms(2-4) Pending
    by (auto simp: pool_entries_def tp_room_def accepts_def)
  then show thesis
    using that [of "p\<lparr>tp_pending := ?q\<rparr>"] Pending assms
    by (auto simp: add_transaction_to_subpool_def touches_def subpools_inv_def pool_entries_def tp_room_def
        split: SubPool.split)
qed

lemma touches_holds:
  assumes "holds p loc" and "touches sp m n p p'" and "\<And>i. map_of m i = held_in sp (loc' i)"
    and "\<And>sp' i. sp' \<noteq> sp \<Longrightarrow> held_in sp' (loc' i) = held_in sp' (loc i)"
  shows "holds p' loc'"
proof (rule holdsI)
  fix sp' i
  show "map_of (pool_entries sp' p') i = held_in sp' (loc' i)"
    using assms(2-4) holdsD [OF assms(1), of sp' i] by (cases "sp' = sp") (simp_all add: touches_def)
qed

text \<open>The two steps, in terms of locations.\<close>

definition frame :: "nat \<Rightarrow> tx_pool \<Rightarrow> tx_pool \<Rightarrow> bool" where
  "frame n p p' \<longleftrightarrow>
     subpools_inv p' \<and> tp_room p \<le> tp_room p' + n \<and> tp_all p' = tp_all p \<and> tp_config p' = tp_config p"

lemma touches_frame: "touches sp m n p p' \<Longrightarrow> frame n p p'"
  by (simp add: touches_def frame_def)

lemma remove_found_law:
  assumes "subpools_inv p" and "holds p loc" and "loc i = Some (sp, t)"
  obtains p' where "remove_from_subpool sp i p = Some (p', Some t)" and "holds p' (loc(i := None))"
    and "frame 0 p p'"
proof -
  obtain p' where p': "remove_from_subpool sp i p = Some (p', map_of (pool_entries sp p) i)"
      "touches sp (bdel i (pool_entries sp p)) 0 p p'"
    by (rule remove_touches [OF assms(1)])
  have "holds p' (loc(i := None))"
    by (rule touches_holds [OF assms(2) p'(2)])
      (use assms(3) holdsD [OF assms(2), of sp] in \<open>auto simp: map_of_bdel\<close>)
  then show thesis
    using that [of p'] p' holdsD [OF assms(2), of sp i] assms(3) touches_frame by simp
qed

lemma remove_absent_law:
  assumes "subpools_inv p" and "holds p loc" and "loc i = None"
  obtains p' where "remove_from_subpool sp i p = Some (p', None)" and "holds p' loc" and "frame 0 p p'"
proof -
  obtain p' where p': "remove_from_subpool sp i p = Some (p', map_of (pool_entries sp p) i)"
      "touches sp (bdel i (pool_entries sp p)) 0 p p'"
    by (rule remove_touches [OF assms(1)])
  have "holds p' loc"
    by (rule touches_holds [OF assms(2) p'(2)])
      (use assms(3) holdsD [OF assms(2), of sp] in \<open>auto simp: map_of_bdel\<close>)
  then show thesis
    using that [of p'] p' holdsD [OF assms(2), of sp i] assms(3) touches_frame by simp
qed

lemma add_law:
  assumes "subpools_inv p" and "holds p loc" and "loc (transaction_id t) = None" and "accepts sp t"
    and "0 < tp_room p"
  obtains p' where "add_transaction_to_subpool sp t p = Some p'"
    and "holds p' (loc(transaction_id t \<mapsto> (sp, t)))" and "frame 1 p p'"
proof -
  have none: "map_of (pool_entries sp' p) (transaction_id t) = None" for sp'
    using holdsD [OF assms(2), of sp' "transaction_id t"] assms(3) by simp
  obtain p' where p': "add_transaction_to_subpool sp t p = Some p'"
      "touches sp (bins (transaction_id t) t (pool_entries sp p)) 1 p p'"
    by (rule add_touches [OF assms(1) none assms(4,5)])
  have "holds p' (loc(transaction_id t \<mapsto> (sp, t)))"
    by (rule touches_holds [OF assms(2) p'(2)])
      (use assms(3) holdsD [OF assms(2), of sp] in \<open>auto simp: map_of_bins\<close>)
  then show thesis using that [of p'] p' touches_frame by blast
qed

section \<open>Applying the moves\<close>

text \<open>
  \<open>ready us a loc\<close>: every update of \<open>us\<close> names a transaction of the container that really is where the
  update says, and its destination is the sub-pool the container records.
\<close>

definition ready_for :: "all_transactions \<Rightarrow> location \<Rightarrow> pool_update \<Rightarrow> bool" where
  "ready_for a loc u \<longleftrightarrow>
     (\<exists>x. map_of (txs a) (up_id u) = Some x \<and> loc (up_id u) = Some (up_current u, it_transaction x) \<and>
        (up_destination u = Discard \<and> it_subpool x = up_current u \<or> up_destination u = Pool (it_subpool x)))"

definition ready :: "pool_update list \<Rightarrow> all_transactions \<Rightarrow> location \<Rightarrow> bool" where
  "ready us a loc \<longleftrightarrow> distinct (map up_id us) \<and> (\<forall>u \<in> set us. ready_for a loc u)"

text \<open>Where everything is afterwards.\<close>

definition applied :: "pool_update list \<Rightarrow> all_transactions \<Rightarrow> location \<Rightarrow> location" where
  "applied us a loc i =
     (if i \<in> set (discarded_ids us) then None
      else if i \<in> up_id ` set us then placed a i else loc i)"

definition tx_at :: "all_transactions \<Rightarrow> TransactionId \<Rightarrow> valid_pool_tx" where
  "tx_at a i = it_transaction (the (map_of (txs a) i))"

definition outcome_of :: "pool_update list \<Rightarrow> all_transactions \<Rightarrow> update_outcome" where
  "outcome_of us a =
     \<lparr>promoted = map (tx_at a \<circ> up_id) (filter (\<lambda>u. up_destination u = Pool Pending) us),
      discarded = map (tx_at a \<circ> up_id) (filter (\<lambda>u. up_destination u = Discard) us)\<rparr>"

text \<open>What removing transactions leaves of the container.\<close>

definition cuts :: "TransactionId list \<Rightarrow> all_transactions \<Rightarrow> all_transactions \<Rightarrow> bool" where
  "cuts ids a a' \<longleftrightarrow>
     all_wf a' \<and> settings a' = settings a \<and> txs a' = filter (\<lambda>e. fst e \<notin> set ids) (txs a)"

lemma cuts_refl: "all_wf a \<Longrightarrow> cuts [] a a"
  by (simp add: cuts_def)

lemma cuts_trans: "cuts ids a a1 \<Longrightarrow> cuts jds a1 a2 \<Longrightarrow> cuts (ids @ jds) a a2"
  by (auto simp: cuts_def intro!: filter_cong)

lemma cuts_one:
  "all_wf a \<Longrightarrow> map_of (txs a) i = Some x \<Longrightarrow> cuts [i] a (without i x a)"
  using without_law [of a i x] by (simp add: cuts_def bdel_def)

lemma cuts_map_of: "cuts ids a a' \<Longrightarrow> map_of (txs a') i = (if i \<in> set ids then None else map_of (txs a) i)"
  using map_of_filter_keys [of "\<lambda>k. k \<notin> set ids" "txs a" i] by (simp add: cuts_def)

lemma all_wf_accepts:
  assumes "all_wf a" and "map_of (txs a) i = Some x"
  shows "accepts (it_subpool x) (it_transaction x)"
  using all_wfD(7) [OF assms] all_wf_tx(2) [OF assms] sub_pool_of_eq_Blob [of "it_state x"]
  by (auto simp: accepts_def state_ok_def)

lemma prune_law:
  assumes sub: "subpools_inv p" and wf: "all_wf (tp_all p)" and h: "holds p loc"
    and x: "map_of (txs (tp_all p)) i = Some x" and l: "loc i = Some (it_subpool x, it_transaction x)"
  obtains p' where "prune_transaction_by_id i p = Some (p', Some (it_transaction x))"
    and "tp_all p' = without i x (tp_all p)" and "holds p' (loc(i := None))" and "subpools_inv p'"
    and "tp_room p \<le> tp_room p'" and "tp_config p' = tp_config p"
proof -
  let ?q = "p\<lparr>tp_all := without i x (tp_all p)\<rparr>"
  have q: "subpools_inv ?q" "holds ?q loc" "tp_room ?q = tp_room p"
    using sub h by (simp_all add: subpools_inv_def holds_def pool_entries_def tp_room_def cong: SubPool.case_cong)
  obtain p' where p': "remove_from_subpool (it_subpool x) i ?q = Some (p', Some (it_transaction x))"
      "holds p' (loc(i := None))" "frame 0 ?q p'"
    by (rule remove_found_law [OF q(1,2) l])
  have "transaction_id (it_transaction x) = i" by (rule all_wf_tx [OF wf x])
  then show thesis
    using that [of p'] p' q(3)
    by (simp add: prune_transaction_by_id_def remove_found_def at_remove_by_id_eq [OF wf x] frame_def)
qed

lemma move_law:
  assumes sub: "subpools_inv p" and h: "holds p loc" and l: "loc i = Some (from, t)"
    and id: "transaction_id t = i" and acc: "accepts to t" and room: "0 < tp_room p"
  obtains p' where "move_transaction from to i p = Some (p', Some t)" and "holds p' (loc(i \<mapsto> (to, t)))"
    and "frame 1 p p'"
proof -
  obtain p1 where p1: "remove_from_subpool from i p = Some (p1, Some t)" "holds p1 (loc(i := None))" "frame 0 p p1"
    by (rule remove_found_law [OF sub h l])
  have "subpools_inv p1" "0 < tp_room p1" using p1(3) room by (auto simp: frame_def)
  then obtain p2 where p2: "add_transaction_to_subpool to t p1 = Some p2"
      "holds p2 ((loc(i := None))(transaction_id t \<mapsto> (to, t)))" "frame 1 p1 p2"
    using add_law [OF _ p1(2) _ acc] id by auto
  then show thesis using that [of p2] p1 id by (auto simp: move_transaction_def frame_def)
qed

text \<open>The same after some moves are done: the rest is still ready.\<close>

lemma ready_later:
  assumes "ready us a loc" and "\<And>i. i \<in> up_id ` set us \<Longrightarrow> loc' i = loc i"
    and "\<And>i. i \<in> up_id ` set us \<Longrightarrow> map_of (txs a') i = map_of (txs a) i"
  shows "ready us a' loc'"
  using assms unfolding ready_def ready_for_def by fastforce

lemma outcome_of_cong:
  "(\<And>i. i \<in> up_id ` set us \<Longrightarrow> map_of (txs a') i = map_of (txs a) i) \<Longrightarrow> outcome_of us a' = outcome_of us a"
  by (auto simp: outcome_of_def tx_at_def)

definition processed :: "pool_update list \<Rightarrow> tx_pool \<Rightarrow> location \<Rightarrow> tx_pool \<Rightarrow> bool" where
  "processed us p loc p' \<longleftrightarrow>
     subpools_inv p' \<and> cuts (discarded_ids us) (tp_all p) (tp_all p') \<and>
     holds p' (applied us (tp_all p) loc) \<and> tp_room p \<le> tp_room p' + length us \<and> tp_config p' = tp_config p"

lemma applied_Nil [simp]: "applied [] a loc = loc"
  by (simp add: applied_def fun_eq_iff)

text \<open>One update: what is left to do is ready in the pool that results, and completes the whole.\<close>

definition steps_to :: "pool_update \<Rightarrow> pool_update list \<Rightarrow> tx_pool \<Rightarrow> location \<Rightarrow> tx_pool \<Rightarrow> location \<Rightarrow> bool" where
  "steps_to u us p loc p1 loc1 \<longleftrightarrow>
     ready us (tp_all p1) loc1 \<and> subpools_inv p1 \<and> all_wf (tp_all p1) \<and> holds p1 loc1 \<and> length us \<le> tp_room p1 \<and>
     outcome_of us (tp_all p1) = outcome_of us (tp_all p) \<and>
     (\<forall>p2. processed us p1 loc1 p2 \<longrightarrow> processed (u # us) p loc p2)"

lemma readyE:
  assumes "ready (u # us) a loc"
  obtains x where "map_of (txs a) (up_id u) = Some x" and "loc (up_id u) = Some (up_current u, it_transaction x)"
    and "up_destination u = Discard \<and> it_subpool x = up_current u \<or> up_destination u = Pool (it_subpool x)"
    and "ready us a loc" and "up_id u \<notin> up_id ` set us" and "\<forall>j \<in> up_id ` set us. j \<noteq> up_id u"
proof -
  have "ready us a loc" and new: "up_id u \<notin> up_id ` set us" using assms by (simp_all add: ready_def)
  moreover have "\<forall>j \<in> up_id ` set us. j \<noteq> up_id u" using new by metis
  moreover have "ready_for a loc u" using assms by (simp add: ready_def)
  ultimately show thesis using that unfolding ready_for_def by metis
qed

lemma discarded_ids_sub: "set (discarded_ids us) \<subseteq> up_id ` set us"
  by (auto simp: discarded_ids_def)

lemma process_discard:
  assumes rd: "ready (u # us) (tp_all p) loc" and inv: "subpools_inv p" "all_wf (tp_all p)" "holds p loc"
    and len: "length (u # us) \<le> tp_room p" and dest: "up_destination u = Discard"
  obtains p1 loc1 where "prune_transaction_by_id (up_id u) p = Some (p1, Some (tx_at (tp_all p) (up_id u)))"
    and "steps_to u us p loc p1 loc1"
proof -
  let ?a = "tp_all p" and ?i = "up_id u" and ?loc1 = "loc(up_id u := None)"
  obtain x where x: "map_of (txs ?a) ?i = Some x" "loc ?i = Some (up_current u, it_transaction x)"
      "up_destination u = Discard \<and> it_subpool x = up_current u \<or> up_destination u = Pool (it_subpool x)"
      "ready us ?a loc" "?i \<notin> up_id ` set us" "\<forall>j \<in> up_id ` set us. j \<noteq> ?i"
    by (rule readyE [OF rd])
  have neq: "j \<noteq> ?i" if "j \<in> up_id ` set us" for j using x(6) that by (rule bspec)
  have l: "loc ?i = Some (it_subpool x, it_transaction x)" using x(2,3) dest by auto
  obtain p1 where p1: "prune_transaction_by_id ?i p = Some (p1, Some (it_transaction x))"
      "tp_all p1 = without ?i x ?a" "holds p1 ?loc1" "subpools_inv p1"
      "tp_room p \<le> tp_room p1" "tp_config p1 = tp_config p"
    by (rule prune_law [OF inv x(1) l])
  have cut: "cuts [?i] ?a (tp_all p1)" unfolding p1(2) by (rule cuts_one [OF inv(2) x(1)])
  have same: "map_of (txs (tp_all p1)) j = map_of (txs ?a) j" if "j \<in> up_id ` set us" for j
    using neq [OF that] cuts_map_of [OF cut, of j] by simp
  have rd1: "ready us (tp_all p1) ?loc1"
    by (rule ready_later [OF x(4)]) (use neq same in simp_all)
  have ids: "discarded_ids (u # us) = ?i # discarded_ids us" using dest by (simp add: discarded_ids_def)
  have "applied us (tp_all p1) ?loc1 = applied (u # us) ?a loc"
    using discarded_ids_sub [of us] same neq x(5) by (simp add: fun_eq_iff applied_def ids placed_def subset_iff)
  then have "\<forall>p2. processed us p1 ?loc1 p2 \<longrightarrow> processed (u # us) p loc p2"
    using p1(5,6) cuts_trans [OF cut, of "discarded_ids us"] by (auto simp: processed_def ids)
  moreover have "outcome_of us (tp_all p1) = outcome_of us ?a" by (rule outcome_of_cong [OF same])
  moreover have "all_wf (tp_all p1)" "length us \<le> tp_room p1" using cut p1(5) len by (simp_all add: cuts_def)
  moreover have "tx_at ?a ?i = it_transaction x" using x(1) by (simp add: tx_at_def)
  ultimately show thesis using that [of p1 ?loc1] p1 rd1 by (simp add: steps_to_def)
qed

lemma process_move:
  assumes rd: "ready (u # us) (tp_all p) loc" and inv: "subpools_inv p" "all_wf (tp_all p)" "holds p loc"
    and len: "length (u # us) \<le> tp_room p" and dest: "up_destination u = Pool sp"
  obtains p1 loc1 where "move_transaction (up_current u) sp (up_id u) p = Some (p1, Some (tx_at (tp_all p) (up_id u)))"
    and "steps_to u us p loc p1 loc1"
proof -
  let ?a = "tp_all p" and ?i = "up_id u"
  obtain x where x: "map_of (txs ?a) ?i = Some x" "loc ?i = Some (up_current u, it_transaction x)"
      "up_destination u = Discard \<and> it_subpool x = up_current u \<or> up_destination u = Pool (it_subpool x)"
      "ready us ?a loc" "?i \<notin> up_id ` set us" "\<forall>j \<in> up_id ` set us. j \<noteq> ?i"
    by (rule readyE [OF rd])
  have neq: "j \<noteq> ?i" if "j \<in> up_id ` set us" for j using x(6) that by (rule bspec)
  let ?loc1 = "loc(?i \<mapsto> (it_subpool x, it_transaction x))"
  have sp: "sp = it_subpool x" using x(3) dest by simp
  have id: "transaction_id (it_transaction x) = ?i" by (rule all_wf_tx [OF inv(2) x(1)])
  have "0 < tp_room p" using len by simp
  then obtain p1 where p1: "move_transaction (up_current u) (it_subpool x) ?i p = Some (p1, Some (it_transaction x))"
      "holds p1 ?loc1" "frame 1 p p1"
    using move_law [OF inv(1,3) x(2) id all_wf_accepts [OF inv(2) x(1)]] by blast
  have F: "tp_all p1 = ?a" "subpools_inv p1" "tp_room p \<le> tp_room p1 + 1" "tp_config p1 = tp_config p"
    using p1(3) by (simp_all add: frame_def)
  have rd1: "ready us (tp_all p1) ?loc1"
    by (rule ready_later [OF x(4)]) (use neq F(1) in simp_all)
  have ids: "discarded_ids (u # us) = discarded_ids us" using dest by (simp add: discarded_ids_def)
  have "applied us ?a ?loc1 = applied (u # us) ?a loc"
    using discarded_ids_sub [of us] x(1,5) neq by (simp add: fun_eq_iff applied_def ids placed_def subset_iff)
  then have "\<forall>p2. processed us p1 ?loc1 p2 \<longrightarrow> processed (u # us) p loc p2"
    using F by (auto simp: processed_def ids)
  moreover have "tx_at ?a ?i = it_transaction x" using x(1) by (simp add: tx_at_def)
  ultimately show thesis using that [of p1 ?loc1] p1 rd1 F inv(2) len sp by (simp add: steps_to_def)
qed

lemma process_updates_law:
  "ready us (tp_all p) loc \<Longrightarrow> subpools_inv p \<Longrightarrow> all_wf (tp_all p) \<Longrightarrow> holds p loc \<Longrightarrow> length us \<le> tp_room p \<Longrightarrow>
   \<exists>p'. process_updates us p = Some (p', outcome_of us (tp_all p)) \<and> processed us p loc p'"
proof (induction us arbitrary: p loc)
  case Nil
  then show ?case
    by (auto simp: processed_def outcome_of_def default_outcome_def cuts_refl)
next
  case (Cons u us p loc)
  have step: "\<exists>p'. process_updates us p1 = Some (p', outcome_of us (tp_all p)) \<and> processed (u # us) p loc p'"
    if "steps_to u us p loc p1 loc1" for p1 loc1
    using that Cons.IH [of p1 loc1] by (auto simp: steps_to_def)
  show ?case
  proof (cases "up_destination u")
    case Discard
    with Cons.prems obtain p1 loc1 where p1: "steps_to u us p loc p1 loc1"
        "prune_transaction_by_id (up_id u) p = Some (p1, Some (tx_at (tp_all p) (up_id u)))"
      using process_discard by metis
    then show ?thesis using step [OF p1(1)] Discard by (auto simp: outcome_of_def)
  next
    case (Pool sp)
    with Cons.prems obtain p1 loc1 where p1: "steps_to u us p loc p1 loc1"
        "move_transaction (up_current u) sp (up_id u) p = Some (p1, Some (tx_at (tp_all p) (up_id u)))"
      using process_move by metis
    then show ?thesis using step [OF p1(1)] Pool by (auto simp: outcome_of_def)
  qed
qed

text \<open>The moves an operation of the container returns are ready, and bring the sub-pools in line.\<close>

lemma moves_ready:
  assumes "moves new m us (txs a)" and "bsorted m"
    and "\<And>i x. map_of m i = Some x \<Longrightarrow> new \<noteq> Some i \<Longrightarrow> loc i = Some (it_subpool x, it_transaction x)"
  shows "ready us a loc"
  unfolding ready_def
proof (intro conjI ballI)
  show "distinct (map up_id us)"
    using moves_ascending [OF assms(1,2)] strict_sorted_iff by blast
  fix u assume "u \<in> set us"
  from moves_at [OF assms(1,2) this] obtain x x' where
    u: "new \<noteq> Some (up_id u)" "map_of m (up_id u) = Some x" "map_of (txs a) (up_id u) = Some x'" "update_ok x x' u"
    by blast
  then show "ready_for a loc u"
    using assms(3) [OF u(2,1)] by (auto simp: ready_for_def update_ok_def)
qed

lemma moves_placed:
  assumes "moves new m us (txs a)" and "bsorted m" and "i \<notin> up_id ` set us" and "new \<noteq> Some i"
  shows "placed a i = map_option (\<lambda>x. (it_subpool x, it_transaction x)) (map_of m i)"
proof (cases "map_of m i")
  case None
  then have "map_of (txs a) i = None"
    using moves_keys [OF assms(1)] by (metis map_of_eq_None_iff list.set_map)
  then show ?thesis using None by (simp add: placed_def)
next
  case (Some x)
  then show ?thesis using moves_other [OF assms Some] by (auto simp: placed_def)
qed


text \<open>The promotions that are reported are the transactions that become pending.\<close>

lemma moves_promoted:
  assumes mv: "moves new m us (txs a)" and sm: "bsorted m"
  shows "set (promoted (outcome_of us a)) =
    {t. \<exists>i x x'. new \<noteq> Some i \<and> map_of m i = Some x \<and> map_of (txs a) i = Some x' \<and> it_transaction x' = t \<and>
          it_subpool x \<noteq> Pending \<and> it_subpool x' = Pending}" (is "?L = ?R")
proof
  show "?L \<subseteq> ?R"
  proof
    fix t assume "t \<in> ?L"
    then obtain u where u: "u \<in> set us" "up_destination u = Pool Pending" "t = tx_at a (up_id u)"
      by (auto simp: outcome_of_def)
    from moves_at [OF mv sm u(1)] show "t \<in> ?R" using u(2,3) by (auto simp: update_ok_def tx_at_def)
  qed
  show "?R \<subseteq> ?L"
  proof
    fix t assume "t \<in> ?R"
    then obtain i x x' where i: "new \<noteq> Some i" "map_of m i = Some x" "map_of (txs a) i = Some x'"
        "it_transaction x' = t" "it_subpool x \<noteq> Pending" "it_subpool x' = Pending" by blast
    have "i \<in> up_id ` set us" using moves_other [OF mv sm _ i(1,2)] i(3,5,6) by force
    then obtain u where u: "u \<in> set us" "up_id u = i" by blast
    have "up_destination u = Pool Pending" using moves_at [OF mv sm u(1)] i u(2) by (auto simp: update_ok_def)
    then show "t \<in> ?L" using u i(3,4) by (force simp: outcome_of_def tx_at_def)
  qed
qed

end
