(* ===== verification/Pool_Operations.thy ===== *)
theory Pool_Operations
  imports Pool_Invariant
begin

text \<open>
  The operations of \<open>TxPool\<close> that remove transactions, apply account changes and add a transaction:
  none of them panics on a pool that satisfies the invariant, as long as the submission counters
  have room, and each keeps the invariant.
\<close>

section \<open>Results\<close>

text \<open>\<open>after n p p'\<close>: the invariant holds again, at a price of at most \<open>n\<close> submissions.\<close>

definition after :: "nat \<Rightarrow> tx_pool \<Rightarrow> tx_pool \<Rightarrow> bool" where
  "after n p p' \<longleftrightarrow> tp_inv p' \<and> tp_room p \<le> tp_room p' + n \<and> tp_config p' = tp_config p"

lemma after_refl: "tp_inv p \<Longrightarrow> after 0 p p"
  by (simp add: after_def)

lemma after_trans: "after n p p1 \<Longrightarrow> after k p1 p2 \<Longrightarrow> after (n + k) p p2"
  by (auto simp: after_def)

lemma after_mono: "after n p p' \<Longrightarrow> n \<le> k \<Longrightarrow> after k p p'"
  by (auto simp: after_def)

definition pruned :: "TransactionId list \<Rightarrow> tx_pool \<Rightarrow> tx_pool \<Rightarrow> bool" where
  "pruned ids p p' \<longleftrightarrow> after 0 p p' \<and> cuts ids (tp_all p) (tp_all p')"

lemma pruned_trans: "pruned ids p p1 \<Longrightarrow> pruned jds p1 p2 \<Longrightarrow> pruned (ids @ jds) p p2"
  unfolding pruned_def using after_trans [of 0 p p1 0 p2] cuts_trans by auto

lemma tp_invD:
  assumes "tp_inv p"
  shows "subpools_inv p" and "all_wf (tp_all p)" and "holds p (placed (tp_all p))"
  using assms by (simp_all add: tp_inv_def)

lemma pruned_refl: "tp_inv p \<Longrightarrow> pruned [] p p"
  by (simp add: pruned_def after_refl cuts_refl tp_invD)

lemma with_all_simps [simp]:
  "subpools_inv (p\<lparr>tp_all := a\<rparr>) = subpools_inv p" "holds (p\<lparr>tp_all := a\<rparr>) loc = holds p loc"
  "tp_room (p\<lparr>tp_all := a\<rparr>) = tp_room p" "pool_entries sp (p\<lparr>tp_all := a\<rparr>) = pool_entries sp p"
  by (simp_all add: subpools_inv_def holds_def pool_entries_def tp_room_def cong: SubPool.case_cong)

text \<open>The new pool.\<close>

lemma all_wf_new: "all_wf (new_all_transactions c)"
proof (rule all_wfI)
  have e: "at_entries (new_all_transactions c) = []"
    by (simp add: at_entries_def new_all_transactions_def default_all_transactions_def bvals_map_def)
  show "entries_ok (at_entries (new_all_transactions c))"
    "hash_index (by_hash (new_all_transactions c)) (at_entries (new_all_transactions c))"
    "counter_index (tx_counter (new_all_transactions c)) (at_entries (new_all_transactions c))"
    "auth_index (auths (new_all_transactions c)) (at_entries (new_all_transactions c))"
    "type_index (type_counts (new_all_transactions c)) (at_entries (new_all_transactions c))"
    unfolding e
    by (simp_all add: entries_ok_def hash_index_def counter_index_def auth_index_def type_index_def
        new_all_transactions_def default_all_transactions_def sender_count_def hashes_of_def
        authority_hashes_def counter_of_def)
qed (simp_all add: new_all_transactions_def default_all_transactions_def)

lemma tp_inv_new: "tp_inv (new_tx_pool ord c)" "tp_room (new_tx_pool ord c) = 2 ^ 64 - 1"
proof -
  have "subpools_inv (new_tx_pool ord c)"
    by (simp add: subpools_inv_def new_tx_pool_def pk_inv_default bl_inv_default pd_inv_new)
  moreover have "holds (new_tx_pool ord c) (placed (tp_all (new_tx_pool ord c)))"
    by (rule holdsI) (simp add: new_tx_pool_def pool_entries_def placed_def new_all_transactions_def
        default_all_transactions_def pk_entries_def bl_entries_def pd_entries_def default_parked_pool_def
        default_blob_pool_def new_pending_pool_def bvals_map_def split: SubPool.split)
  ultimately show "tp_inv (new_tx_pool ord c)"
    using all_wf_new by (simp add: tp_inv_def new_tx_pool_def)
  show "tp_room (new_tx_pool ord c) = 2 ^ 64 - 1"
    by (simp add: tp_room_def new_tx_pool_def pk_room_def bl_room_def pd_room_def submissions_left_def
        default_parked_pool_def default_blob_pool_def new_pending_pool_def)
qed

section \<open>Removal\<close>

lemma placed_without:
  assumes "all_wf a" and "map_of (txs a) i = Some x"
  shows "placed (without i x a) = (placed a)(i := None)"
  using without_law(2) [OF assms] by (auto simp: placed_def map_of_bdel fun_eq_iff)

lemma prune_by_id_law:
  assumes "tp_inv p"
  obtains p' where "prune_transaction_by_id i p = Some (p', map_option it_transaction (map_of (txs (tp_all p)) i))"
    and "pruned [i] p p'"
proof (cases "map_of (txs (tp_all p)) i")
  case None
  have "filter (\<lambda>e. fst e \<noteq> i) (txs (tp_all p)) = txs (tp_all p)"
    using bdel_id [OF None] by (simp add: bdel_def)
  then have "pruned [i] p p"
    using assms by (simp add: pruned_def after_refl cuts_def tp_invD)
  then show thesis
    using that [of p] None by (simp add: prune_transaction_by_id_def at_remove_transaction_by_id_def remove_found_def)
next
  case (Some x)
  note D = tp_invD [OF assms]
  obtain p' where p': "prune_transaction_by_id i p = Some (p', Some (it_transaction x))"
      "tp_all p' = without i x (tp_all p)" "holds p' ((placed (tp_all p))(i := None))" "subpools_inv p'"
      "tp_room p \<le> tp_room p'" "tp_config p' = tp_config p"
    by (rule prune_law [OF D Some]) (use Some in \<open>auto simp: placed_def\<close>)
  have "tp_inv p'"
    using p' placed_without [OF D(2) Some] without_law(1) [OF D(2) Some] by (simp add: tp_inv_def)
  then have "pruned [i] p p'"
    using p' cuts_one [OF D(2) Some] by (simp add: pruned_def after_def)
  then show thesis using that [of p'] p'(1) Some by simp
qed

lemma remove_transaction_eq: "tp_inv p \<Longrightarrow> remove_transaction i p = prune_transaction_by_id i p"
  using at_remove_eq_by_id [of "tp_all p" i]
  by (simp add: remove_transaction_def prune_transaction_by_id_def tp_invD)

lemma tp_get_Some:
  assumes "tp_inv p" and "tp_get p h = Some t"
  obtains x where "map_of (txs (tp_all p)) (transaction_id t) = Some x" and "it_transaction x = t" and "tx_hash t = h"
  using all_wf_hash [OF tp_invD(2) [OF assms(1)], of h t] assms(2) by (auto simp: tp_get_def)

lemma prune_by_hash_law:
  assumes "tp_inv p"
  obtains p' where "prune_transaction_by_hash h p = Some (p', tp_get p h)"
    and "pruned (case tp_get p h of None \<Rightarrow> [] | Some t \<Rightarrow> [transaction_id t]) p p'"
proof (cases "tp_get p h")
  case None
  then show thesis
    using that [of p] pruned_refl [OF assms]
    by (simp add: prune_transaction_by_hash_def at_remove_transaction_by_hash_def remove_found_def tp_get_def)
next
  case (Some t)
  obtain x where x: "map_of (txs (tp_all p)) (transaction_id t) = Some x" "it_transaction x = t"
    by (rule tp_get_Some [OF assms Some])
  obtain p' where p': "prune_transaction_by_id (transaction_id t) p =
      Some (p', map_option it_transaction (map_of (txs (tp_all p)) (transaction_id t)))"
      "pruned [transaction_id t] p p'"
    by (rule prune_by_id_law [OF assms])
  have "prune_transaction_by_hash h p = prune_transaction_by_id (transaction_id t) p"
    using at_remove_by_hash_eq [OF tp_invD(2) [OF assms], of h t] Some
    by (simp add: prune_transaction_by_hash_def prune_transaction_by_id_def tp_get_def)
  then show thesis using that [of p'] p' Some x by simp
qed

text \<open>Applying moves to a pool that was in line before the container computed them.\<close>

lemma moves_length: "moves new m us m' \<Longrightarrow> length us \<le> length m"
  by (induction rule: moves.induct) auto

lemma realign:
  assumes inv: "tp_inv p" and mv: "moves None (txs (tp_all p)) us (txs a)" and wf: "all_wf a"
    and room: "length us \<le> tp_room p"
  obtains p' where "process_updates us (p\<lparr>tp_all := a\<rparr>) = Some (p', outcome_of us a)"
    and "after (length us) p p'" and "cuts (discarded_ids us) a (tp_all p')"
proof -
  note D = tp_invD [OF inv]
  let ?q = "p\<lparr>tp_all := a\<rparr>" and ?loc = "placed (tp_all p)"
  have sm: "bsorted (txs (tp_all p))" by (rule all_wfD [OF D(2)])
  have rd: "ready us (tp_all ?q) ?loc"
    using moves_ready [of None "txs (tp_all p)" us a ?loc] mv sm by (simp add: placed_def)
  from process_updates_law [OF rd] obtain p' where p': "process_updates us ?q = Some (p', outcome_of us a)"
      "processed us ?q ?loc p'"
    using D wf room by auto
  have cut: "cuts (discarded_ids us) a (tp_all p')" using p'(2) by (simp add: processed_def)
  have "applied us a ?loc = placed (tp_all p')"
  proof
    fix i
    show "applied us a ?loc i = placed (tp_all p') i"
      using moves_placed [OF mv sm, of i] cuts_map_of [OF cut, of i]
      by (cases "i \<in> up_id ` set us") (simp_all add: applied_def placed_def)
  qed
  then have "tp_inv p'" using p'(2) by (simp add: processed_def tp_inv_def cuts_def)
  then have "after (length us) p p'" using p'(2) by (simp add: after_def processed_def)
  then show thesis using that p'(1) cut by blast
qed

section \<open>Account changes\<close>

lemma bsorted_extend: "bsorted m \<Longrightarrow> bsorted (fold (\<lambda>(s, c). bins s c) l m)"
  by (induction l arbitrary: m) (auto simp: bsorted_bins)

lemma all_wf_sender_info: "all_wf a \<Longrightarrow> bsorted si \<Longrightarrow> all_wf (a\<lparr>sender_info := si\<rparr>)"
  by (simp add: all_wf_def at_entries_def)

lemma update_accounts_law:
  assumes inv: "tp_inv p" and room: "length (txs (tp_all p)) \<le> tp_room p"
    and upd: "at_update changed (tp_all p) = (a, us)"
  obtains p' where "update_accounts changed p = Some (p', outcome_of us a)"
    and "after (length (txs (tp_all p))) p p'"
    and "txs (tp_all p') = filter (\<lambda>e. \<not> stale changed (fst e)) (txs a)"
    and "settings (tp_all p') = settings (tp_all p)"
proof -
  note D = tp_invD [OF inv] and U = at_update_law [OF tp_invD(2) [OF inv] upd]
  define a1 where "a1 = a\<lparr>sender_info := fold (\<lambda>(s, c). bins s c) changed (sender_info a)\<rparr>"
  have t: "txs a1 = txs a" "settings a1 = settings a" by (simp_all add: a1_def)
  have wf1: "all_wf a1"
    unfolding a1_def by (rule all_wf_sender_info [OF U(1) bsorted_extend [OF all_wfD(6) [OF U(1)]]])
  have mv: "moves None (txs (tp_all p)) us (txs a1)" using U(2) by (simp add: t)
  have len: "length us \<le> length (txs (tp_all p))" by (rule moves_length [OF U(2)])
  obtain p' where p': "process_updates us (p\<lparr>tp_all := a1\<rparr>) = Some (p', outcome_of us a1)"
      "after (length us) p p'" "cuts (discarded_ids us) a1 (tp_all p')"
    by (rule realign [OF inv mv wf1]) (use len room in simp)
  have keys: "fst e \<in> set (map fst (txs (tp_all p)))" if "e \<in> set (txs a)" for e
  proof -
    have "fst e \<in> set (map fst (txs a))" using that by simp
    then show ?thesis using moves_keys [OF U(2)] by simp
  qed
  have run: "update_accounts changed p = Some (p', outcome_of us a)"
    using p'(1) outcome_of_cong [of us a1 a] upd by (simp add: update_accounts_def a1_def [symmetric] t)
  have "txs (tp_all p') = filter (\<lambda>e. \<not> stale changed (fst e)) (txs a)"
    using p'(3) at_update_discards [OF D(2) upd] keys by (auto simp: cuts_def t intro!: filter_cong)
  moreover have "settings (tp_all p') = settings (tp_all p)" using p'(3) U(3) t by (simp add: cuts_def)
  ultimately show thesis using that [OF run after_mono [OF p'(2) len]] by blast
qed

section \<open>Removing a transaction by its hash\<close>

lemma park_no_discards:
  "park_descendant_transactions i a = (a', us) \<Longrightarrow> discarded_ids us = []"
  by (auto simp: park_descendant_transactions_def discarded_ids_def move_of_def filter_empty_conv)

lemma park_txs:
  "park_descendant_transactions i a = (a', us) \<Longrightarrow> txs a' = descendant_txs_mut i (bvals_map park_tx) (txs a)"
  by (auto simp: park_descendant_transactions_def)

lemma remove_by_hash_law:
  assumes inv: "tp_inv p" and room: "length (txs (tp_all p)) \<le> tp_room p"
    and found: "tp_get p h = Some t"
  obtains p' where "remove_transaction_by_hash h p = Some (p', Some t)"
    and "after (length (txs (tp_all p))) p p'"
    and "txs (tp_all p') = descendant_txs_mut (transaction_id t) (bvals_map park_tx)
           (bdel (transaction_id t) (txs (tp_all p)))"
    and "settings (tp_all p') = settings (tp_all p)"
proof -
  note D = tp_invD [OF inv]
  let ?a = "tp_all p" and ?i = "transaction_id t"
  obtain x where x: "map_of (txs ?a) ?i = Some x" "it_transaction x = t" "tx_hash t = h"
    by (rule tp_get_Some [OF inv found])
  note W = without_law [OF D(2) x(1)]
  have rm: "at_remove_transaction_by_hash h ?a = (without ?i x ?a, Some (t, it_subpool x))"
    using at_remove_by_hash_eq [OF D(2), of h t] at_remove_by_id_eq [OF D(2) x(1)] found x(2)
    by (simp add: tp_get_def)
  obtain a1 us where park: "park_descendant_transactions ?i (without ?i x ?a) = (a1, us)" by fastforce
  note K = park_law [OF W(1) park]
  have mv: "moves None (bdel ?i (txs ?a)) us (txs a1)" using K(2) W(2) by simp
  have sm: "bsorted (bdel ?i (txs ?a))" by (rule bsorted_bdel [OF all_wfD(8) [OF D(2)]])
  have rd: "ready us (tp_all (p\<lparr>tp_all := a1\<rparr>)) (placed ?a)"
    using moves_ready [OF _ sm, of None us a1 "placed ?a"] mv by (simp add: placed_def map_of_bdel_Some)
  have len: "length us \<le> length (txs ?a)"
    using moves_length [OF mv] length_filter_le [of "\<lambda>e. fst e \<noteq> ?i" "txs ?a"]
    unfolding bdel_def by linarith
  from process_updates_law [OF rd] obtain p1 where
    p1: "process_updates us (p\<lparr>tp_all := a1\<rparr>) = Some (p1, outcome_of us a1)" "processed us (p\<lparr>tp_all := a1\<rparr>) (placed ?a) p1"
    using D K(1) len room by auto
  have nd: "discarded_ids us = []" by (rule park_no_discards [OF park])
  have a1: "txs (tp_all p1) = txs a1" "all_wf (tp_all p1)" "settings (tp_all p1) = settings a1"
    using p1(2) nd by (simp_all add: processed_def cuts_def)
  have new: "?i \<notin> up_id ` set us" using moves_id_in [OF mv] by (auto simp: bdel_def)
  have P: "subpools_inv p1" "holds p1 (applied us a1 (placed ?a))"
    "tp_room p \<le> tp_room p1 + length us" "tp_config p1 = tp_config p"
    using p1(2) by (simp_all add: processed_def)
  have "applied us a1 (placed ?a) ?i = Some (it_subpool x, t)"
    using new x nd by (simp add: applied_def placed_def)
  then obtain p2 where p2: "remove_from_subpool (it_subpool x) ?i p1 = Some (p2, Some t)"
      "holds p2 ((applied us a1 (placed ?a))(?i := None))" "frame 0 p1 p2"
    by (rule remove_found_law [OF P(1,2)])
  have gone: "map_of (txs a1) ?i = None"
    using arg_cong [OF moves_entries [OF mv], of "\<lambda>m. map_of m ?i"] by (simp add: map_of_bvals_map map_of_bdel)
  have "(applied us a1 (placed ?a))(?i := None) = placed (tp_all p2)"
  proof
    fix j
    show "((applied us a1 (placed ?a))(?i := None)) j = placed (tp_all p2) j"
      using moves_placed [OF mv sm, of j] p2(3) a1(1) gone nd
      by (cases "j \<in> up_id ` set us")
        (simp_all add: applied_def placed_def frame_def map_of_bdel)
  qed
  then have "tp_inv p2" using p2 a1(2) by (simp add: tp_inv_def frame_def)
  then have af: "after (length us) p p2" using p2(3) P(3,4) by (simp add: after_def frame_def)
  have run: "remove_transaction_by_hash h p = Some (p2, Some t)"
    using rm park p1(1) p2(1) by (simp add: remove_transaction_by_hash_def)
  have "txs (tp_all p2) = descendant_txs_mut ?i (bvals_map park_tx) (bdel ?i (txs ?a))"
    using p2(3) a1(1) park_txs [OF park] W(2) by (simp add: frame_def)
  moreover have "settings (tp_all p2) = settings ?a"
    using p2(3) a1(3) K(3) W(4) by (simp add: frame_def)
  ultimately show thesis using that [OF run after_mono [OF af len]] by blast
qed

lemma remove_by_hash_None: "tp_get p h = None \<Longrightarrow> remove_transaction_by_hash h p = Some (p, None)"
  by (simp add: remove_transaction_by_hash_def at_remove_transaction_by_hash_def tp_get_def)

section \<open>Adding a transaction\<close>

lemma insert_scan_no_discards:
  "insert_scan balance new nxt cost parked st m = (m', us, st') \<Longrightarrow> discarded_ids us = []"
proof (induction m arbitrary: nxt cost parked st m' us)
  case (Cons e m)
  obtain i x where e: "e = (i, x)" by fastforce
  show ?case
  proof (cases "nxt = nonce i")
    case True
    obtain m2 us2 where "insert_scan balance new (next_nonce i)
        (next_cumulative_cost (insert_visit balance cost parked x))
        (\<not> st_is_pending (it_state (insert_visit balance cost parked x)))
        (if new = i then it_state (insert_visit balance cost parked x) else st) m = (m2, us2, st')"
      and "us = (if new = i then [] else move_of i x (insert_visit balance cost parked x)) @ us2"
      by (rule insert_scan_visit [OF Cons.prems [unfolded e] True refl])
    then show ?thesis using Cons.IH by (auto simp: discarded_ids_def move_of_def)
  qed (use Cons.prems e in auto)
qed simp

lemma insert_tx_no_discards:
  assumes "insert_tx t balance on_chain_nonce a = Some (Inr (a', r))"
  shows "discarded_ids (io_updates r) = []"
proof -
  have trav: "discarded_ids us = []" if "traverse_sender balance on_chain_nonce i st b = (b', us, st')" for i st b b' us st'
  proof -
    let ?s = "insert_scan balance i on_chain_nonce 0 False st
        (descendant_txs_inclusive (TransactionId (sender i) on_chain_nonce) b)"
    have "?s = (fst ?s, us, st')" using that by (simp add: traverse_sender_def Let_def prod_eq_iff)
    then show ?thesis by (rule insert_scan_no_discards)
  qed
  show ?thesis by (rule insert_tx_Inr [OF assms]) (simp add: trav)
qed

lemma ready_append:
  "ready (us @ vs) a loc \<Longrightarrow> ready us a loc \<and> ready vs a loc \<and> up_id ` set us \<inter> up_id ` set vs = {}"
  by (auto simp: ready_def)

lemma outcome_of_append:
  "outcome_of (us @ vs) a =
     \<lparr>promoted = promoted (outcome_of us a) @ promoted (outcome_of vs a),
      discarded = discarded (outcome_of us a) @ discarded (outcome_of vs a)\<rparr>"
  by (simp add: outcome_of_def)

lemma add_new_law:
  assumes sub: "subpools_inv p" and h: "holds p loc" and acc: "accepts sp t" and room: "0 < tp_room p"
    and rep: "loc (transaction_id t) = map_option (\<lambda>(old, osp). (osp, old)) replaced"
    and ids: "\<forall>old osp. replaced = Some (old, osp) \<longrightarrow> transaction_id old = transaction_id t"
  obtains p' where "add_new_transaction t replaced sp p = Some p'"
    and "holds p' (loc(transaction_id t \<mapsto> (sp, t)))" and "frame 1 p p'"
proof (cases replaced)
  case None
  obtain p' where "add_transaction_to_subpool sp t p = Some p'" "holds p' (loc(transaction_id t \<mapsto> (sp, t)))" "frame 1 p p'"
    using add_law [OF sub h _ acc room] rep None by auto
  then show thesis using that [of p'] None by (simp add: add_new_transaction_def)
next
  case (Some r)
  obtain old osp where r: "r = (old, osp)" by fastforce
  have l: "loc (transaction_id t) = Some (osp, old)" using rep Some r by simp
  obtain p1 where p1: "remove_from_subpool osp (transaction_id t) p = Some (p1, Some old)"
      "holds p1 (loc(transaction_id t := None))" "frame 0 p p1"
    by (rule remove_found_law [OF sub h l])
  have "subpools_inv p1" "0 < tp_room p1" using p1(3) room by (auto simp: frame_def)
  then obtain p2 where p2: "add_transaction_to_subpool sp t p1 = Some p2"
      "holds p2 ((loc(transaction_id t := None))(transaction_id t \<mapsto> (sp, t)))" "frame 1 p1 p2"
    using add_law [OF _ p1(2) _ acc] by auto
  have "transaction_id old = transaction_id t" using ids Some r by simp
  then show thesis
    using that [of p2] p1 p2 Some r by (auto simp: add_new_transaction_def frame_def)
qed

text \<open>Processing the moves in two parts, with the new transaction added in between.\<close>

lemma interleave:
  assumes sub: "subpools_inv p" and wf: "all_wf (tp_all p)" and h: "holds p loc"
    and rd: "ready (lower @ rest) (tp_all p) loc" and nd: "discarded_ids (lower @ rest) = []"
    and new: "transaction_id t \<notin> up_id ` set (lower @ rest)" and acc: "accepts sp t"
    and rep: "loc (transaction_id t) = map_option (\<lambda>(old, osp). (osp, old)) replaced"
    and ids: "\<forall>old osp. replaced = Some (old, osp) \<longrightarrow> transaction_id old = transaction_id t"
    and room: "length (lower @ rest) < tp_room p"
  obtains p1 p2 p3 where "process_updates lower p = Some (p1, outcome_of lower (tp_all p))"
    and "add_new_transaction t replaced sp p1 = Some p2"
    and "process_updates rest p2 = Some (p3, outcome_of rest (tp_all p))"
    and "holds p3 ((applied (lower @ rest) (tp_all p) loc)(transaction_id t \<mapsto> (sp, t)))"
    and "subpools_inv p3" and "cuts [] (tp_all p) (tp_all p3)"
    and "tp_room p \<le> tp_room p3 + Suc (length (lower @ rest))" and "tp_config p3 = tp_config p"
proof -
  let ?i = "transaction_id t"
  have nds: "discarded_ids lower = []" "discarded_ids rest = []" using nd by simp_all
  have news: "?i \<notin> up_id ` set lower" "?i \<notin> up_id ` set rest" using new by (simp_all add: image_Un)
  have rds: "ready lower (tp_all p) loc" "ready rest (tp_all p) loc" "up_id ` set lower \<inter> up_id ` set rest = {}"
    using ready_append [OF rd] by auto
  obtain p1 where p1: "process_updates lower p = Some (p1, outcome_of lower (tp_all p))" "processed lower p loc p1"
    using process_updates_law [OF rds(1) sub wf h] room by auto
  define loc1 where "loc1 = applied lower (tp_all p) loc"
  have P1: "subpools_inv p1" "holds p1 loc1" "tp_room p \<le> tp_room p1 + length lower" "tp_config p1 = tp_config p"
    "cuts [] (tp_all p) (tp_all p1)"
    using p1(2) nds(1) by (simp_all add: processed_def loc1_def)
  have l1: "loc1 ?i = map_option (\<lambda>(old, osp). (osp, old)) replaced"
    using nds(1) news(1) rep by (simp add: loc1_def applied_def)
  have "0 < tp_room p1" using P1(3) room by simp
  then obtain p2 where p2: "add_new_transaction t replaced sp p1 = Some p2"
      "holds p2 (loc1(?i \<mapsto> (sp, t)))" "frame 1 p1 p2"
    using add_new_law [OF P1(1,2) acc _ l1 ids] by blast
  have P2: "subpools_inv p2" "tp_room p1 \<le> tp_room p2 + 1" "tp_config p2 = tp_config p"
    "cuts [] (tp_all p) (tp_all p2)"
    using p2(3) P1(4,5) by (auto simp: frame_def)
  have t2: "txs (tp_all p2) = txs (tp_all p)" "all_wf (tp_all p2)" using P2(4) by (simp_all add: cuts_def)
  have same: "(loc1(?i \<mapsto> (sp, t))) j = loc j" if "j \<in> up_id ` set rest" for j
  proof -
    have "j \<noteq> ?i" "j \<notin> up_id ` set lower" using that rds(3) news(2) by blast+
    then show ?thesis using nds(1) by (simp add: loc1_def applied_def)
  qed
  have rd2: "ready rest (tp_all p2) (loc1(?i \<mapsto> (sp, t)))"
    by (rule ready_later [OF rds(2)]) (use same t2 in simp_all)
  have len: "length rest \<le> tp_room p2" using P1(3) P2(2) room by simp
  obtain p3 where p3: "process_updates rest p2 = Some (p3, outcome_of rest (tp_all p2))"
      "processed rest p2 (loc1(?i \<mapsto> (sp, t))) p3"
    using process_updates_law [OF rd2 P2(1) t2(2) p2(2) len] by blast
  have oc: "outcome_of rest (tp_all p2) = outcome_of rest (tp_all p)"
    by (rule outcome_of_cong) (simp add: t2)
  have "applied rest (tp_all p2) (loc1(?i \<mapsto> (sp, t))) = (applied (lower @ rest) (tp_all p) loc)(?i \<mapsto> (sp, t))"
    using nds news t2(1) by (auto simp: fun_eq_iff applied_def loc1_def placed_def image_Un)
  then show thesis
    using that [OF p1(1) p2(1)] p3 P1(3) P2 nds(2) oc cuts_trans [OF P2(4), of "[]" "tp_all p3"]
    by (simp add: processed_def)
qed

lemma add_between_law:
  assumes inv: "tp_inv p" and a: "a = (tp_all p)\<lparr>sender_info := si\<rparr>" and wf: "all_wf a"
    and ins: "insert_tx t balance on_chain_nonce a = Some (Inr (a1, r))"
    and nm: "nonce_matches t" and fresh: "\<not> tp_contains p (tx_hash t)"
    and room: "Suc (Suc (length (txs (tp_all p)))) \<le> tp_room p"
  obtains p' x where "add_between r (p\<lparr>tp_all := a1\<rparr>) = Some (p', outcome_of (io_updates r) a1)"
    and "after (Suc (Suc (length (txs (tp_all p))))) p p'"
    and "txs (tp_all p') = txs a1" and "settings (tp_all p') = settings (tp_all p)"
    and "map_of (txs a1) (transaction_id t) = Some x" and "it_transaction x = t"
    and "it_subpool x = io_move_to r" and "it_state x = io_state r"
proof -
  note D = tp_invD [OF inv]
  let ?i = "transaction_id t" and ?us = "io_updates r" and ?loc = "placed (tp_all p)" and ?q = "p\<lparr>tp_all := a1\<rparr>"
  have ta: "txs a = txs (tp_all p)" "settings a = settings (tp_all p)" by (simp_all add: a)
  have fresh': "\<not> at_contains a (tx_hash t)" using fresh by (simp add: tp_contains_def at_contains_def a)
  obtain x0 x where I: "all_wf a1" "settings a1 = settings a" "io_transaction r = t"
      "io_replaced_tx r = map_option (\<lambda>y. (it_transaction y, it_subpool y)) (map_of (txs a) ?i)"
      "moves (Some ?i) (bins ?i x0 (txs a)) ?us (txs a1)"
      "map_of (txs a1) ?i = Some x" "it_transaction x = t" "it_state x = io_state r" "it_subpool x = io_move_to r"
    by (rule insert_tx_law [OF wf ins nm fresh'])
  have sm: "bsorted (bins ?i x0 (txs a))" by (rule bsorted_bins [OF all_wfD(8) [OF wf]])
  have m0: "map_of (bins ?i x0 (txs a)) j = map_of (txs (tp_all p)) j" if "j \<noteq> ?i" for j
    using that by (simp add: map_of_bins ta)
  have rd: "ready ?us a1 ?loc"
    by (rule moves_ready [OF I(5) sm]) (use m0 in \<open>auto simp: placed_def\<close>)
  have new: "?i \<notin> up_id ` set ?us" using moves_at [OF I(5) sm] by auto
  have len: "length ?us \<le> Suc (length (txs (tp_all p)))"
    using moves_length [OF I(5)] length_bins [OF all_wfD(8) [OF wf], of ?i x0] ta by (auto split: if_splits)
  define lower where "lower = takeWhile (\<lambda>u. \<not> nonce ?i \<le> nonce (up_id u)) ?us"
  define rest where "rest = dropWhile (\<lambda>u. \<not> nonce ?i \<le> nonce (up_id u)) ?us"
  have us: "lower @ rest = ?us" by (simp add: lower_def rest_def)
  have q: "subpools_inv ?q" "all_wf (tp_all ?q)" "holds ?q ?loc" "ready (lower @ rest) (tp_all ?q) ?loc"
    "discarded_ids (lower @ rest) = []" "?i \<notin> up_id ` set (lower @ rest)" "accepts (io_move_to r) t"
    "?loc ?i = map_option (\<lambda>(old, osp). (osp, old)) (io_replaced_tx r)" "length (lower @ rest) < tp_room ?q"
    using D I(1,4) rd insert_tx_no_discards [OF ins] new all_wf_accepts [OF I(1,6)] I(7,9) ta(1) len room
    unfolding us by (simp_all add: placed_def option.map_comp comp_def)
  have old: "\<forall>old osp. io_replaced_tx r = Some (old, osp) \<longrightarrow> transaction_id old = ?i"
    using I(4) all_wf_tx(1) [OF wf, of ?i] by auto
  obtain p1 p2 p3 where P: "process_updates lower ?q = Some (p1, outcome_of lower a1)"
    "add_new_transaction t (io_replaced_tx r) (io_move_to r) p1 = Some p2"
    "process_updates rest p2 = Some (p3, outcome_of rest a1)"
    "holds p3 ((applied ?us a1 ?loc)(?i \<mapsto> (io_move_to r, t)))" "subpools_inv p3" "cuts [] a1 (tp_all p3)"
    "tp_room p \<le> tp_room p3 + Suc (length ?us)" "tp_config p3 = tp_config p"
    using interleave [OF q(1-8) old q(9)] unfolding us by auto
  have "(applied ?us a1 ?loc)(?i \<mapsto> (io_move_to r, t)) = placed (tp_all p3)"
  proof
    fix j
    have "placed a1 j = ?loc j" if "j \<noteq> ?i" "j \<notin> up_id ` set ?us"
      using moves_placed [OF I(5) sm, of j] m0 [of j] that by (simp add: placed_def)
    then show "((applied ?us a1 ?loc)(?i \<mapsto> (io_move_to r, t))) j = placed (tp_all p3) j"
      using I(6,7,9) P(6) insert_tx_no_discards [OF ins]
      by (cases "j \<in> up_id ` set ?us") (auto simp: applied_def placed_def cuts_def)
  qed
  then have "tp_inv p3" using P(4-6) by (simp add: tp_inv_def cuts_def)
  then have "after (Suc (Suc (length (txs (tp_all p))))) p p3" using P(7,8) len by (simp add: after_def)
  moreover have "add_between r ?q = Some (p3, outcome_of ?us a1)"
    using P(1-3) unfolding add_between_def Let_def I(3) lower_def [symmetric] rest_def [symmetric]
    by (simp add: us [symmetric] outcome_of_append)
  ultimately show thesis using that [of p3 x] P(6) I(2,6-9) ta(2) by (simp add: cuts_def)
qed

text \<open>Every way \<open>add_transaction\<close> can end: with an error that leaves the transactions alone, or with the
  transaction in the sub-pool that is reported.\<close>

fun reported :: "AddedTransaction \<Rightarrow> valid_pool_tx \<times> SubPool" where
  "reported (AddedPending t r ps ds) = (t, Pending)"
| "reported (AddedParked t r sp q) = (t, sp)"

fun replaced_by :: "AddedTransaction \<Rightarrow> valid_pool_tx option" where
  "replaced_by (AddedPending t r ps ds) = r"
| "replaced_by (AddedParked t r sp q) = r"

text \<open>The transactions other than the new one that became pending on the way.\<close>

fun reports_promoted :: "AddedTransaction \<Rightarrow> TransactionId \<Rightarrow> all_transactions \<Rightarrow> all_transactions \<Rightarrow> bool" where
  "reports_promoted (AddedPending t r ps ds) i a a' \<longleftrightarrow>
     ds = [] \<and>
     set ps = {u. \<exists>j. j \<noteq> i \<and> placed a' j = Some (Pending, u) \<and> placed a j \<noteq> Some (Pending, u)}"
| "reports_promoted (AddedParked t r sp q) i a a' \<longleftrightarrow> True"

definition added :: "valid_pool_tx \<Rightarrow> tx_pool \<Rightarrow> pool_error + AddedTransaction \<Rightarrow> tx_pool \<Rightarrow> bool" where
  "added t p res p' \<longleftrightarrow>
     settings (tp_all p') = settings (tp_all p) \<and>
     (case res of
        Inl e \<Rightarrow> pe_hash e = tx_hash t \<and> txs (tp_all p') = txs (tp_all p)
      | Inr added \<Rightarrow>
          placed (tp_all p') (transaction_id t) = Some (snd (reported added), t) \<and> fst (reported added) = t \<and>
          at_entries (tp_all p') = bins (transaction_id t) t (at_entries (tp_all p)) \<and>
          replaced_by added = map_of (at_entries (tp_all p)) (transaction_id t) \<and>
          (\<forall>old. replaced_by added = Some old \<longrightarrow> \<not> is_underpriced old t (price_bumps (tp_all p))) \<and>
          reports_promoted added (transaction_id t) (tp_all p) (tp_all p'))"

lemma add_inserted:
  fixes p :: tx_pool and t :: valid_pool_tx
  assumes a: "a = (tp_all p)\<lparr>sender_info := si\<rparr>" and wf: "all_wf a"
    and ins: "insert_tx t balance on_chain_nonce a = Some (Inr (a1, r))"
    and nm: "nonce_matches t" and fresh: "\<not> tp_contains p (tx_hash t)"
    and P: "txs (tp_all p') = txs a1" "settings (tp_all p') = settings (tp_all p)"
      "map_of (txs a1) (transaction_id t) = Some x" "it_transaction x = t" "it_subpool x = io_move_to r"
  defines "oc \<equiv> outcome_of (io_updates r) a1" and "old \<equiv> map_option fst (io_replaced_tx r)"
  shows "added t p (Inr (if io_move_to r = Pending then AddedPending (io_transaction r) old (promoted oc) (discarded oc)
            else AddedParked (io_transaction r) old (io_move_to r) (determine_queued_reason (io_state r) (io_move_to r)))) p'"
proof -
  let ?i = "transaction_id t"
  have "\<not> at_contains a (tx_hash t)" using fresh by (simp add: tp_contains_def at_contains_def a)
  then obtain x0 where I: "io_transaction r = t" "it_transaction x0 = t"
      "moves (Some ?i) (bins ?i x0 (txs a)) (io_updates r) (txs a1)"
      "io_replaced_tx r = map_option (\<lambda>y. (it_transaction y, it_subpool y)) (map_of (txs a) ?i)"
      "\<forall>y. map_of (txs a) ?i = Some y \<longrightarrow> \<not> is_underpriced (it_transaction y) t (price_bumps a)"
    by (rule insert_tx_law [OF wf ins nm])
  have ents: "at_entries (tp_all p') = bins ?i t (at_entries (tp_all p))"
    using moves_entries [OF I(3)] I(2) P(1) by (simp add: at_entries_def bvals_map_bins a)
  have old: "old = map_of (at_entries (tp_all p)) ?i"
    using I(4) by (simp add: old_def map_of_at_entries a option.map_comp comp_def)
  have bump: "\<not> is_underpriced u t (price_bumps (tp_all p))" if "old = Some u" for u
    using that I(5) by (auto simp: old map_of_at_entries a)
  have sm: "bsorted (bins ?i x0 (txs a))" by (rule bsorted_bins [OF all_wfD(8) [OF wf]])
  have "discarded oc = []"
    using insert_tx_no_discards [OF ins] by (simp add: oc_def outcome_of_def discarded_ids_def)
  moreover have "set (promoted oc) =
      {u. \<exists>j. j \<noteq> ?i \<and> placed (tp_all p') j = Some (Pending, u) \<and> placed (tp_all p) j \<noteq> Some (Pending, u)}"
  proof -
    have before: "map_of (bins ?i x0 (txs a)) j = map_of (txs (tp_all p)) j" if "j \<noteq> ?i" for j
      using that by (simp add: map_of_bins a)
    have same: "map_option it_transaction (map_of (txs a1) j) = map_option it_transaction (map_of (txs (tp_all p)) j)"
      if "j \<noteq> ?i" for j
      using arg_cong [OF moves_entries [OF I(3)], of "\<lambda>m. map_of m j"] before [OF that] by (simp add: map_of_bvals_map)
    have "(Some ?i \<noteq> Some j \<and> (\<exists>y y'. map_of (bins ?i x0 (txs a)) j = Some y \<and> map_of (txs a1) j = Some y' \<and>
             it_transaction y' = u \<and> it_subpool y \<noteq> Pending \<and> it_subpool y' = Pending)) \<longleftrightarrow>
          (j \<noteq> ?i \<and> placed (tp_all p') j = Some (Pending, u) \<and> placed (tp_all p) j \<noteq> Some (Pending, u))" for j u
    proof (cases "j = ?i")
      case False
      then show ?thesis
        using before [OF False] same [OF False]
        by (cases "map_of (txs (tp_all p)) j"; cases "map_of (txs a1) j") (auto simp: placed_def P(1))
    qed simp
    then show ?thesis unfolding oc_def moves_promoted [OF I(3) sm] by blast
  qed
  ultimately show ?thesis
    using P I(1) ents old bump by (simp add: added_def placed_def)
qed

lemma add_transaction_law:
  assumes inv: "tp_inv p" and nm: "nonce_matches t" and nonce: "on_chain_nonce \<le> tx_nonce t"
    and room: "Suc (Suc (length (txs (tp_all p)))) \<le> tp_room p"
  obtains p' res where "add_transaction keccak_empty t balance on_chain_nonce code_hash p = Some (p', res)"
    and "after (Suc (Suc (length (txs (tp_all p))))) p p'" and "added t p res p'"
proof -
  note D = tp_invD [OF inv]
  define a where "a = (tp_all p)\<lparr>sender_info :=
    bins (tx_sender_id t) \<lparr>si_state_nonce = on_chain_nonce, si_balance = balance\<rparr> (sender_info (tp_all p))\<rparr>"
  have wf: "all_wf a"
    unfolding a_def by (rule all_wf_sender_info [OF D(2) bsorted_bins [OF all_wfD(6) [OF D(2)]]])
  have same: "after (Suc (Suc (length (txs (tp_all p))))) p p" by (rule after_mono [OF after_refl [OF inv]]) simp
  have inv_a: "tp_inv (p\<lparr>tp_all := a\<rparr>)"
    using D wf by (simp add: tp_inv_def a_def placed_def [abs_def])
  consider "tp_contains p (tx_hash t)"
    | e where "\<not> tp_contains p (tx_hash t)" "validate_auth keccak_empty t on_chain_nonce code_hash p = Inl e"
    | "\<not> tp_contains p (tx_hash t)" "validate_auth keccak_empty t on_chain_nonce code_hash p = Inr ()"
    by (cases "validate_auth keccak_empty t on_chain_nonce code_hash p") auto
  then show thesis
  proof cases
    case 1
    then show ?thesis using that [OF _ same] by (simp add: add_transaction_def added_def)
  next
    case 2
    then show ?thesis using that [OF _ same] by (simp add: add_transaction_def added_def)
  next
    case 3
    obtain res where res: "insert_tx t balance on_chain_nonce a = Some res"
      using nonce by (simp add: insert_tx_def)
    show ?thesis
    proof (cases res)
      case (Inl e)
      have "after (Suc (Suc (length (txs (tp_all p))))) p (p\<lparr>tp_all := a\<rparr>)" using inv_a by (simp add: after_def)
      then show ?thesis
        using that [of "p\<lparr>tp_all := a\<rparr>"] 3 res Inl
        by (simp add: add_transaction_def a_def [symmetric] added_def) (simp add: a_def)
    next
      case (Inr ar)
      obtain a1 r where ar: "ar = (a1, r)" by fastforce
      have ins: "insert_tx t balance on_chain_nonce a = Some (Inr (a1, r))" using res Inr ar by simp
      obtain p' x where P: "add_between r (p\<lparr>tp_all := a1\<rparr>) = Some (p', outcome_of (io_updates r) a1)"
          "after (Suc (Suc (length (txs (tp_all p))))) p p'" "txs (tp_all p') = txs a1"
          "settings (tp_all p') = settings (tp_all p)" "map_of (txs a1) (transaction_id t) = Some x"
          "it_transaction x = t" "it_subpool x = io_move_to r"
        by (rule add_between_law [OF inv a_def wf ins nm 3(1) room])
      show ?thesis
        by (rule that [OF _ P(2) add_inserted [OF a_def wf ins nm 3(1) P(3,4,5,6,7)]])
          (use 3 ins P(1) in \<open>simp add: add_transaction_def a_def [symmetric] Let_def\<close>)
    qed
  qed
qed

end
