(* ===== verification/Pool_Fees.thy ===== *)
theory Pool_Fees
  imports Pool_Operations
begin

text \<open>
  The fee updates of \<open>TxPool\<close>: \<open>update_basefee\<close>, \<open>update_blob_fee\<close>, \<open>set_block_info\<close>,
  \<open>apply_fee_updates\<close> and, on top of them, \<open>on_canonical_state_change\<close>. None panics, each keeps the
  invariant, and the transactions a sub-pool releases end up where their new bits say; in particular
  the branch of \<open>update_basefee\<close> that would lose a transaction is never taken.
\<close>

section \<open>Reclassifying released transactions\<close>

definition with_state :: "(TxState \<Rightarrow> TxState) \<Rightarrow> internal_tx \<Rightarrow> internal_tx" where
  "with_state f x = x\<lparr>it_state := f (it_state x), it_subpool := sub_pool_of (f (it_state x))\<rparr>"

definition restate ::
    "(TxState \<Rightarrow> TxState) \<Rightarrow> TransactionId set \<Rightarrow> (TransactionId, internal_tx) bmap \<Rightarrow> (TransactionId, internal_tx) bmap" where
  "restate f ids m = map (\<lambda>e. if fst e \<in> ids then (fst e, with_state f (snd e)) else e) m"

lemma restate_empty [simp]: "restate f {} m = m"
  by (simp add: restate_def)

lemma map_fst_restate [simp]: "map fst (restate f ids m) = map fst m"
  by (auto simp: restate_def)

lemma map_of_restate:
  "map_of (restate f ids m) i = (if i \<in> ids then map_option (with_state f) (map_of m i) else map_of m i)"
  by (induction m) (auto simp: restate_def)

lemma restate_entries: "bvals_map it_transaction (restate f ids m) = bvals_map it_transaction m"
  by (auto simp: restate_def bvals_map_def with_state_def)

lemma restate_insert:
  "i \<notin> ids \<Longrightarrow> restate f ids (restate f {i} m) = restate f (insert i ids) m"
  by (auto simp: restate_def)

lemma with_state_fields [simp]:
  "it_transaction (with_state f x) = it_transaction x" "it_state (with_state f x) = f (it_state x)"
  "it_subpool (with_state f x) = sub_pool_of (f (it_state x))"
  by (simp_all add: with_state_def)

lemma set_state_restate:
  assumes "map_of (txs (tp_all p)) i = Some x" and "bsorted (txs (tp_all p))"
  shows "set_state i (f (it_state x)) p = p\<lparr>tp_all := (tp_all p)\<lparr>txs := restate f {i} (txs (tp_all p))\<rparr>\<rparr>"
proof -
  have "y = x" if "(i, y) \<in> set (txs (tp_all p))" for y
    using that assms in_set_map_of [OF assms(2), of i y] by simp
  then have "bupd i (\<lambda>y. y\<lparr>it_state := f (it_state x), it_subpool := sub_pool_of (f (it_state x))\<rparr>) (txs (tp_all p)) =
      restate f {i} (txs (tp_all p))"
    unfolding bupd_def restate_def by (auto simp: with_state_def)
  then show ?thesis by (simp add: set_state_def)
qed

text \<open>A transaction that is to be reclassified: it is in the container but in no sub-pool.\<close>

definition released :: "(TxState \<Rightarrow> TxState) \<Rightarrow> (SubPool \<Rightarrow> bool) \<Rightarrow> all_transactions \<Rightarrow> location \<Rightarrow> valid_pool_tx \<Rightarrow> bool" where
  "released f good a loc t \<longleftrightarrow>
     loc (transaction_id t) = None \<and>
     (\<exists>x. map_of (txs a) (transaction_id t) = Some x \<and> it_transaction x = t \<and> fixed_bits (with_state f x) \<and>
        good (sub_pool_of (f (it_state x))))"

definition new_sub_pool :: "(TxState \<Rightarrow> TxState) \<Rightarrow> all_transactions \<Rightarrow> valid_pool_tx \<Rightarrow> SubPool" where
  "new_sub_pool f a t = sub_pool_of (f (it_state (the (map_of (txs a) (transaction_id t)))))"

lemma reclassify_law:
  assumes good: "\<And>sp t p. good sp \<Longrightarrow> add sp t p = add_transaction_to_subpool sp t p"
  shows "subpools_inv p \<Longrightarrow> all_wf (tp_all p) \<Longrightarrow> holds p loc \<Longrightarrow> distinct (map transaction_id ts) \<Longrightarrow>
    (\<And>t. t \<in> set ts \<Longrightarrow> released f good (tp_all p) loc t) \<Longrightarrow>
    (\<And>i. i \<notin> transaction_id ` set ts \<Longrightarrow> loc i = placed (tp_all p) i) \<Longrightarrow> length ts \<le> tp_room p \<Longrightarrow>
    \<exists>p'. reclassify f add ts p = Some (p', filter (\<lambda>t. new_sub_pool f (tp_all p) t = Pending) ts) \<and>
      after (length ts) p p' \<and> txs (tp_all p') = restate f (transaction_id ` set ts) (txs (tp_all p)) \<and>
      settings (tp_all p') = settings (tp_all p)"
proof (induction ts arbitrary: p loc)
  case Nil
  then have "loc = placed (tp_all p)" by auto
  with Nil show ?case by (auto simp: after_def tp_inv_def)
next
  case (Cons t ts p loc)
  let ?a = "tp_all p" and ?i = "transaction_id t"
  obtain x where x: "map_of (txs ?a) ?i = Some x" "it_transaction x = t" "fixed_bits (with_state f x)"
      "good (sub_pool_of (f (it_state x)))" and l: "loc ?i = None"
    using Cons.prems(5) [of t] by (auto simp: released_def)
  let ?sp = "sub_pool_of (f (it_state x))" and ?a1 = "?a\<lparr>txs := restate f {?i} (txs ?a)\<rparr>"
  have sm: "bsorted (txs ?a)" by (rule all_wfD [OF Cons.prems(2)])
  have ss: "set_state ?i (f (it_state x)) p = p\<lparr>tp_all := ?a1\<rparr>" by (rule set_state_restate [OF x(1) sm])
  have wf1: "all_wf ?a1"
  proof (rule all_wf_restate [OF Cons.prems(2)])
    show "bvals_map it_transaction (restate f {?i} (txs ?a)) = at_entries ?a"
      by (simp add: restate_entries at_entries_def)
    show "state_ok y" if "map_of (restate f {?i} (txs ?a)) j = Some y" for j y
      using that x all_wfD(7) [OF Cons.prems(2), of j y]
      by (auto simp: map_of_restate state_ok_iff split: if_splits)
  qed
  have x1: "map_of (txs ?a1) ?i = Some (with_state f x)" using x(1) by (simp add: map_of_restate)
  have acc: "accepts ?sp t" using all_wf_accepts [OF wf1 x1] x(2) by simp
  have room: "0 < tp_room (p\<lparr>tp_all := ?a1\<rparr>)" using Cons.prems(7) by simp
  have q: "subpools_inv (p\<lparr>tp_all := ?a1\<rparr>)" "holds (p\<lparr>tp_all := ?a1\<rparr>) loc" using Cons.prems(1,3) by simp_all
  obtain p1 where p1: "add_transaction_to_subpool ?sp t (p\<lparr>tp_all := ?a1\<rparr>) = Some p1"
      "holds p1 (loc(?i \<mapsto> (?sp, t)))" "frame 1 (p\<lparr>tp_all := ?a1\<rparr>) p1"
    by (rule add_law [OF q l acc room])
  have F: "subpools_inv p1" "tp_room p \<le> tp_room p1 + 1" "tp_all p1 = ?a1" "tp_config p1 = tp_config p"
    using p1(3) by (simp_all add: frame_def)
  have new: "?i \<notin> transaction_id ` set ts" using Cons.prems(4) by simp
  have neq: "transaction_id u \<noteq> ?i" if "u \<in> set ts" for u using new that by (metis imageI)
  have rel: "released f good (tp_all p1) (loc(?i \<mapsto> (?sp, t))) u" if "u \<in> set ts" for u
    using Cons.prems(5) [of u] that neq [OF that] by (simp add: released_def F(3) map_of_restate)
  have out: "(loc(?i \<mapsto> (?sp, t))) j = placed (tp_all p1) j" if "j \<notin> transaction_id ` set ts" for j
    using that Cons.prems(6) [of j] x(1,2) by (cases "j = ?i") (simp_all add: placed_def F(3) map_of_restate)
  obtain p2 where p2: "reclassify f add ts p1 = Some (p2, filter (\<lambda>t. new_sub_pool f (tp_all p1) t = Pending) ts)"
      "after (length ts) p1 p2" "txs (tp_all p2) = restate f (transaction_id ` set ts) (txs (tp_all p1))"
      "settings (tp_all p2) = settings (tp_all p1)"
    using Cons.IH [OF F(1) _ p1(2) _ rel out] wf1 Cons.prems(4,7) F(2,3) by auto
  have same: "new_sub_pool f (tp_all p1) u = new_sub_pool f ?a u" if "u \<in> set ts" for u
    using neq [OF that] by (simp add: new_sub_pool_def F(3) map_of_restate)
  have "reclassify f add (t # ts) p = Some (p2, filter (\<lambda>t. new_sub_pool f ?a t = Pending) (t # ts))"
    using x ss good [OF x(4)] p1(1) p2(1) same
    by (simp add: new_sub_pool_def cong: filter_cong)
  moreover have "txs (tp_all p2) = restate f (transaction_id ` set (t # ts)) (txs ?a)"
    using p2(3) F(3) restate_insert [OF new] by simp
  moreover have "after (length (t # ts)) p p2" using p2(2) F(2,4) by (simp add: after_def)
  moreover have "settings (tp_all p2) = settings ?a" using p2(4) F(3) by simp
  ultimately show ?case by blast
qed

text \<open>A sub-pool that releases some of its transactions, the rest of the pool staying as it is.\<close>

definition releases :: "SubPool \<Rightarrow> valid_pool_tx list \<Rightarrow> tx_pool \<Rightarrow> tx_pool \<Rightarrow> bool" where
  "releases sp ts p p' \<longleftrightarrow>
     subpools_inv p' \<and> evicts (pool_entries sp p) ts (pool_entries sp p') \<and>
     (\<forall>sp'. sp' \<noteq> sp \<longrightarrow> pool_entries sp' p' = pool_entries sp' p) \<and>
     tp_room p' = tp_room p \<and> tp_all p' = tp_all p \<and> tp_config p' = tp_config p"

lemma releases_law:
  assumes "tp_inv p" and "releases sp ts p p'"
  shows "holds p' (\<lambda>i. if i \<in> transaction_id ` set ts then None else placed (tp_all p) i)"
    and "t \<in> set ts \<Longrightarrow> \<exists>x. map_of (txs (tp_all p)) (transaction_id t) = Some x \<and> it_transaction x = t \<and> it_subpool x = sp"
    and "distinct (map transaction_id ts)"
proof -
  note R = assms(2) [unfolded releases_def] and h = holdsD [OF tp_invD(3) [OF assms(1)]]
  have in_sp: "placed (tp_all p) (transaction_id t) = Some (sp, t)" if "t \<in> set ts" for t
    using R that h [of sp "transaction_id t"]
    by (auto simp: evicts_def held_in_def split: option.splits if_splits)
  show "t \<in> set ts \<Longrightarrow> \<exists>x. map_of (txs (tp_all p)) (transaction_id t) = Some x \<and> it_transaction x = t \<and> it_subpool x = sp"
    using in_sp [of t] by (auto simp: placed_def)
  show "distinct (map transaction_id ts)" using R by (simp add: evicts_def)
  show "holds p' (\<lambda>i. if i \<in> transaction_id ` set ts then None else placed (tp_all p) i)"
  proof (rule holdsI)
    fix sp' i
    show "map_of (pool_entries sp' p') i = held_in sp' (if i \<in> transaction_id ` set ts then None else placed (tp_all p) i)"
    proof (cases "sp' = sp")
      case True
      then show ?thesis using map_of_evicts [of _ ts _ i] R h [of sp i] by auto
    next
      case False
      then have "held_in sp' (placed (tp_all p) i) = None" if "i \<in> transaction_id ` set ts"
        using in_sp that by auto
      then show ?thesis using False R h [of sp' i] by auto
    qed
  qed
qed

lemma reclassify_released:
  assumes inv: "tp_inv p" and rel: "releases sp ts p p1"
    and good: "\<And>sp t p. good sp \<Longrightarrow> add sp t p = add_transaction_to_subpool sp t p"
    and bits: "\<And>t x. t \<in> set ts \<Longrightarrow> map_of (txs (tp_all p)) (transaction_id t) = Some x \<Longrightarrow> it_subpool x = sp \<Longrightarrow>
        it_transaction x = t \<Longrightarrow> state_ok x \<Longrightarrow> fixed_bits (with_state f x) \<and> good (sub_pool_of (f (it_state x)))"
    and room: "length (txs (tp_all p)) \<le> tp_room p"
  obtains p' where "reclassify f add ts p1 = Some (p', filter (\<lambda>t. new_sub_pool f (tp_all p) t = Pending) ts)"
    and "after (length (txs (tp_all p))) p p'"
    and "txs (tp_all p') = restate f (transaction_id ` set ts) (txs (tp_all p))"
    and "settings (tp_all p') = settings (tp_all p)"
proof -
  note D = tp_invD [OF inv] and L = releases_law [OF inv rel]
  let ?loc = "\<lambda>i. if i \<in> transaction_id ` set ts then None else placed (tp_all p) i"
  have R: "subpools_inv p1" "tp_room p1 = tp_room p" "tp_all p1 = tp_all p" "tp_config p1 = tp_config p"
    using rel by (auto simp: releases_def)
  have rls: "released f good (tp_all p1) ?loc t" if "t \<in> set ts" for t
    using L(2) [OF that] bits [OF that] all_wfD(7) [OF D(2), of "transaction_id t"] that
    by (auto simp: released_def R(3))
  have "map_of (txs (tp_all p)) (transaction_id t) \<noteq> None" if "t \<in> set ts" for t using L(2) [OF that] by auto
  then have "transaction_id ` set ts \<subseteq> fst ` set (txs (tp_all p))"
    unfolding map_of_eq_None_iff by blast
  then have len: "length ts \<le> length (txs (tp_all p))"
    using card_mono [of "fst ` set (txs (tp_all p))" "transaction_id ` set ts"] distinct_card [OF L(3)]
      card_length [of "map fst (txs (tp_all p))"] by simp
  have "length ts \<le> tp_room p1" using len room R(2) by simp
  then obtain p' where "reclassify f add ts p1 = Some (p', filter (\<lambda>t. new_sub_pool f (tp_all p1) t = Pending) ts)"
      "after (length ts) p1 p'" "txs (tp_all p') = restate f (transaction_id ` set ts) (txs (tp_all p1))"
      "settings (tp_all p') = settings (tp_all p1)"
    using reclassify_law [OF good R(1) _ L(1) L(3) rls] D(2) R(3) by auto
  then show thesis using that [of p'] R len by (auto simp: after_def)
qed

section \<open>Base fee and blob fee\<close>

lemma all_wf_tracked_fees [simp]: "all_wf (a\<lparr>tracked_fees := f\<rparr>) \<longleftrightarrow> all_wf a"
  by (simp add: all_wf_def at_entries_def)

lemma set_tracked_fees_simps [simp]:
  "tp_inv (set_tracked_fees fees p) \<longleftrightarrow> tp_inv p" "tp_room (set_tracked_fees fees p) = tp_room p"
  "txs (tp_all (set_tracked_fees fees p)) = txs (tp_all p)" "tp_config (set_tracked_fees fees p) = tp_config p"
  "tracked_fees (tp_all (set_tracked_fees fees p)) = fees" "tp_pending (set_tracked_fees fees p) = tp_pending p"
  "tp_basefee (set_tracked_fees fees p) = tp_basefee p" "tp_blob (set_tracked_fees fees p) = tp_blob p"
  "tp_queued (set_tracked_fees fees p) = tp_queued p" "pool_entries sp (set_tracked_fees fees p) = pool_entries sp p"
  by (simp_all add: set_tracked_fees_def tp_inv_def placed_def [abs_def])

lemma after_fees [simp]: "after n (set_tracked_fees fees p) p' \<longleftrightarrow> after n p p'"
  by (simp add: after_def)

lemma releases_pending:
  assumes "tp_inv p" and "pd_inv q" and "evicts (pd_entries (tp_pending p)) ts (pd_entries q)"
    and "pd_room q = pd_room (tp_pending p)"
  shows "releases Pending ts p (p\<lparr>tp_pending := q\<rparr>)"
  using tp_invD(1) [OF assms(1)] assms(2-)
  by (auto simp: releases_def subpools_inv_def pool_entries_def tp_room_def split: SubPool.split)

lemma releases_basefee:
  assumes "tp_inv p" and "pk_inv q" and "evicts (pk_entries (tp_basefee p)) ts (pk_entries q)"
    and "pk_room q = pk_room (tp_basefee p)"
  shows "releases BaseFee ts p (p\<lparr>tp_basefee := q\<rparr>)"
  using tp_invD(1) [OF assms(1)] assms(2-)
  by (auto simp: releases_def subpools_inv_def pool_entries_def tp_room_def split: SubPool.split)

lemma releases_blob:
  assumes "tp_inv p" and "bl_inv q" and "evicts (bl_entries (tp_blob p)) ts (bl_entries q)"
    and "bl_room q = bl_room (tp_blob p)"
  shows "releases Blob ts p (p\<lparr>tp_blob := q\<rparr>)"
  using tp_invD(1) [OF assms(1)] assms(2-)
  by (auto simp: releases_def subpools_inv_def pool_entries_def tp_room_def split: SubPool.split)

text \<open>\<open>refees fees f ids p p'\<close>: the fees are set and the transactions \<open>ids\<close> have their bits changed by \<open>f\<close>.\<close>

definition refees :: "pending_fees \<Rightarrow> (TxState \<Rightarrow> TxState) \<Rightarrow> TransactionId set \<Rightarrow> tx_pool \<Rightarrow> tx_pool \<Rightarrow> bool" where
  "refees fees f ids p p' \<longleftrightarrow>
     after (length (txs (tp_all p))) p p' \<and> txs (tp_all p') = restate f ids (txs (tp_all p)) \<and>
     settings (tp_all p') = settings ((tp_all p)\<lparr>tracked_fees := fees\<rparr>)"

lemma settings_tracked [simp]:
  "settings (tp_all (set_tracked_fees fees p)) = settings ((tp_all p)\<lparr>tracked_fees := fees\<rparr>)"
  by (simp add: set_tracked_fees_def)

lemma refees_tracked: "refees fees f ids p p' \<Longrightarrow> tracked_fees (tp_all p') = fees"
  using settings_eqD(1) [of "tp_all p'" "(tp_all p)\<lparr>tracked_fees := fees\<rparr>"] by (simp add: refees_def)

lemma refees_length: "refees fees f ids p p' \<Longrightarrow> length (txs (tp_all p')) = length (txs (tp_all p))"
  by (simp add: refees_def restate_def)

lemma pending_exclusive:
  assumes "all_wf a" and "map_of (txs a) i = Some x" and "map_of (txs a) j = Some y" and "sender i = sender j"
    and "is_eip4844 (it_transaction y)"
  shows "is_eip4844 (it_transaction x)"
  using entries_okD(4) [OF all_wfD(1) [OF assms(1)], of i "it_transaction x" j "it_transaction y"] assms(2-5)
  by (simp add: map_of_at_entries)

lemma basefee_to_pending:
  assumes "state_ok x" and "it_subpool x = BaseFee"
  shows "fixed_bits (with_state (\<lambda>st. st_insert st ENOUGH_FEE_CAP_BLOCK) x)"
    and "sub_pool_of (st_insert (it_state x) ENOUGH_FEE_CAP_BLOCK) = Pending"
proof -
  have b: "bit (it_state x) 7" "bit (it_state x) 6" "bit (it_state x) 5" "bit (it_state x) 4" "\<not> bit (it_state x) 1"
    using sub_pool_of_eq_BaseFee [of "it_state x"] assms by (auto simp: state_ok_def)
  then have "bit (it_state x) 2" using assms(1) by (simp add: state_ok_def)
  then show "sub_pool_of (st_insert (it_state x) ENOUGH_FEE_CAP_BLOCK) = Pending"
    using b by (simp add: sub_pool_of_bits flag_bit)
  show "fixed_bits (with_state (\<lambda>st. st_insert st ENOUGH_FEE_CAP_BLOCK) x)"
    using assms(1) by (simp add: fixed_bits_def state_ok_def flag_bit)
qed

text \<open>\<open>rebits f ids q p'\<close>: the same with the fees already set.\<close>

definition rebits :: "(TxState \<Rightarrow> TxState) \<Rightarrow> TransactionId set \<Rightarrow> tx_pool \<Rightarrow> tx_pool \<Rightarrow> bool" where
  "rebits f ids q p' \<longleftrightarrow>
     after (length (txs (tp_all q))) q p' \<and> txs (tp_all p') = restate f ids (txs (tp_all q)) \<and>
     settings (tp_all p') = settings (tp_all q)"

lemma rebits_refees: "rebits f ids (set_tracked_fees fees p) p' \<longleftrightarrow> refees fees f ids p p'"
  by (simp add: rebits_def refees_def)

lemma base_fee_up:
  assumes inv: "tp_inv q" and room: "length (txs (tp_all q)) \<le> tp_room q"
    and bts: "pd_update_base_fee fee (tp_pending q) = (b, ts)"
  obtains p' us where "reclassify (\<lambda>st. st_remove st ENOUGH_FEE_CAP_BLOCK) add_transaction_to_subpool ts (q\<lparr>tp_pending := b\<rparr>)
      = Some (p', us)"
    and "rebits (\<lambda>st. st_remove st ENOUGH_FEE_CAP_BLOCK) (transaction_id ` set ts) q p'"
proof -
  note U = pd_update_base_fee_law [OF subpools_invD(4) [OF tp_invD(1) [OF inv]] bts]
  have rel: "releases Pending ts q (q\<lparr>tp_pending := b\<rparr>)" by (rule releases_pending [OF inv U(1-3)])
  show thesis
    by (rule reclassify_released [OF inv rel, of "\<lambda>_. True" add_transaction_to_subpool "\<lambda>st. st_remove st ENOUGH_FEE_CAP_BLOCK"])
      (use room that in \<open>auto simp: fixed_bits_def state_ok_def flag_bit rebits_def\<close>)
qed

lemma base_fee_down:
  assumes inv: "tp_inv q" and room: "length (txs (tp_all q)) \<le> tp_room q"
    and ts_def: "ts = satisfy_base_fee_transactions fee (tp_basefee q)"
  obtains b p' where "enforce_basefee_with fee (tp_basefee q) = Some (b, ts)"
    and "reclassify (\<lambda>st. st_insert st ENOUGH_FEE_CAP_BLOCK) add_from_basefee ts (q\<lparr>tp_basefee := b\<rparr>) = Some (p', ts)"
    and "rebits (\<lambda>st. st_insert st ENOUGH_FEE_CAP_BLOCK) (transaction_id ` set ts) q p'"
proof -
  let ?f = "\<lambda>st. st_insert st ENOUGH_FEE_CAP_BLOCK"
  obtain b where b: "enforce_basefee_with fee (tp_basefee q) = Some (b, ts)" "pk_inv b"
      "pk_room b = pk_room (tp_basefee q)" "evicts (pk_entries (tp_basefee q)) ts (pk_entries b)"
    unfolding ts_def by (rule enforce_basefee_law [OF subpools_invD(2) [OF tp_invD(1) [OF inv]]])
  have rel: "releases BaseFee ts q (q\<lparr>tp_basefee := b\<rparr>)" by (rule releases_basefee [OF inv b(2,4,3)])
  have good: "add_from_basefee sp t p = add_transaction_to_subpool sp t p" if "sp = Pending" for sp t p
    using that by (simp add: add_from_basefee_def)
  obtain p' where p': "reclassify ?f add_from_basefee ts (q\<lparr>tp_basefee := b\<rparr>)
      = Some (p', filter (\<lambda>t. new_sub_pool ?f (tp_all q) t = Pending) ts)" "rebits ?f (transaction_id ` set ts) q p'"
    by (rule reclassify_released [OF inv rel, of "\<lambda>sp. sp = Pending" add_from_basefee ?f])
      (use room basefee_to_pending good in \<open>auto simp: rebits_def\<close>)
  have "new_sub_pool ?f (tp_all q) t = Pending" if "t \<in> set ts" for t
    using releases_law(2) [OF inv rel that] basefee_to_pending(2) all_wfD(7) [OF tp_invD(2) [OF inv]]
    by (auto simp: new_sub_pool_def)
  then have "filter (\<lambda>t. new_sub_pool ?f (tp_all q) t = Pending) ts = ts" by (simp add: filter_id_conv)
  then show thesis using that [OF b(1)] p' by simp
qed

lemma update_basefee_law:
  assumes inv: "tp_inv p" and room: "length (txs (tp_all p)) \<le> tp_room p"
  obtains p' ts f ids where "update_basefee fee p = Some (p', ts, cmp fee (base_fee (tracked_fees (tp_all p))))"
    and "refees ((tracked_fees (tp_all p))\<lparr>base_fee := fee\<rparr>) f ids p p'"
    and "cmp fee (base_fee (tracked_fees (tp_all p))) = Greater \<Longrightarrow>
      f = (\<lambda>st. st_remove st ENOUGH_FEE_CAP_BLOCK) \<and> ts = [] \<and>
      ids = transaction_id ` set (snd (pd_update_base_fee fee (tp_pending p)))"
    and "cmp fee (base_fee (tracked_fees (tp_all p))) = Ordering.Less \<Longrightarrow>
      f = (\<lambda>st. st_insert st ENOUGH_FEE_CAP_BLOCK) \<and> ts = satisfy_base_fee_transactions fee (tp_basefee p) \<and>
      ids = transaction_id ` set ts"
    and "cmp fee (base_fee (tracked_fees (tp_all p))) = Equal \<Longrightarrow> ids = {} \<and> ts = []"
proof -
  define fees where "fees = (tracked_fees (tp_all p))\<lparr>base_fee := fee\<rparr>"
  define q where "q = set_tracked_fees fees p"
  have invq: "tp_inv q" and roomq: "length (txs (tp_all q)) \<le> tp_room q" using inv room by (simp_all add: q_def)
  note run = update_basefee_def [of fee p, unfolded Let_def, folded fees_def, folded q_def]
  show thesis
  proof (cases "cmp fee (base_fee (tracked_fees (tp_all p)))")
    case Equal
    have "refees fees id {} p q" using inv by (simp add: refees_def q_def after_def)
    then show ?thesis using that [of q "[]" id "{}"] run Equal by (simp add: fees_def)
  next
    case Greater
    obtain b ts where bts: "pd_update_base_fee fee (tp_pending q) = (b, ts)" by fastforce
    obtain p' us where p': "reclassify (\<lambda>st. st_remove st ENOUGH_FEE_CAP_BLOCK) add_transaction_to_subpool ts
        (q\<lparr>tp_pending := b\<rparr>) = Some (p', us)"
        "rebits (\<lambda>st. st_remove st ENOUGH_FEE_CAP_BLOCK) (transaction_id ` set ts) q p'"
      by (rule base_fee_up [OF invq roomq bts])
    have r: "update_basefee fee p = Some (p', [], Greater)" using run Greater bts p'(1) by simp
    have "refees fees (\<lambda>st. st_remove st ENOUGH_FEE_CAP_BLOCK) (transaction_id ` set ts) p p'"
      using p'(2) by (simp add: q_def rebits_refees)
    then show ?thesis
      by (rule that [OF r [folded Greater] _, folded fees_def]) (use Greater bts in \<open>simp_all add: q_def\<close>)
  next
    case Less
    let ?ts = "satisfy_base_fee_transactions fee (tp_basefee q)"
    obtain b p' where p': "enforce_basefee_with fee (tp_basefee q) = Some (b, ?ts)"
        "reclassify (\<lambda>st. st_insert st ENOUGH_FEE_CAP_BLOCK) add_from_basefee ?ts (q\<lparr>tp_basefee := b\<rparr>) = Some (p', ?ts)"
        "rebits (\<lambda>st. st_insert st ENOUGH_FEE_CAP_BLOCK) (transaction_id ` set ?ts) q p'"
      by (rule base_fee_down [OF invq roomq refl])
    have r: "update_basefee fee p = Some (p', ?ts, Ordering.Less)" using run Less p'(1,2) by simp
    have "refees fees (\<lambda>st. st_insert st ENOUGH_FEE_CAP_BLOCK) (transaction_id ` set ?ts) p p'"
      using p'(3) by (simp add: q_def rebits_refees)
    then show ?thesis
      by (rule that [OF r [folded Less] _, folded fees_def]) (use Less in \<open>simp_all add: q_def\<close>)
  qed
qed

section \<open>The blob fee\<close>

lemma blob_fee_up:
  assumes inv: "tp_inv q" and room: "length (txs (tp_all q)) \<le> tp_room q"
    and bts: "pd_update_blob_fee fee (tp_pending q) = (b, ts)"
  obtains p' us where "reclassify (\<lambda>st. st_remove st ENOUGH_BLOB_FEE_CAP_BLOCK) add_transaction_to_subpool ts (q\<lparr>tp_pending := b\<rparr>)
      = Some (p', us)"
    and "rebits (\<lambda>st. st_remove st ENOUGH_BLOB_FEE_CAP_BLOCK) (transaction_id ` set ts) q p'"
proof -
  note D = tp_invD [OF inv]
  have pd: "pd_inv (tp_pending q)" by (rule subpools_invD(4) [OF D(1)])
  note U = pd_update_blob_fee_law [OF pd bts]
  have rel: "releases Pending ts q (q\<lparr>tp_pending := b\<rparr>)" by (rule releases_pending [OF inv U(1-3)])
  have ts: "ts = map (pd_transaction \<circ> snd) (scan_removed (\<lambda>e. sender (fst e))
      (\<lambda>e. below_blob_fee fee (pd_transaction (snd e))) (pd_by_id (tp_pending q)))"
    using bts by (auto simp: pd_update_blob_fee_def clear_transactions_def Let_def)
  have blob: "is_eip4844 (it_transaction x)"
    if t: "t \<in> set ts" and x: "map_of (txs (tp_all q)) (transaction_id t) = Some x" for t x
  proof -
    obtain j u where u: "map_of (pd_entries (tp_pending q)) j = Some u" "sender j = tx_sender_id t" "below_blob_fee fee u"
      using t pd_removed_by_scan [OF pd ts] by blast
    then obtain y where y: "map_of (txs (tp_all q)) j = Some y" "it_transaction y = u"
      using holdsD [OF D(3), of Pending j]
      by (auto simp: pool_entries_def placed_def held_in_def split: option.splits if_splits)
    show ?thesis
      by (rule pending_exclusive [OF D(2) x y(1)]) (use u y in \<open>auto simp: below_blob_fee_def tx_sender_id_def\<close>)
  qed
  show thesis
    by (rule reclassify_released [OF inv rel, of "\<lambda>_. True" add_transaction_to_subpool "\<lambda>st. st_remove st ENOUGH_BLOB_FEE_CAP_BLOCK"])
      (use room that blob in \<open>auto simp: fixed_bits_def state_ok_def flag_bit rebits_def\<close>)
qed

lemma blob_pool_release:
  assumes inv: "tp_inv q" and room: "length (txs (tp_all q)) \<le> tp_room q"
  defines "f \<equiv> \<lambda>st. st_insert (st_insert st ENOUGH_BLOB_FEE_CAP_BLOCK) ENOUGH_FEE_CAP_BLOCK"
  obtains b ts us p' where "enforce_pending_fees fees (tp_blob q) = Some (b, ts)"
    and "reclassify f add_transaction_to_subpool ts (q\<lparr>tp_blob := b\<rparr>) = Some (p', us)"
    and "map transaction_id ts = satisfy_pending_fee_ids fees (tp_blob q)"
    and "rebits f (set (satisfy_pending_fee_ids fees (tp_blob q))) q p'"
proof -
  obtain b ts where b: "enforce_pending_fees fees (tp_blob q) = Some (b, ts)" "bl_inv b"
      "bl_room b = bl_room (tp_blob q)" "evicts (bl_entries (tp_blob q)) ts (bl_entries b)"
      "map transaction_id ts = satisfy_pending_fee_ids fees (tp_blob q)"
    by (rule enforce_pending_fees_law [OF subpools_invD(3) [OF tp_invD(1) [OF inv]]])
  have rel: "releases Blob ts q (q\<lparr>tp_blob := b\<rparr>)" by (rule releases_blob [OF inv b(2,4,3)])
  have ids: "transaction_id ` set ts = set (satisfy_pending_fee_ids fees (tp_blob q))"
    using b(5) by (metis list.set_map)
  show thesis
    by (rule reclassify_released [OF inv rel, of "\<lambda>_. True" add_transaction_to_subpool f])
      (use room that [OF b(1) _ b(5)] ids in \<open>auto simp: fixed_bits_def state_ok_def flag_bit rebits_def f_def\<close>)
qed

lemma update_blob_fee_law:
  assumes inv: "tp_inv p" and room: "length (txs (tp_all p)) \<le> tp_room p"
    and fees_def: "fees = (tracked_fees (tp_all p))\<lparr>blob_fee := fee\<rparr>"
    and old_def: "old = blob_fee (tracked_fees (tp_all p))"
  obtains p' ts f ids where "update_blob_fee fee ord p = Some (p', ts)" and "refees fees f ids p p'"
    and "cmp fee old = Ordering.Less \<or> ord = Ordering.Less \<Longrightarrow>
      f = (\<lambda>st. st_insert (st_insert st ENOUGH_BLOB_FEE_CAP_BLOCK) ENOUGH_FEE_CAP_BLOCK) \<and>
      ids = set (satisfy_pending_fee_ids fees (tp_blob p))"
    and "cmp fee old = Equal \<Longrightarrow> ord \<noteq> Ordering.Less \<Longrightarrow> ids = {}"
    and "cmp fee old = Greater \<Longrightarrow> ord \<noteq> Ordering.Less \<Longrightarrow>
      f = (\<lambda>st. st_remove st ENOUGH_BLOB_FEE_CAP_BLOCK) \<and>
      ids = transaction_id ` set (snd (pd_update_blob_fee fee (tp_pending p)))"
proof -
  define q where "q = set_tracked_fees fees p"
  let ?f = "\<lambda>st. st_insert (st_insert st ENOUGH_BLOB_FEE_CAP_BLOCK) ENOUGH_FEE_CAP_BLOCK"
  have invq: "tp_inv q" and roomq: "length (txs (tp_all q)) \<le> tp_room q" using inv room by (simp_all add: q_def)
  note run = update_blob_fee_def [of fee ord p, unfolded Let_def, folded fees_def, folded q_def old_def]
  consider "cmp fee old = Ordering.Less \<or> ord = Ordering.Less" | "cmp fee old = Equal" "ord \<noteq> Ordering.Less"
    | "cmp fee old = Greater" "ord \<noteq> Ordering.Less"
    by (cases "cmp fee old") auto
  then show thesis
  proof cases
    case 1
    obtain b ts us p' where P: "enforce_pending_fees fees (tp_blob q) = Some (b, ts)"
        "reclassify ?f add_transaction_to_subpool ts (q\<lparr>tp_blob := b\<rparr>) = Some (p', us)"
        "rebits ?f (set (satisfy_pending_fee_ids fees (tp_blob q))) q p'"
      by (rule blob_pool_release [OF invq roomq])
    have "tracked_fees (tp_all q) = fees" by (simp add: q_def)
    then have r: "update_blob_fee fee ord p = Some (p', us)"
      using 1 P(1,2) run by (cases "cmp fee old"; cases ord) auto
    have "refees fees ?f (set (satisfy_pending_fee_ids fees (tp_blob p))) p p'"
      using P(3) by (simp add: q_def rebits_refees)
    then show ?thesis by (rule that [OF r]) (use 1 in auto)
  next
    case 2
    then have "update_blob_fee fee ord p = Some (q, [])" using run by (cases ord) auto
    moreover have "refees fees id {} p q" using inv by (simp add: refees_def q_def after_def)
    ultimately show ?thesis using that 2 by simp
  next
    case 3
    obtain b ts where bts: "pd_update_blob_fee fee (tp_pending q) = (b, ts)" by fastforce
    obtain p' us where p': "reclassify (\<lambda>st. st_remove st ENOUGH_BLOB_FEE_CAP_BLOCK) add_transaction_to_subpool ts
        (q\<lparr>tp_pending := b\<rparr>) = Some (p', us)"
        "rebits (\<lambda>st. st_remove st ENOUGH_BLOB_FEE_CAP_BLOCK) (transaction_id ` set ts) q p'"
      by (rule blob_fee_up [OF invq roomq bts])
    have r: "update_blob_fee fee ord p = Some (p', [])" using 3 run bts p'(1) by (cases ord) auto
    have "refees fees (\<lambda>st. st_remove st ENOUGH_BLOB_FEE_CAP_BLOCK) (transaction_id ` set ts) p p'"
      using p'(2) by (simp add: q_def rebits_refees)
    then show ?thesis by (rule that [OF r]) (use 3 bts in \<open>simp_all add: q_def\<close>)
  qed
qed

section \<open>Block information\<close>

lemma all_wf_block_info [simp]: "all_wf (at_set_block_info info a) \<longleftrightarrow> all_wf a"
  by (simp add: all_wf_def at_entries_def at_set_block_info_def)

lemma block_info_simps [simp]:
  "txs (at_set_block_info info a) = txs a" "at_entries (at_set_block_info info a) = at_entries a"
  by (simp_all add: at_entries_def at_set_block_info_def)

lemma tp_inv_block_info [simp]:
  "tp_inv (p\<lparr>tp_all := at_set_block_info info (tp_all p)\<rparr>) \<longleftrightarrow> tp_inv p"
  by (simp add: tp_inv_def placed_def [abs_def])

lemma after_block_info [simp]:
  "after n p (p'\<lparr>tp_all := at_set_block_info info (tp_all p')\<rparr>) \<longleftrightarrow> after n p p'"
  by (simp add: after_def)

lemma refees_after: "refees fees f ids p p' \<Longrightarrow> after (length (txs (tp_all p))) p p'"
  by (simp add: refees_def)

lemma refees_entries: "refees fees f ids p p' \<Longrightarrow> at_entries (tp_all p') = at_entries (tp_all p)"
  by (simp add: refees_def at_entries_def restate_entries)

lemma set_block_info_law:
  assumes inv: "tp_inv p" and room: "2 * length (txs (tp_all p)) \<le> tp_room p"
  obtains p' oc where "tp_set_block_info info p = Some (p', oc)"
    and "after (2 * length (txs (tp_all p))) p p'" and "at_entries (tp_all p') = at_entries (tp_all p)"
proof -
  have "length (txs (tp_all p)) \<le> tp_room p" using room by simp
  then obtain p1 ts f ids where p1: "update_basefee (bi_pending_basefee info) p =
        Some (p1, ts, cmp (bi_pending_basefee info) (base_fee (tracked_fees (tp_all p))))"
      "refees ((tracked_fees (tp_all p))\<lparr>base_fee := bi_pending_basefee info\<rparr>) f ids p p1"
    by (rule update_basefee_law [OF inv])
  have af1: "after (length (txs (tp_all p))) p p1" by (rule refees_after [OF p1(2)])
  have inv1: "tp_inv p1" using af1 by (simp add: after_def)
  show thesis
  proof (cases "bi_pending_blob_fee info")
    case None
    then show ?thesis
      using that [of "p1\<lparr>tp_all := at_set_block_info info (tp_all p1)\<rparr>"] p1(1) after_mono [OF af1, of "2 * length (txs (tp_all p))"]
        refees_entries [OF p1(2)] by (simp add: tp_set_block_info_def)
  next
    case (Some g)
    have "length (txs (tp_all p1)) \<le> tp_room p1"
      using af1 room refees_length [OF p1(2)] by (simp add: after_def)
    then obtain p2 us f2 ids2 where p2: "update_blob_fee g (cmp (bi_pending_basefee info) (base_fee (tracked_fees (tp_all p)))) p1 = Some (p2, us)"
        "refees ((tracked_fees (tp_all p1))\<lparr>blob_fee := g\<rparr>) f2 ids2 p1 p2"
      by (rule update_blob_fee_law [OF inv1 _ refl refl])
    have "after (length (txs (tp_all p)) + length (txs (tp_all p))) p p2"
      using after_trans [OF af1 refees_after [OF p2(2)]] refees_length [OF p1(2)] by simp
    then show ?thesis
      using that [of "p2\<lparr>tp_all := at_set_block_info info (tp_all p2)\<rparr>"] p1(1) p2(1) Some
        refees_entries [OF p1(2)] refees_entries [OF p2(2)] by (simp add: tp_set_block_info_def mult_2)
  qed
qed

section \<open>A new canonical block\<close>

lemma apply_fee_updates_law:
  assumes inv: "tp_inv p" and room: "2 * length (txs (tp_all p)) \<le> tp_room p"
  obtains p' oc' where "apply_fee_updates prev_base prev_blob oc p = Some (p', oc')"
    and "after (2 * length (txs (tp_all p))) p p'" and "at_entries (tp_all p') = at_entries (tp_all p)"
proof (cases "base_fee (tracked_fees (tp_all p)) = prev_base \<and> blob_fee (tracked_fees (tp_all p)) = prev_blob")
  case True
  then show thesis
    using that [of p oc] after_mono [OF after_refl [OF inv], of "2 * length (txs (tp_all p))"]
    by (simp add: apply_fee_updates_def Let_def)
next
  case False
  let ?new = "tracked_fees (tp_all p)" and ?p0 = "set_tracked_fees \<lparr>base_fee = prev_base, blob_fee = prev_blob\<rparr> p"
  have inv0: "tp_inv ?p0" and room0: "length (txs (tp_all ?p0)) \<le> tp_room ?p0" using inv room by simp_all
  obtain p1 ts f ids where p1: "update_basefee (base_fee ?new) ?p0 =
        Some (p1, ts, cmp (base_fee ?new) (base_fee (tracked_fees (tp_all ?p0))))"
      "refees ((tracked_fees (tp_all ?p0))\<lparr>base_fee := base_fee ?new\<rparr>) f ids ?p0 p1"
    by (rule update_basefee_law [OF inv0 room0])
  have af1: "after (length (txs (tp_all p))) p p1" using refees_after [OF p1(2)] by simp
  have inv1: "tp_inv p1" using af1 by (simp add: after_def)
  have len1: "length (txs (tp_all p1)) = length (txs (tp_all p))" using refees_length [OF p1(2)] by simp
  have "length (txs (tp_all p1)) \<le> tp_room p1" using af1 room len1 by (simp add: after_def)
  then obtain p2 us f2 ids2 where p2: "update_blob_fee (blob_fee ?new)
        (cmp (base_fee ?new) (base_fee (tracked_fees (tp_all ?p0)))) p1 = Some (p2, us)"
      "refees ((tracked_fees (tp_all p1))\<lparr>blob_fee := blob_fee ?new\<rparr>) f2 ids2 p1 p2"
    by (rule update_blob_fee_law [OF inv1 _ refl refl])
  have "after (2 * length (txs (tp_all p))) p p2"
    using after_trans [OF af1 refees_after [OF p2(2)]] len1 by (simp add: mult_2)
  moreover have "at_entries (tp_all p2) = at_entries (tp_all p)"
    using refees_entries [OF p1(2)] refees_entries [OF p2(2)] by (simp add: at_entries_def)
  moreover have "apply_fee_updates prev_base prev_blob oc p = Some (p2, oc\<lparr>promoted := promoted oc @ ts @ us\<rparr>)"
    using False p1(1) p2(1) by (auto simp: apply_fee_updates_def Let_def)
  ultimately show thesis using that by blast
qed

lemma bvals_map_filter: "bvals_map f (filter (\<lambda>e. P (fst e)) m) = filter (\<lambda>e. P (fst e)) (bvals_map f m)"
  by (simp add: bvals_map_def filter_map comp_def)

lemma cuts_entries: "cuts ids a a' \<Longrightarrow> at_entries a' = filter (\<lambda>e. fst e \<notin> set ids) (at_entries a)"
  by (simp add: cuts_def at_entries_def bvals_map_def filter_map comp_def)

lemma prune_by_hash_entries:
  assumes inv: "tp_inv p"
    and pr: "pruned (case tp_get p h of None \<Rightarrow> [] | Some t \<Rightarrow> [transaction_id t]) p p'"
  shows "at_entries (tp_all p') = filter (\<lambda>e. tx_hash (snd e) \<noteq> h) (at_entries (tp_all p))"
proof -
  note D = all_wfD [OF tp_invD(2) [OF inv]]
  have sm: "bsorted (at_entries (tp_all p))" by (rule entries_okD [OF D(1)])
  have "fst e \<notin> set (case tp_get p h of None \<Rightarrow> [] | Some t \<Rightarrow> [transaction_id t]) \<longleftrightarrow> tx_hash (snd e) \<noteq> h"
    if "e \<in> set (at_entries (tp_all p))" for e
  proof -
    have e: "map_of (at_entries (tp_all p)) (fst e) = Some (snd e)" using that in_set_map_of [OF sm, of "fst e" "snd e"] by simp
    have id: "transaction_id (snd e) = fst e" by (rule entries_okD(2) [OF D(1) e])
    have iff: "tp_get p h = Some t \<longleftrightarrow> tx_hash t = h \<and> map_of (at_entries (tp_all p)) (transaction_id t) = Some t" for t
      using hash_index_iff [OF D(2)] by (simp add: tp_get_def)
    show ?thesis
    proof (cases "tp_get p h")
      case None
      then show ?thesis using iff [of "snd e"] e id by auto
    next
      case (Some t)
      then have t: "tx_hash t = h" "map_of (at_entries (tp_all p)) (transaction_id t) = Some t" using iff by auto
      have "fst e = transaction_id t \<longleftrightarrow> tx_hash (snd e) = h"
      proof
        assume "fst e = transaction_id t"
        then show "tx_hash (snd e) = h" using e t by simp
      next
        assume "tx_hash (snd e) = h"
        then have "snd e = t" by (intro hash_index_inj [OF D(2,1) e t(2)]) (simp add: t)
        then show "fst e = transaction_id t" using id by simp
      qed
      then show ?thesis using Some by simp
    qed
  qed
  then have "filter (\<lambda>e. fst e \<notin> set (case tp_get p h of None \<Rightarrow> [] | Some t \<Rightarrow> [transaction_id t])) (at_entries (tp_all p)) =
      filter (\<lambda>e. tx_hash (snd e) \<noteq> h) (at_entries (tp_all p))"
    by (intro filter_cong refl)
  moreover have "cuts (case tp_get p h of None \<Rightarrow> [] | Some t \<Rightarrow> [transaction_id t]) (tp_all p) (tp_all p')"
    using pr by (simp add: pruned_def)
  ultimately show ?thesis using cuts_entries by metis
qed

lemma prune_all_law:
  "tp_inv p \<Longrightarrow>
   \<exists>p' ts. removing_each prune_transaction_by_hash hs p = Some (p', ts) \<and> after 0 p p' \<and>
     at_entries (tp_all p') = filter (\<lambda>e. tx_hash (snd e) \<notin> set hs) (at_entries (tp_all p)) \<and>
     settings (tp_all p') = settings (tp_all p)"
proof (induction hs arbitrary: p)
  case Nil
  then show ?case by (simp add: after_refl)
next
  case (Cons h hs p)
  obtain p1 where p1: "prune_transaction_by_hash h p = Some (p1, tp_get p h)"
      "pruned (case tp_get p h of None \<Rightarrow> [] | Some t \<Rightarrow> [transaction_id t]) p p1"
    by (rule prune_by_hash_law [OF Cons.prems])
  have af: "after 0 p p1" "settings (tp_all p1) = settings (tp_all p)" using p1(2) by (simp_all add: pruned_def cuts_def)
  then have "tp_inv p1" by (simp add: after_def)
  from Cons.IH [OF this] obtain p2 ts where p2: "removing_each prune_transaction_by_hash hs p1 = Some (p2, ts)"
      "after 0 p1 p2" "at_entries (tp_all p2) = filter (\<lambda>e. tx_hash (snd e) \<notin> set hs) (at_entries (tp_all p1))"
      "settings (tp_all p2) = settings (tp_all p1)" by blast
  have "at_entries (tp_all p2) = filter (\<lambda>e. tx_hash (snd e) \<notin> set (h # hs)) (at_entries (tp_all p))"
    unfolding p2(3) prune_by_hash_entries [OF Cons.prems p1(2)] by (auto intro!: filter_cong)
  moreover have "after 0 p p2" using after_trans [OF af(1) p2(2)] by simp
  ultimately show ?case using p1(1) p2(1,4) af(2) by simp
qed

lemma length_txs: "length (txs a) = length (at_entries a)"
  by (simp add: at_entries_def)

lemma on_canonical_state_change_law:
  assumes inv: "tp_inv p" and room: "3 * length (txs (tp_all p)) \<le> tp_room p"
  obtains p' oc where "on_canonical_state_change info mined changed p = Some (p', oc)"
    and "after (3 * length (txs (tp_all p))) p p'"
    and "at_entries (tp_all p') =
      filter (\<lambda>e. tx_hash (snd e) \<notin> set mined \<and> \<not> stale changed (fst e)) (at_entries (tp_all p))"
    and "co_mined oc = mined" and "co_block_hash oc = bi_last_seen_block_hash info"
proof -
  let ?n = "length (txs (tp_all p))"
  obtain p1 ts where p1: "removing_each prune_transaction_by_hash mined p = Some (p1, ts)" "after 0 p p1"
      "at_entries (tp_all p1) = filter (\<lambda>e. tx_hash (snd e) \<notin> set mined) (at_entries (tp_all p))"
    using prune_all_law [OF inv] by blast
  have n1: "length (txs (tp_all p1)) \<le> ?n" by (simp add: length_txs p1(3))
  obtain p2 pb pbl where p2: "update_pending_fees_only (bi_pending_basefee info) (bi_pending_blob_fee info) p1 = (p2, pb, pbl)"
    by (metis prod_cases3)
  then obtain fees where p2': "p2 = set_tracked_fees fees p1" by (auto simp: update_pending_fees_only_def Let_def)
  have inv2: "tp_inv p2" and room2: "length (txs (tp_all p2)) \<le> tp_room p2"
    using p1(2) n1 room by (auto simp: p2' after_def)
  obtain a us where upd: "at_update changed (tp_all p2) = (a, us)" by fastforce
  obtain p3 where p3: "update_accounts changed p2 = Some (p3, outcome_of us a)" "after (length (txs (tp_all p2))) p2 p3"
      "txs (tp_all p3) = filter (\<lambda>e. \<not> stale changed (fst e)) (txs a)"
    by (rule update_accounts_law [OF inv2 room2 upd])
  have e3: "at_entries (tp_all p3) = filter (\<lambda>e. \<not> stale changed (fst e)) (at_entries (tp_all p1))"
    using at_update_law(5) [OF tp_invD(2) [OF inv2] upd] p3(3)
      bvals_map_filter [of it_transaction "\<lambda>i. \<not> stale changed i" "txs a"]
    by (simp add: at_entries_def p2')
  have n3: "length (txs (tp_all p3)) \<le> length (txs (tp_all p1))" by (simp add: length_txs e3)
  have af3: "after ?n p p3"
    using after_trans [OF p1(2), of "length (txs (tp_all p2))" p3] p3(2) n1 by (auto simp: p2' after_def)
  have inv3: "tp_inv p3" and room3: "2 * length (txs (tp_all p3)) \<le> tp_room p3"
    using af3 n3 n1 room by (auto simp: after_def)
  obtain p4 oc where p4: "apply_fee_updates pb pbl (outcome_of us a) p3 = Some (p4, oc)"
      "after (2 * length (txs (tp_all p3))) p3 p4" "at_entries (tp_all p4) = at_entries (tp_all p3)"
    by (rule apply_fee_updates_law [OF inv3 room3])
  have "after (3 * ?n) p p4"
    using after_mono [OF after_trans [OF af3 p4(2)], of "3 * ?n"] n3 n1 by simp
  then show thesis
    using that [of "p4\<lparr>tp_all := at_set_block_info info (tp_all p4)\<rparr>"
        "\<lparr>co_block_hash = bi_last_seen_block_hash info, co_mined = mined,
          co_promoted = promoted oc, co_discarded = discarded oc\<rparr>"] p1(1) p2 p3(1) p4(1,3) e3 p1(3)
    by (simp add: on_canonical_state_change_def conj_commute)
qed

end
