(* ===== verification/Pool_Limits.thy ===== *)
theory Pool_Limits
  imports Pool_Fees
begin

text \<open>
  Removing descendants and \<open>discard_worst\<close>. The loops end, what they return is what is missing
  afterwards, of each sender the lowest nonces are kept, and at the end every sub-pool is within its
  limit.

  While \<open>discard_worst\<close> works through what a sub-pool has given up, the container still holds some of
  these transactions: \<open>lag gone p\<close> is the invariant up to the transactions \<open>gone\<close>.
\<close>

section \<open>Removing descendants\<close>

definition lag :: "TransactionId set \<Rightarrow> tx_pool \<Rightarrow> bool" where
  "lag gone p \<longleftrightarrow>
     subpools_inv p \<and> all_wf (tp_all p) \<and> holds p (\<lambda>i. if i \<in> gone then None else placed (tp_all p) i)"

definition content :: "tx_pool \<Rightarrow> entries" where
  "content p = at_entries (tp_all p)"

text \<open>\<open>loses ids p p'\<close>: the transactions \<open>ids\<close> are taken out of the container.\<close>

definition loses :: "TransactionId set \<Rightarrow> TransactionId set \<Rightarrow> tx_pool \<Rightarrow> tx_pool \<Rightarrow> bool" where
  "loses gone ids p p' \<longleftrightarrow>
     lag gone p' \<and> content p' = filter (\<lambda>e. fst e \<notin> ids) (content p) \<and>
     (\<forall>i. placed (tp_all p') i = (if i \<in> ids then None else placed (tp_all p) i)) \<and>
     settings (tp_all p') = settings (tp_all p) \<and> tp_room p \<le> tp_room p' \<and> tp_config p' = tp_config p"

lemma lag_empty: "lag {} p \<longleftrightarrow> tp_inv p"
  by (simp add: lag_def tp_inv_def)

lemma loses_refl: "lag gone p \<Longrightarrow> loses gone {} p p"
  by (simp add: loses_def)

lemma loses_trans: "loses gone ids p p1 \<Longrightarrow> loses gone jds p1 p2 \<Longrightarrow> loses gone (ids \<union> jds) p p2"
  by (auto simp: loses_def intro!: filter_cong)

lemma content_sorted: "all_wf (tp_all p) \<Longrightarrow> bsorted (content p)"
  unfolding content_def by (rule entries_okD(1) [OF all_wfD(1)])

lemma map_of_content: "map_of (content p) i = map_option snd (placed (tp_all p) i)"
  by (simp add: content_def map_of_at_entries placed_def option.map_comp comp_def)

lemma map_of_loses: "loses gone ids p p' \<Longrightarrow> map_of (content p') i = (if i \<in> ids then None else map_of (content p) i)"
  unfolding map_of_content by (simp add: loses_def)

lemma remove_transaction_lag:
  assumes "lag gone p"
  obtains p' where
    "remove_transaction i p = Some (p', if i \<in> gone then None else map_of (content p) i)" and "loses gone {i} p p'"
proof (cases "map_of (txs (tp_all p)) i")
  case None
  have "filter (\<lambda>e. fst e \<noteq> i) (content p) = content p"
    using bdel_id [of "content p" i] None by (simp add: bdel_def map_of_content placed_def)
  then have "loses gone {i} p p" using assms None by (simp add: loses_def placed_def)
  moreover have "remove_transaction i p = Some (p, None)"
    using None by (simp add: remove_transaction_def at_remove_transaction_def remove_found_def)
  ultimately show thesis using that [of p] None by (simp add: map_of_content placed_def)
next
  case (Some x)
  let ?t = "it_transaction x" and ?loc = "\<lambda>j. if j \<in> gone then None else placed (tp_all p) j"
  have L: "subpools_inv p" "all_wf (tp_all p)" "holds p ?loc" using assms by (simp_all add: lag_def)
  let ?q = "p\<lparr>tp_all := without i x (tp_all p)\<rparr>"
  have id: "transaction_id ?t = i" by (rule all_wf_tx [OF L(2) Some])
  have run: "remove_transaction i p = remove_from_subpool (it_subpool x) i ?q"
    using at_remove_eq_by_id [OF L(2), of i] at_remove_by_id_eq [OF L(2) Some] id
    by (simp add: remove_transaction_def remove_found_def)
  have q: "subpools_inv ?q" "holds ?q ?loc" using L by simp_all
  have pl: "placed (without i x (tp_all p)) = (placed (tp_all p))(i := None)" by (rule placed_without [OF L(2) Some])
  have ents: "at_entries (without i x (tp_all p)) = filter (\<lambda>e. fst e \<noteq> i) (at_entries (tp_all p))"
    using cuts_entries [OF cuts_one [OF L(2) Some]] by simp
  obtain p' where p': "remove_from_subpool (it_subpool x) i ?q = Some (p', if i \<in> gone then None else Some ?t)"
      "holds p' (?loc(i := None))" "frame 0 ?q p'"
  proof (cases "i \<in> gone")
    case True
    then have "?loc i = None" by simp
    then obtain p' where "remove_from_subpool (it_subpool x) i ?q = Some (p', None)" "holds p' ?loc" "frame 0 ?q p'"
      by (rule remove_absent_law [OF q])
    moreover have "?loc = ?loc(i := None)" using True by auto
    ultimately show ?thesis using that [of p'] True by simp
  next
    case False
    then have "?loc i = Some (it_subpool x, ?t)" using Some by (simp add: placed_def)
    then obtain p' where "remove_from_subpool (it_subpool x) i ?q = Some (p', Some ?t)"
        "holds p' (?loc(i := None))" "frame 0 ?q p'"
      by (rule remove_found_law [OF q])
    then show ?thesis using that [of p'] False by simp
  qed
  have F: "tp_all p' = without i x (tp_all p)" "subpools_inv p'" "tp_room p \<le> tp_room p'" "tp_config p' = tp_config p"
    using p'(3) by (simp_all add: frame_def)
  have "?loc(i := None) = (\<lambda>j. if j \<in> gone then None else placed (tp_all p') j)"
    by (auto simp: fun_eq_iff F(1) pl)
  then have "lag gone p'"
    using p'(2) F(1,2) without_law(1) [OF L(2) Some] by (simp add: lag_def)
  then have "loses gone {i} p p'"
    using F pl ents without_law(4) [OF L(2) Some] by (simp add: loses_def content_def)
  then show thesis using that [of p'] run p'(1) Some by (simp add: map_of_content placed_def)
qed

lemma takeWhile_sender:
  assumes "bsorted m" and "\<forall>e \<in> set m. s \<le> sender (fst e)"
  shows "takeWhile (\<lambda>e. sender (fst e) = s) m = filter (\<lambda>e. sender (fst e) = s) m"
proof (rule takeWhile_eq_filter [where R = "\<lambda>a b. fst a < fst b"])
  show "sorted_wrt (\<lambda>a b. fst a < fst b) m" using assms(1) by (simp add: sorted_wrt_map)
qed (use assms(2) in \<open>auto simp: tid_order\<close>)

lemma descendants_exclusive_filter:
  assumes "bsorted (txs a)"
  shows "descendant_txs_exclusive i a = filter (\<lambda>e. sender (fst e) = sender i \<and> nonce i < nonce (fst e)) (txs a)"
  unfolding descendant_txs_exclusive_def
  by (subst takeWhile_sender) (auto simp: bafter_def tid_order intro!: filter_cong bsorted_filter assms)

lemma txs_iter_filter:
  assumes "bsorted (txs a)"
  shows "txs_iter s a = filter (\<lambda>e. sender (fst e) = s) (txs a)"
  unfolding txs_iter_def
  by (subst takeWhile_sender) (auto simp: bfrom_def start_bound_def tid_order intro!: filter_cong bsorted_filter assms)

text \<open>The identifiers above a given one, of the same sender.\<close>

definition higher :: "TransactionId \<Rightarrow> TransactionId set" where
  "higher i = {j. sender j = sender i \<and> nonce i < nonce j}"

definition taken :: "TransactionId set \<Rightarrow> TransactionId set \<Rightarrow> tx_pool \<Rightarrow> valid_pool_tx set" where
  "taken gone ids p = {t. \<exists>i. i \<in> ids \<and> i \<notin> gone \<and> map_of (content p) i = Some t}"

lemma taken_step:
  assumes "loses gone ids p p1"
  shows "taken gone (ids \<union> jds) p = taken gone ids p \<union> taken gone jds p1"
  using map_of_loses [OF assms] by (auto simp: taken_def split: if_splits)

lemma loses_cong:
  assumes "loses gone ids p p'" and "ids \<inter> fst ` set (content p) = jds \<inter> fst ` set (content p)"
  shows "loses gone jds p p'"
proof -
  have "fst e \<notin> ids \<longleftrightarrow> fst e \<notin> jds" if "e \<in> set (content p)" for e using assms(2) that by blast
  then have "filter (\<lambda>e. fst e \<notin> ids) (content p) = filter (\<lambda>e. fst e \<notin> jds) (content p)" by (intro filter_cong) auto
  moreover have "placed (tp_all p) i = None" if "(i \<in> ids) \<noteq> (i \<in> jds)" for i
  proof -
    have "i \<notin> fst ` set (content p)" using assms(2) that by blast
    then show ?thesis by (auto simp: content_def at_entries_def bvals_map_def placed_def map_of_eq_None_iff image_image)
  qed
  ultimately show ?thesis using assms(1) by (auto simp: loses_def)
qed

lemma map_of_in_keys: "map_of m i = Some t \<Longrightarrow> i \<in> fst ` set m"
  by (force dest: map_of_SomeD)

lemma remove_descendants_law:
  "lag gone p \<Longrightarrow>
   \<exists>p' us. remove_descendants i p = Some (p', us) \<and> loses gone (higher i) p p' \<and> set us = taken gone (higher i) p"
proof (induction i p rule: remove_descendants.induct)
  case (1 i p)
  have sm: "bsorted (txs (tp_all p))" using 1(2) by (auto simp: lag_def intro: all_wfD(8))
  have desc: "set (map fst (descendant_txs_exclusive i (tp_all p))) = higher i \<inter> fst ` set (content p)"
    unfolding descendants_exclusive_filter [OF sm] by (auto simp: higher_def content_def at_entries_def bvals_map_def image_image)
  show ?case
  proof (cases "descendant_txs_exclusive i (tp_all p)")
    case Nil
    then have none: "higher i \<inter> fst ` set (content p) = {}" using desc by simp
    then have "loses gone (higher i) p p" by (intro loses_cong [OF loses_refl [OF 1(2)]]) simp
    moreover have "taken gone (higher i) p = {}"
      using none by (force simp: taken_def dest!: map_of_SomeD)
    moreover have "remove_descendants i p = Some (p, [])" using Nil by (subst remove_descendants.simps) simp
    ultimately show ?thesis by auto
  next
    case (Cons e rest)
    obtain j x where e: "e = (j, x)" by fastforce
    obtain p1 where p1: "remove_transaction j p = Some (p1, if j \<in> gone then None else map_of (content p) j)"
        "loses gone {j} p p1"
      by (rule remove_transaction_lag [OF 1(2)])
    have lag1: "lag gone p1" using p1(2) by (simp add: loses_def)
    from 1(1) [OF Cons e [symmetric] p1(1) refl lag1] obtain p2 us where
      p2: "remove_descendants j p1 = Some (p2, us)" "loses gone (higher j) p1 p2" "set us = taken gone (higher j) p1"
      by blast
    have "j \<in> higher i" using desc Cons e by auto
    have low: "nonce j \<le> nonce k" if "k \<in> higher i" "k \<in> fst ` set (content p)" for k
    proof -
      have "k \<in> set (map fst (descendant_txs_exclusive i (tp_all p)))" using desc that by simp
      moreover have "bsorted (descendant_txs_exclusive i (tp_all p))"
        unfolding descendants_exclusive_filter [OF sm] by (rule bsorted_filter [OF sm])
      ultimately have "j \<le> k" using Cons e by (auto simp: less_imp_le)
      then show ?thesis using that(1) \<open>j \<in> higher i\<close> by (auto simp: higher_def tid_order)
    qed
    have "k = j \<or> k \<in> higher j" if "k \<in> higher i" "k \<in> fst ` set (content p)" for k
      using low [OF that] that(1) \<open>j \<in> higher i\<close> by (auto simp: higher_def TransactionId.expand order.order_iff_strict)
    with \<open>j \<in> higher i\<close> have split: "({j} \<union> higher j) \<inter> fst ` set (content p) = higher i \<inter> fst ` set (content p)"
      by (auto simp: higher_def)
    then have "loses gone (higher i) p p2" by (rule loses_cong [OF loses_trans [OF p1(2) p2(2)]])
    moreover have "taken gone ids p = taken gone (ids \<inter> fst ` set (content p)) p" for ids
      unfolding taken_def using map_of_in_keys [of "content p"] by blast
    then have "taken gone (higher i) p = taken gone ({j} \<union> higher j) p" using split by metis
    moreover have "remove_descendants i p = Some (p2, case if j \<in> gone then None else map_of (content p) j of None \<Rightarrow> us | Some t \<Rightarrow> t # us)"
      using Cons e p1(1) p2(1) by (subst remove_descendants.simps) simp
    moreover have "set (case if j \<in> gone then None else map_of (content p) j of None \<Rightarrow> us | Some t \<Rightarrow> t # us) = taken gone {j} p \<union> set us"
      by (auto simp: taken_def split: option.splits)
    ultimately show ?thesis using taken_step [OF p1(2), of "higher j"] p2(3) by auto
  qed
qed


section \<open>Enforcing the limits\<close>

definition below_closed :: "TransactionId set \<Rightarrow> bool" where
  "below_closed ids \<longleftrightarrow> (\<forall>i j. i \<in> ids \<longrightarrow> j \<in> higher i \<longrightarrow> j \<in> ids)"

text \<open>\<open>dropped p us p'\<close>: the transactions \<open>us\<close> are missing, each with every later one of its sender.\<close>

definition dropped :: "tx_pool \<Rightarrow> valid_pool_tx list \<Rightarrow> tx_pool \<Rightarrow> bool" where
  "dropped p us p' \<longleftrightarrow> (\<exists>ids. below_closed ids \<and> loses {} ids p p' \<and> set us = taken {} ids p)"

lemma dropped_refl: "tp_inv p \<Longrightarrow> dropped p [] p"
  unfolding dropped_def by (rule exI [of _ "{}"]) (simp add: below_closed_def loses_refl lag_empty taken_def)

lemma dropped_trans: "dropped p us p1 \<Longrightarrow> dropped p1 vs p2 \<Longrightarrow> dropped p (us @ vs) p2"
  unfolding dropped_def below_closed_def using loses_trans taken_step by (metis Un_iff set_append)

lemma droppedD:
  assumes "dropped p us p'"
  shows "after 0 p p'" and "keeps_prefix (content p) (content p')"
    and "set us = {t. \<exists>i. map_of (content p) i = Some t \<and> map_of (content p') i = None}"
    and "settings (tp_all p') = settings (tp_all p)"
    and "\<exists>P. content p' = filter P (content p)"
proof -
  obtain ids where ids: "below_closed ids" "loses {} ids p p'" "set us = taken {} ids p"
    using assms unfolding dropped_def by blast
  note m = map_of_loses [OF ids(2)]
  show "after 0 p p'" "settings (tp_all p') = settings (tp_all p)" "\<exists>P. content p' = filter P (content p)"
    using ids(2) by (auto simp: loses_def lag_empty after_def)
  show "keeps_prefix (content p) (content p')"
    using ids(1) by (auto simp: keeps_prefix_def m higher_def below_closed_def split: if_splits)
  show "set us = {t. \<exists>i. map_of (content p) i = Some t \<and> map_of (content p') i = None}"
    using ids(3) by (auto simp: m taken_def split: if_splits)
qed

lemma loses_pool_entries:
  assumes "tp_inv p" and "loses {} ids p p'"
  shows "pool_entries sp p' = filter (\<lambda>e. fst e \<notin> ids) (pool_entries sp p)"
proof (rule bsorted_map_of_eq)
  have inv: "tp_inv p'" using assms(2) by (simp add: loses_def lag_empty)
  show "bsorted (pool_entries sp p')" by (rule pool_entries_sorted [OF tp_invD(1) [OF inv]])
  show "bsorted (filter (\<lambda>e. fst e \<notin> ids) (pool_entries sp p))"
    by (rule bsorted_filter [OF pool_entries_sorted [OF tp_invD(1) [OF assms(1)]]])
  show "map_of (pool_entries sp p') = map_of (filter (\<lambda>e. fst e \<notin> ids) (pool_entries sp p))"
    using assms(2) holdsD [OF tp_invD(3) [OF inv]] holdsD [OF tp_invD(3) [OF assms(1)]]
    by (auto simp: fun_eq_iff map_of_filter_keys [of "\<lambda>k. k \<notin> ids"] loses_def)
qed

lemma container_remove_lag:
  assumes "lag gone p" and "i \<in> gone"
  shows "loses gone {i} p (p\<lparr>tp_all := fst (at_remove_transaction i (tp_all p))\<rparr>)"
proof (cases "map_of (txs (tp_all p)) i")
  case None
  have "filter (\<lambda>e. fst e \<noteq> i) (content p) = content p"
    using bdel_id [of "content p" i] None by (simp add: bdel_def map_of_content placed_def)
  then show ?thesis using assms None by (simp add: loses_def at_remove_transaction_def placed_def)
next
  case (Some x)
  have L: "subpools_inv p" "all_wf (tp_all p)" "holds p (\<lambda>j. if j \<in> gone then None else placed (tp_all p) j)"
    using assms(1) by (simp_all add: lag_def)
  have run: "fst (at_remove_transaction i (tp_all p)) = without i x (tp_all p)"
    using at_remove_eq_by_id [OF L(2), of i] at_remove_by_id_eq [OF L(2) Some] by simp
  have pl: "placed (without i x (tp_all p)) = (placed (tp_all p))(i := None)" by (rule placed_without [OF L(2) Some])
  have "(\<lambda>j. if j \<in> gone then None else placed (tp_all (p\<lparr>tp_all := without i x (tp_all p)\<rparr>)) j)
      = (\<lambda>j. if j \<in> gone then None else placed (tp_all p) j)"
    using assms(2) by (auto simp: fun_eq_iff pl)
  then have "lag gone (p\<lparr>tp_all := without i x (tp_all p)\<rparr>)"
    using L without_law(1) [OF L(2) Some] by (simp add: lag_def)
  then show ?thesis
    using pl cuts_entries [OF cuts_one [OF L(2) Some]] without_law(4) [OF L(2) Some]
    by (simp add: run loses_def content_def)
qed

definition upwards :: "TransactionId set \<Rightarrow> TransactionId set" where
  "upwards ids = (\<Union>i \<in> ids. insert i (higher i))"

lemma evict_each_law:
  "lag gone p \<Longrightarrow> transaction_id ` set ts \<subseteq> gone \<Longrightarrow>
   \<exists>p' us. evict_each ts p = Some (p', us) \<and> loses gone (upwards (transaction_id ` set ts)) p p' \<and>
     set us = set ts \<union> taken gone (upwards (transaction_id ` set ts)) p"
proof (induction ts arbitrary: p)
  case Nil
  then show ?case using loses_refl by (simp add: upwards_def taken_def)
next
  case (Cons t ts)
  let ?i = "transaction_id t" and ?rest = "upwards (transaction_id ` set ts)"
  have c: "upwards (transaction_id ` set (t # ts)) = {?i} \<union> (higher ?i \<union> ?rest)" by (auto simp: upwards_def)
  let ?p1 = "p\<lparr>tp_all := fst (at_remove_transaction ?i (tp_all p))\<rparr>"
  have gone: "?i \<in> gone" using Cons.prems(2) by simp
  have l1: "loses gone {?i} p ?p1" by (rule container_remove_lag [OF Cons.prems(1) gone])
  then obtain p2 ds where
    p2: "remove_descendants ?i ?p1 = Some (p2, ds)" "loses gone (higher ?i) ?p1 p2" "set ds = taken gone (higher ?i) ?p1"
    using remove_descendants_law [of gone ?p1 ?i] by (auto simp: loses_def)
  have "lag gone p2" using p2(2) by (simp add: loses_def)
  then obtain p3 us where p3: "evict_each ts p2 = Some (p3, us)" "loses gone ?rest p2 p3"
      "set us = set ts \<union> taken gone ?rest p2"
    using Cons.IH [of p2] Cons.prems(2) by auto
  have "taken gone {?i} p = {}" using gone by (auto simp: taken_def)
  then have "set (t # ds @ us) = set (t # ts) \<union> taken gone ({?i} \<union> (higher ?i \<union> ?rest)) p"
    unfolding taken_step [OF l1] taken_step [OF p2(2)] using p2(3) p3(3) by auto
  moreover have "loses gone ({?i} \<union> (higher ?i \<union> ?rest)) p p3"
    by (rule loses_trans [OF l1 loses_trans [OF p2(2) p3(2)]])
  ultimately show ?case using p2(1) p3(1) unfolding c by simp
qed

lemma evict_law:
  assumes inv: "tp_inv p" and rel: "releases sp ts p p1"
  obtains p2 us where "evict_each ts p1 = Some (p2, us)" and "dropped p us p2"
    and "ts \<noteq> [] \<Longrightarrow> length (pool_entries sp p2) < length (pool_entries sp p)"
proof -
  let ?gone = "transaction_id ` set ts"
  have R: "tp_all p1 = tp_all p" "subpools_inv p1" "tp_room p1 = tp_room p" "tp_config p1 = tp_config p"
    using rel by (simp_all add: releases_def)
  have lag1: "lag ?gone p1" using releases_law(1) [OF inv rel] R tp_invD(2) [OF inv] unfolding lag_def R(1) by simp
  then obtain p2 us where p2: "evict_each ts p1 = Some (p2, us)" "loses ?gone (upwards ?gone) p1 p2"
      "set us = set ts \<union> taken ?gone (upwards ?gone) p1"
    using evict_each_law [of ?gone p1 ts] by auto
  have sub: "?gone \<subseteq> upwards ?gone" by (auto simp: upwards_def)
  have c: "content p1 = content p" by (simp add: content_def R)
  have "placed (tp_all p2) i = None" if "i \<in> ?gone" for i using p2(2) sub that by (auto simp: loses_def)
  then have "(\<lambda>i. if i \<in> ?gone then None else placed (tp_all p2) i) = placed (tp_all p2)" by (auto simp: fun_eq_iff)
  moreover have "lag ?gone p2" using p2(2) by (simp add: loses_def)
  ultimately have "lag {} p2" by (simp add: lag_def)
  then have l2: "loses {} (upwards ?gone) p p2" using p2(2) unfolding loses_def R c by blast
  have own: "map_of (content p) (transaction_id t) = Some t" if "t \<in> set ts" for t
    using releases_law(2) [OF inv rel that] by (auto simp: map_of_content placed_def)
  have "taken {} (upwards ?gone) p = taken {} ?gone p \<union> taken ?gone (upwards ?gone) p1"
    using sub by (auto simp: taken_def c)
  moreover have "taken {} ?gone p = set ts" using own by (force simp: taken_def)
  moreover have "below_closed (upwards ?gone)" by (auto simp: below_closed_def upwards_def higher_def)
  ultimately have d: "dropped p us p2" unfolding dropped_def using l2 p2(3) by auto
  have "length (pool_entries sp p2) < length (pool_entries sp p)" if ne: "ts \<noteq> []"
  proof -
    obtain t where t: "t \<in> set ts" using ne by (cases ts) auto
    then have "(transaction_id t, t) \<in> set (pool_entries sp p)"
      using rel by (auto simp: releases_def evicts_def dest: map_of_SomeD)
    then show ?thesis
      unfolding loses_pool_entries [OF inv l2] using sub t by (intro length_filter_less) auto
  qed
  then show thesis using that p2(1) d by blast
qed


text \<open>What a sub-pool counts against its limit, and the limit.\<close>

definition pool_limit :: "SubPool \<Rightarrow> tx_pool \<Rightarrow> sub_pool_limit" where
  "pool_limit sp p =
     (case sp of
        Queued \<Rightarrow> queued_limit (tp_config p) | BaseFee \<Rightarrow> basefee_limit (tp_config p)
      | Blob \<Rightarrow> blob_limit (tp_config p) | Pending \<Rightarrow> pending_limit (tp_config p))"

definition exceeded :: "SubPool \<Rightarrow> tx_pool \<Rightarrow> bool" where
  "exceeded sp p \<longleftrightarrow>
     limit_is_exceeded (pool_limit sp p) (length (pool_entries sp p)) (total_size (pool_entries sp p))"

lemma exceeded_iff:
  assumes "subpools_inv p"
  shows "pd_exceeds (pending_limit (tp_config p)) (tp_pending p) \<longleftrightarrow> exceeded Pending p"
    and "pk_exceeds (basefee_limit (tp_config p)) (tp_basefee p) \<longleftrightarrow> exceeded BaseFee p"
    and "bl_exceeds (blob_limit (tp_config p)) (tp_blob p) \<longleftrightarrow> exceeded Blob p"
    and "pk_exceeds (queued_limit (tp_config p)) (tp_queued p) \<longleftrightarrow> exceeded Queued p"
  using subpools_invD [OF assms]
  by (simp_all add: pd_exceeds_def pk_exceeds_def bl_exceeds_def exceeded_def pool_limit_def pool_entries_def
      pending.plen_law pending.psize_law parked.plen_law parked.psize_law blob.plen_law blob.psize_law)

lemma discard_loop_law:
  assumes ex: "\<forall>p. subpools_inv p \<longrightarrow> exceeds p = exceeded sp p"
    and cut: "\<forall>p. tp_inv p \<longrightarrow> (\<exists>p1 ts. cutoff p = Some (p1, ts) \<and> releases sp ts p p1 \<and> \<not> exceeded sp p1)"
  shows "tp_inv p \<Longrightarrow> \<exists>p' us. discard_loop exceeds cutoff p = Some (p', us) \<and> dropped p us p' \<and> \<not> exceeded sp p'"
proof (induction "length (pool_entries sp p)" arbitrary: p rule: less_induct)
  case less
  note inv = less.prems
  show ?case
  proof (cases "exceeded sp p")
    case False
    then show ?thesis
      using ex tp_invD(1) [OF inv] dropped_refl [OF inv] by (subst discard_loop.simps) auto
  next
    case True
    obtain p1 ts where p1: "cutoff p = Some (p1, ts)" "releases sp ts p p1" "\<not> exceeded sp p1" using cut inv by blast
    have "ts \<noteq> []"
    proof
      assume "ts = []"
      then have "pool_entries sp p1 = pool_entries sp p" "tp_config p1 = tp_config p"
        using p1(2) by (simp_all add: releases_def evicts_def)
      then show False using True p1(3) by (simp add: exceeded_def pool_limit_def cong: SubPool.case_cong)
    qed
    then obtain p2 us where p2: "evict_each ts p1 = Some (p2, us)" "dropped p us p2"
        "length (pool_entries sp p2) < length (pool_entries sp p)"
      using evict_law [OF inv p1(2)] by blast
    then obtain p3 vs where "discard_loop exceeds cutoff p2 = Some (p3, vs)" "dropped p2 vs p3" "\<not> exceeded sp p3"
      using less.hyps [of p2] droppedD(1) [OF p2(2)] by (auto simp: after_def)
    then show ?thesis
      using True ex tp_invD(1) [OF inv] p1(1) p2(1) dropped_trans [OF p2(2)] by (subst discard_loop.simps) auto
  qed
qed

lemma pending_cutoff:
  assumes "tp_inv p"
  shows "\<exists>p1 ts. (do { (q, ts) \<leftarrow> pd_truncate_pool (pending_limit (tp_config p)) (tp_pending p); Some (p\<lparr>tp_pending := q\<rparr>, ts) }) = Some (p1, ts) \<and>
     releases Pending ts p p1 \<and> \<not> exceeded Pending p1"
proof -
  note I = subpools_invD [OF tp_invD(1) [OF assms]]
  obtain q ts where q: "pd_truncate_pool (pending_limit (tp_config p)) (tp_pending p) = Some (q, ts)" "pd_inv q"
      "evicts (pd_entries (tp_pending p)) ts (pd_entries q)" "pd_room q = pd_room (tp_pending p)"
      "\<not> limit_is_exceeded (pending_limit (tp_config p)) (pd_len q) (pd_size q)"
    using pending.truncate_law [OF I(4)] by blast
  have s: "subpools_inv (p\<lparr>tp_pending := q\<rparr>)" using I q(2) by (simp add: subpools_inv_def)
  then have "releases Pending ts p (p\<lparr>tp_pending := q\<rparr>)"
    using q(3,4) by (auto simp: releases_def pool_entries_def tp_room_def split: SubPool.splits)
  then show ?thesis using q(1,5) exceeded_iff(1) [OF s] by (auto simp: pd_exceeds_def)
qed

lemma basefee_cutoff:
  assumes "tp_inv p"
  shows "\<exists>p1 ts. (do { (q, ts) \<leftarrow> pk_truncate_pool (basefee_limit (tp_config p)) (tp_basefee p); Some (p\<lparr>tp_basefee := q\<rparr>, ts) }) = Some (p1, ts) \<and>
     releases BaseFee ts p p1 \<and> \<not> exceeded BaseFee p1"
proof -
  note I = subpools_invD [OF tp_invD(1) [OF assms]]
  obtain q ts where q: "pk_truncate_pool (basefee_limit (tp_config p)) (tp_basefee p) = Some (q, ts)" "pk_inv q"
      "evicts (pk_entries (tp_basefee p)) ts (pk_entries q)" "pk_room q = pk_room (tp_basefee p)"
      "\<not> limit_is_exceeded (basefee_limit (tp_config p)) (pk_len q) (pk_size q)"
    using parked.truncate_law [OF I(2)] by blast
  have s: "subpools_inv (p\<lparr>tp_basefee := q\<rparr>)" using I q(2) by (simp add: subpools_inv_def)
  then have "releases BaseFee ts p (p\<lparr>tp_basefee := q\<rparr>)"
    using q(3,4) by (auto simp: releases_def pool_entries_def tp_room_def split: SubPool.splits)
  then show ?thesis using q(1,5) exceeded_iff(2) [OF s] by (auto simp: pk_exceeds_def)
qed

lemma blob_cutoff:
  assumes "tp_inv p"
  shows "\<exists>p1 ts. (do { (q, ts) \<leftarrow> bl_truncate_pool (blob_limit (tp_config p)) (tp_blob p); Some (p\<lparr>tp_blob := q\<rparr>, ts) }) = Some (p1, ts) \<and>
     releases Blob ts p p1 \<and> \<not> exceeded Blob p1"
proof -
  note I = subpools_invD [OF tp_invD(1) [OF assms]]
  obtain q ts where q: "bl_truncate_pool (blob_limit (tp_config p)) (tp_blob p) = Some (q, ts)" "bl_inv q"
      "evicts (bl_entries (tp_blob p)) ts (bl_entries q)" "bl_room q = bl_room (tp_blob p)"
      "\<not> limit_is_exceeded (blob_limit (tp_config p)) (bl_len q) (bl_size q)"
    using blob.truncate_law [OF I(3)] by blast
  have s: "subpools_inv (p\<lparr>tp_blob := q\<rparr>)" using I q(2) by (simp add: subpools_inv_def)
  then have "releases Blob ts p (p\<lparr>tp_blob := q\<rparr>)"
    using q(3,4) by (auto simp: releases_def pool_entries_def tp_room_def split: SubPool.splits)
  then show ?thesis using q(1,5) exceeded_iff(3) [OF s] by (auto simp: bl_exceeds_def)
qed

lemma queued_cutoff:
  assumes "tp_inv p"
  shows "\<exists>p1 ts. (do { (q, ts) \<leftarrow> pk_truncate_pool (queued_limit (tp_config p)) (tp_queued p); Some (p\<lparr>tp_queued := q\<rparr>, ts) }) = Some (p1, ts) \<and>
     releases Queued ts p p1 \<and> \<not> exceeded Queued p1"
proof -
  note I = subpools_invD [OF tp_invD(1) [OF assms]]
  obtain q ts where q: "pk_truncate_pool (queued_limit (tp_config p)) (tp_queued p) = Some (q, ts)" "pk_inv q"
      "evicts (pk_entries (tp_queued p)) ts (pk_entries q)" "pk_room q = pk_room (tp_queued p)"
      "\<not> limit_is_exceeded (queued_limit (tp_config p)) (pk_len q) (pk_size q)"
    using parked.truncate_law [OF I(1)] by blast
  have s: "subpools_inv (p\<lparr>tp_queued := q\<rparr>)" using I q(2) by (simp add: subpools_inv_def)
  then have "releases Queued ts p (p\<lparr>tp_queued := q\<rparr>)"
    using q(3,4) by (auto simp: releases_def pool_entries_def tp_room_def split: SubPool.splits)
  then show ?thesis using q(1,5) exceeded_iff(4) [OF s] by (auto simp: pk_exceeds_def)
qed

text \<open>Each of the four loops ends, with its sub-pool within the limit.\<close>

lemma discard_laws:
  assumes "tp_inv p"
  shows "\<exists>p' us. discard_pending p = Some (p', us) \<and> dropped p us p' \<and> \<not> exceeded Pending p'"
    and "\<exists>p' us. discard_basefee p = Some (p', us) \<and> dropped p us p' \<and> \<not> exceeded BaseFee p'"
    and "\<exists>p' us. discard_blob p = Some (p', us) \<and> dropped p us p' \<and> \<not> exceeded Blob p'"
    and "\<exists>p' us. discard_queued p = Some (p', us) \<and> dropped p us p' \<and> \<not> exceeded Queued p'"
  unfolding discard_pending_def discard_basefee_def discard_blob_def discard_queued_def
  by (rule discard_loop_law [OF _ _ assms]; intro allI impI; (rule pending_cutoff basefee_cutoff blob_cutoff queued_cutoff)?;
      simp add: exceeded_iff)+

text \<open>
  Removing transactions never takes a sub-pool over its limit, provided the sizes of its transactions sum
  up without wrap-around.
\<close>

definition no_overflow :: "tx_pool \<Rightarrow> bool" where
  "no_overflow p \<longleftrightarrow> sum_list (map (unat \<circ> tx_size \<circ> snd) (content p)) < 2 ^ 64"


lemma pool_entries_part:
  assumes "tp_inv p"
  shows "pool_entries sp p = filter (\<lambda>e. map_option fst (placed (tp_all p) (fst e)) = Some sp) (content p)"
proof (rule bsorted_map_of_eq)
  note D = tp_invD [OF assms]
  show "bsorted (pool_entries sp p)" by (rule pool_entries_sorted [OF D(1)])
  show "bsorted (filter (\<lambda>e. map_option fst (placed (tp_all p) (fst e)) = Some sp) (content p))"
    by (rule bsorted_filter [OF content_sorted [OF D(2)]])
  show "map_of (pool_entries sp p) = map_of (filter (\<lambda>e. map_option fst (placed (tp_all p) (fst e)) = Some sp) (content p))"
    unfolding fun_eq_iff map_of_filter_keys [of "\<lambda>i. map_option fst (placed (tp_all p) i) = Some sp"]
    by (auto simp: holdsD [OF D(3)] map_of_content held_in_def split: option.splits)
qed

lemma sum_list_filter_le: "sum_list (map f (filter P xs)) \<le> sum_list (map f xs)" for f :: "'a \<Rightarrow> nat"
  by (induction xs) auto

lemma unat_total_size:
  assumes "sum_list (map (unat \<circ> tx_size \<circ> snd) m) < 2 ^ 64"
  shows "unat (total_size m) = sum_list (map (unat \<circ> tx_size \<circ> snd) m)"
  using assms
proof (induction m)
  case (Cons e m)
  then show ?case by (simp add: total_size_def unat_word_ariths)
qed (simp add: total_size_def)

lemma exceeded_mono:
  assumes inv: "tp_inv p" and d: "dropped p us p'" and small: "no_overflow p" and ok: "\<not> exceeded sp p"
  shows "\<not> exceeded sp p'"
proof -
  let ?w = "\<lambda>m. sum_list (map (unat \<circ> tx_size \<circ> snd) m)"
  obtain ids where ids: "loses {} ids p p'" using d unfolding dropped_def by blast
  note e = loses_pool_entries [OF inv ids, of sp]
  have w: "?w (pool_entries sp p) < 2 ^ 64"
    using small sum_list_filter_le [of "unat \<circ> tx_size \<circ> snd" _ "content p"]
    unfolding no_overflow_def pool_entries_part [OF inv, of sp] by (rule le_less_trans [rotated])
  have le: "?w (pool_entries sp p') \<le> ?w (pool_entries sp p)" unfolding e by (rule sum_list_filter_le)
  then have "total_size (pool_entries sp p') \<le> total_size (pool_entries sp p)"
    using unat_total_size [of "pool_entries sp p"] unat_total_size [of "pool_entries sp p'"] w
    by (simp add: word_le_nat_alt)
  moreover have "length (pool_entries sp p') \<le> length (pool_entries sp p)" unfolding e by simp
  moreover have "pool_limit sp p' = pool_limit sp p" using ids by (simp add: loses_def pool_limit_def cong: SubPool.case_cong)
  ultimately show ?thesis using ok by (auto simp: exceeded_def limit_is_exceeded_def)
qed

lemma is_exceeded_iff: "subpools_inv p \<Longrightarrow> is_exceeded p \<longleftrightarrow> (\<exists>sp. exceeded sp p)"
  using exceeded_iff [of p]
  by (auto simp: is_exceeded_def config_is_exceeded_def tp_size_def pd_exceeds_def pk_exceeds_def bl_exceeds_def)
    (metis (full_types) SubPool.exhaust)

lemma no_overflow_dropped: "dropped p us p' \<Longrightarrow> no_overflow p \<Longrightarrow> no_overflow p'"
  unfolding no_overflow_def using droppedD(5) [of p us p'] sum_list_filter_le by (metis le_less_trans)

lemma discard_worst_law:
  assumes inv: "tp_inv p"
  obtains p' us where "discard_worst p = Some (p', us)" and "dropped p us p'" and "\<not> exceeded Queued p'"
    and "no_overflow p \<Longrightarrow> \<not> is_exceeded p'"
proof -
  have I: "tp_inv q'" if "dropped q vs q'" for q vs q' using droppedD(1) [OF that] by (simp add: after_def)
  obtain p1 u1 where 1: "discard_pending p = Some (p1, u1)" "dropped p u1 p1" "\<not> exceeded Pending p1"
    using discard_laws(1) [OF inv] by blast
  obtain p2 u2 where 2: "discard_basefee p1 = Some (p2, u2)" "dropped p1 u2 p2" "\<not> exceeded BaseFee p2"
    using discard_laws(2) [OF I [OF 1(2)]] by blast
  obtain p3 u3 where 3: "discard_blob p2 = Some (p3, u3)" "dropped p2 u3 p3" "\<not> exceeded Blob p3"
    using discard_laws(3) [OF I [OF 2(2)]] by blast
  obtain p4 u4 where 4: "discard_queued p3 = Some (p4, u4)" "dropped p3 u4 p4" "\<not> exceeded Queued p4"
    using discard_laws(4) [OF I [OF 3(2)]] by blast
  have d34: "dropped p2 (u3 @ u4) p4" by (rule dropped_trans [OF 3(2) 4(2)])
  have d24: "dropped p1 (u2 @ u3 @ u4) p4" by (rule dropped_trans [OF 2(2) d34])
  have d: "dropped p (u1 @ u2 @ u3 @ u4) p4" by (rule dropped_trans [OF 1(2) d24])
  have "\<not> is_exceeded p4" if ov: "no_overflow p"
  proof -
    have ov1: "no_overflow p1" by (rule no_overflow_dropped [OF 1(2) ov])
    have ov2: "no_overflow p2" by (rule no_overflow_dropped [OF 2(2) ov1])
    have ov3: "no_overflow p3" by (rule no_overflow_dropped [OF 3(2) ov2])
    have "\<not> exceeded sp p4" for sp
      using exceeded_mono [OF I [OF 1(2)] d24 ov1 1(3)] exceeded_mono [OF I [OF 2(2)] d34 ov2 2(3)]
        exceeded_mono [OF I [OF 3(2)] 4(2) ov3 3(3)] 4(3) by (cases sp) simp_all
    then show ?thesis using is_exceeded_iff [OF tp_invD(1) [OF I [OF d]]] by simp
  qed
  moreover have "discard_worst p = Some (p4, u1 @ u2 @ u3 @ u4)" using 1 2 3 4 by (simp add: discard_worst_def)
  ultimately show thesis using that d 4(3) by blast
qed

section \<open>The other removals\<close>

lemma descendant_park_entries:
  "bsorted m \<Longrightarrow> bvals_map it_transaction (descendant_txs_mut i (bvals_map park_tx) m) = bvals_map it_transaction m"
  by (rule moves_entries, rule descendant_txs_mut_moves, assumption, rule park_moves)

lemma remove_by_hash_content:
  assumes inv: "tp_inv p" and room: "length (content p) \<le> tp_room p"
  obtains p' where "remove_transaction_by_hash h p = Some (p', tp_get p h)"
    and "after (length (content p)) p p'" and "settings (tp_all p') = settings (tp_all p)"
    and "content p' = filter (\<lambda>e. tx_hash (snd e) \<noteq> h) (content p)"
    and "tp_get p h = None \<Longrightarrow> p' = p"
proof (cases "tp_get p h")
  case None
  then have "pruned (case tp_get p h of None \<Rightarrow> [] | Some t \<Rightarrow> [transaction_id t]) p p"
    by (simp add: pruned_refl [OF inv])
  from prune_by_hash_entries [OF inv this] show thesis
    using that [of p] remove_by_hash_None [OF None] after_mono [OF after_refl [OF inv]] None by (simp add: content_def)
next
  case (Some t)
  have sm: "bsorted (txs (tp_all p))" by (rule all_wfD(8) [OF tp_invD(2) [OF inv]])
  obtain q where q: "prune_transaction_by_hash h p = Some (q, tp_get p h)"
      "pruned (case tp_get p h of None \<Rightarrow> [] | Some t \<Rightarrow> [transaction_id t]) p q"
    by (rule prune_by_hash_law [OF inv])
  have "bdel (transaction_id t) (content p) = filter (\<lambda>e. tx_hash (snd e) \<noteq> h) (content p)"
    using prune_by_hash_entries [OF inv q(2)] cuts_entries [of "[transaction_id t]" "tp_all p" "tp_all q"] q(2) Some
    by (simp add: pruned_def content_def bdel_def)
  moreover obtain p' where p': "remove_transaction_by_hash h p = Some (p', Some t)" "after (length (txs (tp_all p))) p p'"
      "txs (tp_all p') = descendant_txs_mut (transaction_id t) (bvals_map park_tx) (bdel (transaction_id t) (txs (tp_all p)))"
      "settings (tp_all p') = settings (tp_all p)"
    using remove_by_hash_law [OF inv _ Some] room by (auto simp: content_def length_txs)
  moreover have "content p' = bdel (transaction_id t) (content p)"
    unfolding content_def at_entries_def p'(3) descendant_park_entries [OF bsorted_bdel [OF sm]] by (simp add: bvals_map_bdel)
  ultimately show thesis using that [of p'] Some by (simp add: content_def length_txs)
qed


lemma remove_transactions_law:
  "tp_inv p \<Longrightarrow> length hs * length (content p) \<le> tp_room p \<Longrightarrow>
   \<exists>p' ts. remove_transactions hs p = Some (p', ts) \<and> after (length hs * length (content p)) p p' \<and>
     content p' = filter (\<lambda>e. tx_hash (snd e) \<notin> set hs) (content p)"
  unfolding remove_transactions_def
proof (induction hs arbitrary: p)
  case Nil
  then show ?case by (simp add: after_refl)
next
  case (Cons h hs p)
  let ?n = "length (content p)"
  have r: "?n + length hs * ?n \<le> tp_room p" using Cons.prems(2) by simp
  have r1: "?n \<le> tp_room p" using r by simp
  obtain p1 where p1: "remove_transaction_by_hash h p = Some (p1, tp_get p h)" "after ?n p p1"
      "content p1 = filter (\<lambda>e. tx_hash (snd e) \<noteq> h) (content p)"
    using remove_by_hash_content [OF Cons.prems(1) r1, of h] by blast
  have "length (content p1) \<le> ?n" by (simp add: p1(3))
  then have n1: "length hs * length (content p1) \<le> length hs * ?n" by simp
  have "tp_inv p1" "tp_room p \<le> tp_room p1 + ?n" using p1(2) by (simp_all add: after_def)
  then obtain p2 ts where p2: "removing_each remove_transaction_by_hash hs p1 = Some (p2, ts)"
      "after (length hs * length (content p1)) p1 p2" "content p2 = filter (\<lambda>e. tx_hash (snd e) \<notin> set hs) (content p1)"
    using Cons.IH [of p1] r n1 by auto
  have "after (length (h # hs) * ?n) p p2" using after_trans [OF p1(2) after_mono [OF p2(2) n1]] by simp
  moreover have "content p2 = filter (\<lambda>e. tx_hash (snd e) \<notin> set (h # hs)) (content p)"
    by (auto simp: p1(3) p2(3) intro!: filter_cong)
  ultimately show ?case using p1(1) p2(1) by simp
qed

lemma map_filter_cong: "(\<And>x. x \<in> set xs \<Longrightarrow> f x = g x) \<Longrightarrow> List.map_filter f xs = List.map_filter g xs"
  by (induction xs) (simp_all add: map_filter_simps split: option.split)

lemma remove_ids_law:
  "tp_inv p \<Longrightarrow> distinct ids \<Longrightarrow>
   \<exists>p'. removing_each remove_transaction ids p = Some (p', List.map_filter (map_of (content p)) ids) \<and>
     loses {} (set ids) p p'"
proof (induction ids arbitrary: p)
  case Nil
  then show ?case by (simp add: loses_refl lag_empty map_filter_simps)
next
  case (Cons i ids)
  have lag: "lag {} p" using Cons.prems(1) by (simp add: lag_empty)
  obtain p1 where p1: "remove_transaction i p = Some (p1, if i \<in> {} then None else map_of (content p) i)" "loses {} {i} p p1"
    by (rule remove_transaction_lag [OF lag])
  then have "tp_inv p1" by (simp add: loses_def lag_empty)
  then obtain p2 where p2: "removing_each remove_transaction ids p1 = Some (p2, List.map_filter (map_of (content p1)) ids)"
      "loses {} (set ids) p1 p2"
    using Cons.IH [of p1] Cons.prems(2) by auto
  have "List.map_filter (map_of (content p1)) ids = List.map_filter (map_of (content p)) ids"
    using Cons.prems(2) map_of_loses [OF p1(2)] by (intro map_filter_cong) auto
  moreover have "loses {} (set (i # ids)) p p2" using loses_trans [OF p1(2) p2(2)] by simp
  ultimately show ?case using p1(1) p2(1) by (auto simp: map_filter_simps split: option.splits)
qed

lemma map_filter_map_of:
  "\<forall>e \<in> set es. map_of m (fst e) = Some (snd e) \<Longrightarrow> List.map_filter (map_of m) (map fst es) = map snd es"
  by (induction es) (auto simp: map_filter_simps)

lemma remove_by_sender_law:
  assumes inv: "tp_inv p"
  obtains p' where "remove_transactions_by_sender s p = Some (p', get_transactions_by_sender s p)"
    and "after 0 p p'" and "content p' = filter (\<lambda>e. sender (fst e) \<noteq> s) (content p)"
    and "get_transactions_by_sender s p = map snd (filter (\<lambda>e. sender (fst e) = s) (content p))"
proof -
  let ?own = "filter (\<lambda>e. sender (fst e) = s) (content p)"
  note D = tp_invD [OF inv]
  have own: "get_transactions_by_sender s p = map snd ?own"
    by (simp add: get_transactions_by_sender_def txs_iter_filter [OF all_wfD(8) [OF D(2)]] content_def at_entries_def bvals_map_def filter_map comp_def)
  have sorted: "bsorted ?own" by (rule bsorted_filter [OF content_sorted [OF D(2)]])
  have e: "map_of (content p) (fst e) = Some (snd e) \<and> transaction_id (snd e) = fst e" if "e \<in> set (content p)" for e
    using that in_set_map_of [OF content_sorted [OF D(2)], of "fst e" "snd e"]
      entries_okD(2) [OF all_wfD(1) [OF D(2)], of "fst e" "snd e"] by (simp add: content_def)
  then have ids: "map transaction_id (get_transactions_by_sender s p) = map fst ?own" unfolding own by simp
  have "List.map_filter (map_of (content p)) (map fst ?own) = map snd ?own"
    by (rule map_filter_map_of) (use e in auto)
  moreover have "distinct (map fst ?own)" by (rule bsorted_distinct [OF sorted])
  ultimately obtain p' where p': "remove_transactions_by_sender s p = Some (p', get_transactions_by_sender s p)"
      "loses {} (set (map fst ?own)) p p'"
    unfolding remove_transactions_by_sender_def ids unfolding own using remove_ids_law [OF inv, of "map fst ?own"] by metis
  have "content p' = filter (\<lambda>e. sender (fst e) \<noteq> s) (content p)"
    using p'(2) by (force simp: loses_def intro!: filter_cong)
  moreover have "after 0 p p'" using p'(2) by (simp add: loses_def lag_empty after_def)
  ultimately show thesis using that p'(1) own by blast
qed

text \<open>
  Removing by hash with all descendants: of the container, exactly the transactions with one of the hashes
  and those of the same sender with a higher nonce are gone.
\<close>

definition hit :: "B256 set \<Rightarrow> entries \<Rightarrow> TransactionId set" where
  "hit hs m = {i. \<exists>t. map_of m i = Some t \<and> tx_hash t \<in> hs}"

lemma remove_one_and_descendants:
  assumes inv: "tp_inv p" and room: "length (content p) \<le> tp_room p" and get: "tp_get p h = Some t"
  obtains p1 p2 us where "remove_transaction_by_hash h p = Some (p1, Some t)"
    and "remove_descendants (transaction_id t) p1 = Some (p2, us)" and "after (length (content p)) p p2"
    and "content p2 = filter (\<lambda>e. fst e \<notin> upwards (hit {h} (content p))) (content p)"
proof -
  obtain p1 where p1: "remove_transaction_by_hash h p = Some (p1, Some t)" "after (length (content p)) p p1"
      "content p1 = filter (\<lambda>e. tx_hash (snd e) \<noteq> h) (content p)"
    using remove_by_hash_content [OF inv room, of h] get by metis
  have "lag {} p1" using p1(2) by (simp add: after_def lag_empty)
  then obtain p2 us where p2: "remove_descendants (transaction_id t) p1 = Some (p2, us)"
      "loses {} (higher (transaction_id t)) p1 p2"
    using remove_descendants_law by blast
  note D = all_wfD [OF tp_invD(2) [OF inv]]
  have iff: "tp_get p h = Some u \<longleftrightarrow> tx_hash u = h \<and> map_of (content p) (transaction_id u) = Some u" for u
    using hash_index_iff [OF D(2)] by (simp add: tp_get_def content_def)
  have id: "transaction_id u = i" if "map_of (content p) i = Some u" for i u
    using entries_okD(2) [OF D(1)] that by (simp add: content_def)
  have hits: "hit {h} (content p) = {transaction_id t}"
    using iff get id by (auto simp: hit_def) metis
  have "content p2 = filter (\<lambda>e. fst e \<notin> higher (transaction_id t)) (filter (\<lambda>e. tx_hash (snd e) \<noteq> h) (content p))"
    using p2(2) p1(3) by (simp add: loses_def)
  moreover have "tx_hash (snd e) \<noteq> h \<longleftrightarrow> fst e \<noteq> transaction_id t" if "e \<in> set (content p)" for e
  proof -
    have "map_of (content p) (fst e) = Some (snd e)"
      using that in_set_map_of [OF content_sorted [OF tp_invD(2) [OF inv]], of "fst e" "snd e"] by simp
    then show ?thesis using iff [of "snd e"] iff [of t] get id by (metis option.inject)
  qed
  ultimately have "content p2 = filter (\<lambda>e. fst e \<notin> upwards (hit {h} (content p))) (content p)"
    unfolding hits by (auto simp: upwards_def intro!: filter_cong)
  moreover have "after (length (content p)) p p2"
    using p1(2) p2(2) by (simp add: loses_def lag_empty after_def)
  ultimately show thesis using that p1(1) p2(1) by blast
qed

lemma foldl_None: "(\<And>x. f None x = None) \<Longrightarrow> foldl f None xs = None"
  by (induction xs) auto

lemma upwards_Un: "upwards (A \<union> B) = upwards A \<union> upwards B"
  by (auto simp: upwards_def)

lemma upwards_mono: "A \<subseteq> B \<Longrightarrow> upwards A \<subseteq> upwards B"
  by (auto simp: upwards_def)

lemma upwards_idem: "upwards (upwards A) = upwards A"
  by (auto simp: upwards_def higher_def)

lemma upwards_hit_Cons:
  assumes m': "m' = filter (\<lambda>e. fst e \<notin> upwards (hit {h} m)) m"
  shows "filter (\<lambda>e. fst e \<notin> upwards (hit H m')) m' = filter (\<lambda>e. fst e \<notin> upwards (hit (insert h H) m)) m"
proof -
  have m'_iff: "map_of m' i = (if i \<in> upwards (hit {h} m) then None else map_of m i)" for i
    using map_of_filter_keys [of "\<lambda>i. i \<notin> upwards (hit {h} m)" m i] m' by simp
  have "hit {h} m \<union> hit H m' \<subseteq> hit (insert h H) m" by (auto simp: hit_def m'_iff split: if_splits)
  moreover have "hit (insert h H) m \<subseteq> upwards (hit {h} m) \<union> hit H m'"
    by (auto simp: hit_def m'_iff upwards_def)
  ultimately have "upwards (hit {h} m) \<union> upwards (hit H m') = upwards (hit (insert h H) m)"
    using upwards_mono upwards_Un upwards_idem by (metis subset_antisym)
  then show ?thesis by (auto simp: m' intro!: filter_cong)
qed

lemma hit_absent:
  assumes inv: "tp_inv p" and get: "tp_get p h = None"
  shows "hit {h} (content p) = {}"
proof -
  note D = all_wfD [OF tp_invD(2) [OF inv]]
  have "False" if "map_of (content p) i = Some u" "tx_hash u = h" for i u
    using hash_index_iff [OF D(2), of h u] get entries_okD(2) [OF D(1), of i u] that by (simp add: tp_get_def content_def)
  then show ?thesis by (auto simp: hit_def)
qed

lemma remove_transactions_and_descendants_law:
  "tp_inv p \<Longrightarrow> length hs * length (content p) \<le> tp_room p \<Longrightarrow>
   \<exists>p' ts. remove_transactions_and_descendants hs p = Some (p', ts) \<and> after (length hs * length (content p)) p p' \<and>
     content p' = filter (\<lambda>e. fst e \<notin> upwards (hit (set hs) (content p))) (content p)"
proof -
  let ?step = "\<lambda>st h.
        do { (p0, removed) \<leftarrow> st;
             (p1, r) \<leftarrow> remove_transaction_by_hash h p0;
             (case r of
                None \<Rightarrow> Some (p1, removed)
              | Some t \<Rightarrow>
                  do { (p2, ts) \<leftarrow> remove_descendants (transaction_id t) p1;
                       Some (p2, removed @ t # ts) }) }"
  have "\<exists>p' ts. foldl ?step (Some (p, acc)) hs = Some (p', ts) \<and> after (length hs * length (content p)) p p' \<and>
     content p' = filter (\<lambda>e. fst e \<notin> upwards (hit (set hs) (content p))) (content p)"
    if "tp_inv p" "length hs * length (content p) \<le> tp_room p" for acc p hs
    using that
  proof (induction hs arbitrary: p acc)
    case Nil
    then show ?case by (simp add: after_refl hit_def upwards_def)
  next
    case (Cons h hs)
    let ?n = "length (content p)"
    have r: "?n + length hs * ?n \<le> tp_room p" using Cons.prems(2) by simp
    then have rn: "?n \<le> tp_room p" by simp
    obtain p1 acc1 where p1: "?step (Some (p, acc)) h = Some (p1, acc1)" "after ?n p p1"
        "content p1 = filter (\<lambda>e. fst e \<notin> upwards (hit {h} (content p))) (content p)"
    proof (cases "tp_get p h")
      case None
      then have "content p = filter (\<lambda>e. fst e \<notin> upwards (hit {h} (content p))) (content p)"
        by (simp add: hit_absent [OF Cons.prems(1)] upwards_def)
      then show ?thesis
        using that [of p acc] remove_by_hash_None [OF None] after_mono [OF after_refl [OF Cons.prems(1)]] by simp
    next
      case (Some t)
      obtain p1 p2 us where "remove_transaction_by_hash h p = Some (p1, Some t)"
          "remove_descendants (transaction_id t) p1 = Some (p2, us)" "after ?n p p2"
          "content p2 = filter (\<lambda>e. fst e \<notin> upwards (hit {h} (content p))) (content p)"
        by (rule remove_one_and_descendants [OF Cons.prems(1) rn Some])
      then show ?thesis using that [of p2 "acc @ t # us"] by simp
    qed
    have n1: "length hs * length (content p1) \<le> length hs * ?n" by (simp add: p1(3))
    have af: "tp_inv p1" "tp_room p \<le> tp_room p1 + ?n" using p1(2) by (simp_all add: after_def)
    have "length hs * length (content p1) \<le> tp_room p1" using af(2) r n1 by linarith
    with af(1) obtain p2 ts where p2: "foldl ?step (Some (p1, acc1)) hs = Some (p2, ts)"
        "after (length hs * length (content p1)) p1 p2"
        "content p2 = filter (\<lambda>e. fst e \<notin> upwards (hit (set hs) (content p1))) (content p1)"
      using Cons.IH [of p1 acc1] by blast
    have "after (length (h # hs) * ?n) p p2" using after_trans [OF p1(2) after_mono [OF p2(2) n1]] by simp
    then show ?case using p1(1) p2(1,3) upwards_hit_Cons [OF p1(3), of "set hs"] by simp
  qed
  then show "tp_inv p \<Longrightarrow> length hs * length (content p) \<le> tp_room p \<Longrightarrow> ?thesis"
    unfolding remove_transactions_and_descendants_def by blast
qed

text \<open>The lengths of the four sub-pools add up to the length of the container.\<close>

lemma total_size_law:
  assumes inv: "tp_inv p"
  shows "total_is_sum (tp_size p)"
proof -
  let ?in = "\<lambda>sp. length (filter (\<lambda>e. map_option fst (placed (tp_all p) (fst e)) = Some sp) (content p))"
  have placed: "placed (tp_all p) (fst e) \<noteq> None" if "e \<in> set (content p)" for e
    using that in_set_map_of [OF content_sorted [OF tp_invD(2) [OF inv]], of "fst e" "snd e"] by (auto simp: map_of_content)
  have "length es = length (filter (\<lambda>e. map_option fst (f e) = Some BaseFee) es) +
      length (filter (\<lambda>e. map_option fst (f e) = Some Pending) es) + length (filter (\<lambda>e. map_option fst (f e) = Some Queued) es) +
      length (filter (\<lambda>e. map_option fst (f e) = Some Blob) es)"
    if "\<forall>e \<in> set es. f e \<noteq> None" for es and f :: "_ \<Rightarrow> (SubPool \<times> valid_pool_tx) option"
    using that
  proof (induction es)
    case (Cons e es)
    then obtain sp t where "f e = Some (sp, t)" by auto
    then show ?case using Cons by (cases sp) auto
  qed simp
  from this [of "content p" "\<lambda>e. placed (tp_all p) (fst e)"] placed
  have "length (content p) = ?in BaseFee + ?in Pending + ?in Queued + ?in Blob" by blast
  moreover have "length (pool_entries sp p) = ?in sp" for sp by (simp only: pool_entries_part [OF inv])
  ultimately have "length (content p) = length (pool_entries BaseFee p) + length (pool_entries Pending p) +
      length (pool_entries Queued p) + length (pool_entries Blob p)" by (simp only:)
  then show ?thesis
    using subpools_invD [OF tp_invD(1) [OF inv]]
    by (simp add: total_is_sum_def tp_size_def at_len_def pool_entries_def parked.plen_law pending.plen_law
        blob.plen_law content_def length_txs)
qed

end
