(* ===== verification/Pool_Run.thy ===== *)
theory Pool_Run
  imports Pool_Limits
begin

text \<open>
  The pool as a state machine: the public operations of \<open>TxPool\<close> as the steps, the pools reached from an
  empty one, and what holds in all of them.

  Each step is charged the number of submission identifiers it may take from the 64-bit counters of the
  sub-pools. As long as the total stays below \<open>2 ^ 64\<close>, every step succeeds (none of the \<open>expect\<close>s and
  \<open>assert\<close>s fires) and the container and the sub-pools agree.
\<close>

section \<open>Steps\<close>

datatype pool_op =
    OpAdd valid_pool_tx U256 u64 "B256 option"
  | OpCanonical block_info "B256 list" "(SenderId, sender_context) bmap"
  | OpSetBlockInfo block_info
  | OpUpdateAccounts "(SenderId, sender_context) bmap"
  | OpRemove "B256 list"
  | OpRemoveAndDescendants "B256 list"
  | OpRemoveBySender SenderId
  | OpPrune "B256 list"
  | OpDiscardWorst

fun apply_op :: "B256 \<Rightarrow> pool_op \<Rightarrow> tx_pool \<Rightarrow> tx_pool option" where
  "apply_op keccak_empty (OpAdd t balance on_chain_nonce code_hash) p =
     map_option fst (add_transaction keccak_empty t balance on_chain_nonce code_hash p)"
| "apply_op keccak_empty (OpCanonical info mined changed) p =
     map_option fst (on_canonical_state_change info mined changed p)"
| "apply_op keccak_empty (OpSetBlockInfo info) p = map_option fst (tp_set_block_info info p)"
| "apply_op keccak_empty (OpUpdateAccounts changed) p = map_option fst (update_accounts changed p)"
| "apply_op keccak_empty (OpRemove hs) p = map_option fst (remove_transactions hs p)"
| "apply_op keccak_empty (OpRemoveAndDescendants hs) p = map_option fst (remove_transactions_and_descendants hs p)"
| "apply_op keccak_empty (OpRemoveBySender s) p = map_option fst (remove_transactions_by_sender s p)"
| "apply_op keccak_empty (OpPrune hs) p = map_option fst (prune_transactions hs p)"
| "apply_op keccak_empty OpDiscardWorst p = map_option fst (discard_worst p)"

text \<open>
  What a caller ensures: the identifier of a validated transaction carries its nonce, and the nonce is not
  below the one the sender has on chain.
\<close>

fun op_ok :: "pool_op \<Rightarrow> bool" where
  "op_ok (OpAdd t balance on_chain_nonce code_hash) \<longleftrightarrow> nonce_matches t \<and> on_chain_nonce \<le> tx_nonce t"
| "op_ok _ \<longleftrightarrow> True"

fun op_cost :: "pool_op \<Rightarrow> nat \<Rightarrow> nat" where
  "op_cost (OpAdd t balance on_chain_nonce code_hash) n = n + 2"
| "op_cost (OpCanonical info mined changed) n = 3 * n"
| "op_cost (OpSetBlockInfo info) n = 2 * n"
| "op_cost (OpUpdateAccounts changed) n = n"
| "op_cost (OpRemove hs) n = length hs * n"
| "op_cost (OpRemoveAndDescendants hs) n = length hs * n"
| "op_cost _ n = 0"

section \<open>The abstract pool\<close>

text \<open>
  Abstractly the pool is a map from identifiers to transactions. \<open>spec_step op m m'\<close> says what an operation
  may do to it; which transactions the limits evict is left open, except that of each sender the lowest
  nonces survive.
\<close>

fun spec_step :: "pool_op \<Rightarrow> entries \<Rightarrow> entries \<Rightarrow> bool" where
  "spec_step (OpAdd t balance on_chain_nonce code_hash) m m' \<longleftrightarrow> m' = m \<or> m' = bins (transaction_id t) t m"
| "spec_step (OpCanonical info mined changed) m m' \<longleftrightarrow>
     m' = filter (\<lambda>e. tx_hash (snd e) \<notin> set mined \<and> \<not> stale changed (fst e)) m"
| "spec_step (OpSetBlockInfo info) m m' \<longleftrightarrow> m' = m"
| "spec_step (OpUpdateAccounts changed) m m' \<longleftrightarrow> m' = filter (\<lambda>e. \<not> stale changed (fst e)) m"
| "spec_step (OpRemove hs) m m' \<longleftrightarrow> m' = filter (\<lambda>e. tx_hash (snd e) \<notin> set hs) m"
| "spec_step (OpRemoveAndDescendants hs) m m' \<longleftrightarrow> m' = filter (\<lambda>e. fst e \<notin> upwards (hit (set hs) m)) m"
| "spec_step (OpRemoveBySender s) m m' \<longleftrightarrow> m' = filter (\<lambda>e. sender (fst e) \<noteq> s) m"
| "spec_step (OpPrune hs) m m' \<longleftrightarrow> m' = filter (\<lambda>e. tx_hash (snd e) \<notin> set hs) m"
| "spec_step OpDiscardWorst m m' \<longleftrightarrow> keeps_prefix m m' \<and> (\<exists>P. m' = filter P m)"

fun op_adds :: "pool_op \<Rightarrow> nat" where
  "op_adds (OpAdd t balance on_chain_nonce code_hash) = 1"
| "op_adds _ = 0"

lemma tp_len_content: "tp_len p = length (content p)" "tp_len p = length (txs (tp_all p))"
  by (simp_all add: tp_len_def at_len_def content_def length_txs)

text \<open>Each step succeeds within the budget, keeps the invariant, and refines the abstract step.\<close>

definition steps_well :: "B256 \<Rightarrow> pool_op \<Rightarrow> tx_pool \<Rightarrow> tx_pool \<Rightarrow> bool" where
  "steps_well keccak_empty op p p' \<longleftrightarrow>
     apply_op keccak_empty op p = Some p' \<and> after (op_cost op (tp_len p)) p p' \<and> spec_step op (content p) (content p')"

lemma add_steps:
  assumes "tp_inv p" and "op_ok (OpAdd t balance n code_hash)" and "tp_len p + 2 \<le> tp_room p"
  obtains p' where "steps_well keccak_empty (OpAdd t balance n code_hash) p p'"
proof -
  obtain p' res where p': "add_transaction keccak_empty t balance n code_hash p = Some (p', res)"
      "after (Suc (Suc (length (txs (tp_all p))))) p p'" "added t p res p'"
    using add_transaction_law [OF assms(1), of t n keccak_empty balance code_hash] assms(2,3)
    by (auto simp: tp_len_content(2))
  have "content p' = content p \<or> content p' = bins (transaction_id t) t (content p)"
    using p'(3) by (cases res) (simp_all add: added_def content_def at_entries_def)
  then show thesis using that p' by (simp add: steps_well_def tp_len_content(2))
qed

lemma update_accounts_entries:
  assumes inv: "tp_inv p" and room: "length (txs (tp_all p)) \<le> tp_room p"
  obtains p' oc where "update_accounts changed p = Some (p', oc)" and "after (length (txs (tp_all p))) p p'"
    and "content p' = filter (\<lambda>e. \<not> stale changed (fst e)) (content p)"
proof -
  obtain a us where upd: "at_update changed (tp_all p) = (a, us)" by fastforce
  obtain p' where p': "update_accounts changed p = Some (p', outcome_of us a)" "after (length (txs (tp_all p))) p p'"
      "txs (tp_all p') = filter (\<lambda>e. \<not> stale changed (fst e)) (txs a)"
    by (rule update_accounts_law [OF inv room upd])
  have "at_entries a = at_entries (tp_all p)" by (rule at_update_law [OF tp_invD(2) [OF inv] upd])
  then have "content p' = filter (\<lambda>e. \<not> stale changed (fst e)) (content p)"
    using p'(3) bvals_map_filter [of it_transaction "\<lambda>i. \<not> stale changed i" "txs a"] by (simp add: content_def at_entries_def)
  then show thesis using that p'(1,2) by blast
qed

lemmas pool_length = tp_len_def at_len_def length_txs content_def

lemma canonical_steps:
  assumes inv: "tp_inv p" and room: "op_cost (OpCanonical info mined changed) (tp_len p) \<le> tp_room p"
  shows "\<exists>p'. steps_well keccak_empty (OpCanonical info mined changed) p p'"
proof -
  have "3 * length (txs (tp_all p)) \<le> tp_room p" using room by (simp add: pool_length)
  then obtain p' oc where "on_canonical_state_change info mined changed p = Some (p', oc)"
      "after (3 * length (txs (tp_all p))) p p'"
      "at_entries (tp_all p') = filter (\<lambda>e. tx_hash (snd e) \<notin> set mined \<and> \<not> stale changed (fst e)) (at_entries (tp_all p))"
    by (rule on_canonical_state_change_law [OF inv])
  then show ?thesis by (auto simp: steps_well_def pool_length)
qed

lemma block_info_steps:
  assumes inv: "tp_inv p" and room: "op_cost (OpSetBlockInfo info) (tp_len p) \<le> tp_room p"
  shows "\<exists>p'. steps_well keccak_empty (OpSetBlockInfo info) p p'"
proof -
  have "2 * length (txs (tp_all p)) \<le> tp_room p" using room by (simp add: pool_length)
  then obtain p' oc where "tp_set_block_info info p = Some (p', oc)"
      "after (2 * length (txs (tp_all p))) p p'" "at_entries (tp_all p') = at_entries (tp_all p)"
    by (rule set_block_info_law [OF inv])
  then show ?thesis by (auto simp: steps_well_def pool_length)
qed

lemma accounts_steps:
  assumes inv: "tp_inv p" and room: "op_cost (OpUpdateAccounts changed) (tp_len p) \<le> tp_room p"
  shows "\<exists>p'. steps_well keccak_empty (OpUpdateAccounts changed) p p'"
proof -
  have "length (txs (tp_all p)) \<le> tp_room p" using room by (simp add: pool_length)
  then obtain p' oc where "update_accounts changed p = Some (p', oc)" "after (length (txs (tp_all p))) p p'"
      "content p' = filter (\<lambda>e. \<not> stale changed (fst e)) (content p)"
    by (rule update_accounts_entries [OF inv])
  then show ?thesis by (auto simp: steps_well_def pool_length)
qed

lemma remove_steps:
  assumes inv: "tp_inv p" and room: "op_cost (OpRemove hs) (tp_len p) \<le> tp_room p"
  shows "\<exists>p'. steps_well keccak_empty (OpRemove hs) p p'"
proof -
  have "length hs * length (content p) \<le> tp_room p" using room by (simp add: pool_length)
  from remove_transactions_law [OF inv this] obtain p' ts where "remove_transactions hs p = Some (p', ts)"
      "after (length hs * length (content p)) p p'" "content p' = filter (\<lambda>e. tx_hash (snd e) \<notin> set hs) (content p)"
    by blast
  then show ?thesis by (auto simp: steps_well_def pool_length)
qed

lemma descendants_steps:
  assumes inv: "tp_inv p" and room: "op_cost (OpRemoveAndDescendants hs) (tp_len p) \<le> tp_room p"
  shows "\<exists>p'. steps_well keccak_empty (OpRemoveAndDescendants hs) p p'"
proof -
  have "length hs * length (content p) \<le> tp_room p" using room by (simp add: pool_length)
  from remove_transactions_and_descendants_law [OF inv this] obtain p' ts
    where "remove_transactions_and_descendants hs p = Some (p', ts)" "after (length hs * length (content p)) p p'"
      "content p' = filter (\<lambda>e. fst e \<notin> upwards (hit (set hs) (content p))) (content p)"
    by blast
  then show ?thesis by (auto simp: steps_well_def pool_length)
qed

lemma sender_steps:
  assumes inv: "tp_inv p"
  shows "\<exists>p'. steps_well keccak_empty (OpRemoveBySender s) p p'"
proof -
  obtain p' where "remove_transactions_by_sender s p = Some (p', get_transactions_by_sender s p)"
      "after 0 p p'" "content p' = filter (\<lambda>e. sender (fst e) \<noteq> s) (content p)"
    by (rule remove_by_sender_law [OF inv])
  then show ?thesis by (auto simp: steps_well_def pool_length)
qed

lemma prune_steps:
  assumes inv: "tp_inv p"
  shows "\<exists>p'. steps_well keccak_empty (OpPrune hs) p p'"
proof -
  obtain p' ts where "prune_transactions hs p = Some (p', ts)" "after 0 p p'"
      "at_entries (tp_all p') = filter (\<lambda>e. tx_hash (snd e) \<notin> set hs) (at_entries (tp_all p))"
    using prune_all_law [OF inv, of hs] unfolding prune_transactions_def by blast
  then show ?thesis by (auto simp: steps_well_def pool_length)
qed

lemma discard_steps:
  assumes inv: "tp_inv p"
  shows "\<exists>p'. steps_well keccak_empty (OpDiscardWorst) p p'"
proof -
  obtain p' us where p': "discard_worst p = Some (p', us)" "dropped p us p'" by (rule discard_worst_law [OF inv])
  obtain P where "content p' = filter P (content p)" using droppedD(5) [OF p'(2)] by blast
  then show ?thesis using p'(1) droppedD(1,2) [OF p'(2)] by (auto simp: steps_well_def pool_length)
qed

lemma apply_op_law:
  assumes "tp_inv p" and "op_ok op" and "op_cost op (tp_len p) \<le> tp_room p"
  shows "\<exists>p'. steps_well keccak_empty op p p'"
proof (cases op)
  case (OpAdd t balance n code_hash)
  with assms(2,3) have "op_ok (OpAdd t balance n code_hash)" "tp_len p + 2 \<le> tp_room p" by simp_all
  from add_steps [OF assms(1) this] OpAdd show ?thesis by metis
qed (use assms canonical_steps block_info_steps accounts_steps remove_steps descendants_steps sender_steps
    prune_steps discard_steps in simp_all)

lemma spec_step_length: "spec_step op m m' \<Longrightarrow> bsorted m \<Longrightarrow> length m' \<le> length m + op_adds op"
  by (cases op) (auto simp: length_bins)

section \<open>Reachable pools\<close>

text \<open>\<open>reaches ord cfg n p\<close>: \<open>p\<close> arises from the empty pool by steps that cost \<open>n\<close> in all.\<close>

inductive reaches :: "B256 \<Rightarrow> pool_config \<Rightarrow> nat \<Rightarrow> tx_pool \<Rightarrow> bool" for keccak_empty cfg where
  reaches_new: "reaches keccak_empty cfg 0 (new_tx_pool ord cfg)"
| reaches_step: "reaches keccak_empty cfg n p \<Longrightarrow> op_ok op \<Longrightarrow> apply_op keccak_empty op p = Some p' \<Longrightarrow>
     reaches keccak_empty cfg (n + op_cost op (tp_len p)) p'"

lemma reaches_inv:
  "reaches keccak_empty cfg n p \<Longrightarrow> n < 2 ^ 64 \<Longrightarrow>
   tp_inv p \<and> 2 ^ 64 \<le> tp_room p + n + 1 \<and> tp_config p = cfg"
proof (induction rule: reaches.induct)
  case (reaches_new ord)
  then show ?case by (simp add: tp_inv_new) (simp add: new_tx_pool_def)
next
  case (reaches_step n p op p')
  let ?c = "op_cost op (tp_len p)"
  have inv: "tp_inv p" "2 ^ 64 \<le> tp_room p + n + 1" "tp_config p = cfg"
    using reaches_step.IH reaches_step.prems by simp_all
  then have "?c \<le> tp_room p" using reaches_step.prems by simp
  then obtain q where "steps_well keccak_empty op p q" using apply_op_law [OF inv(1) reaches_step.hyps(2)] by blast
  then show ?case using reaches_step.hyps(3) inv by (simp add: steps_well_def after_def)
qed

text \<open>A whole sequence of steps.\<close>

fun run_ops :: "B256 \<Rightarrow> pool_op list \<Rightarrow> tx_pool \<Rightarrow> tx_pool option" where
  "run_ops keccak_empty [] p = Some p"
| "run_ops keccak_empty (op # ops) p =
     (case apply_op keccak_empty op p of None \<Rightarrow> None | Some p' \<Rightarrow> run_ops keccak_empty ops p')"

text \<open>The cost of a sequence, for pools that hold at most \<open>k\<close> transactions at the start.\<close>

fun ops_cost :: "pool_op list \<Rightarrow> nat \<Rightarrow> nat" where
  "ops_cost [] k = 0"
| "ops_cost (op # ops) k = op_cost op k + ops_cost ops (k + op_adds op)"

lemma op_cost_mono: "n \<le> k \<Longrightarrow> op_cost op n \<le> op_cost op k"
  by (cases op) auto

lemma ops_cost_mono: "n \<le> k \<Longrightarrow> ops_cost ops n \<le> ops_cost ops k"
proof (induction ops arbitrary: n k)
  case (Cons op ops)
  have "n + op_adds op \<le> k + op_adds op" using Cons.prems by simp
  then show ?case using op_cost_mono [OF Cons.prems, of op] Cons.IH by (simp add: add_mono)
qed simp

lemma run_ops_law:
  "tp_inv p \<Longrightarrow> tp_len p \<le> k \<Longrightarrow> list_all op_ok ops \<Longrightarrow> ops_cost ops k \<le> tp_room p \<Longrightarrow>
   \<exists>p'. run_ops keccak_empty ops p = Some p' \<and> after (ops_cost ops k) p p'"
proof (induction ops arbitrary: p k)
  case Nil
  then show ?case by (simp add: after_refl)
next
  case (Cons op ops)
  have c: "op_cost op (tp_len p) \<le> op_cost op k" by (rule op_cost_mono [OF Cons.prems(2)])
  then have "op_cost op (tp_len p) \<le> tp_room p" using Cons.prems(4) by simp
  then obtain p1 where "steps_well keccak_empty op p p1" using apply_op_law [OF Cons.prems(1)] Cons.prems(3) by fastforce
  then have p1: "apply_op keccak_empty op p = Some p1" "after (op_cost op k) p p1" "tp_len p1 \<le> k + op_adds op"
    using after_mono [OF _ c] Cons.prems(2) spec_step_length [OF _ content_sorted [OF tp_invD(2) [OF Cons.prems(1)]]]
    by (force simp: steps_well_def tp_len_content(1))+
  have "tp_inv p1" "ops_cost ops (k + op_adds op) \<le> tp_room p1"
    using p1(2) Cons.prems(4) by (auto simp: after_def)
  then obtain p2 where "run_ops keccak_empty ops p1 = Some p2" "after (ops_cost ops (k + op_adds op)) p1 p2"
    using Cons.IH [OF _ p1(3)] Cons.prems(3) by auto
  then show ?case using p1(1) after_trans [OF p1(2)] by auto
qed

lemma run_ops_new:
  assumes "list_all op_ok ops" and "ops_cost ops 0 < 2 ^ 64"
  obtains p where "run_ops keccak_empty ops (new_tx_pool ord cfg) = Some p" and "tp_inv p" and "tp_config p = cfg"
    and "2 ^ 64 \<le> tp_room p + ops_cost ops 0 + 1"
proof -
  have "tp_len (new_tx_pool ord cfg) \<le> 0"
    by (simp add: tp_len_def at_len_def new_tx_pool_def new_all_transactions_def default_all_transactions_def)
  moreover have "ops_cost ops 0 \<le> tp_room (new_tx_pool ord cfg)" using assms(2) by (simp add: tp_inv_new(2))
  ultimately obtain p where p: "run_ops keccak_empty ops (new_tx_pool ord cfg) = Some p"
      "after (ops_cost ops 0) (new_tx_pool ord cfg) p"
    using run_ops_law [OF tp_inv_new(1) _ assms(1)] by blast
  then have "tp_inv p" "2 ^ 64 - 1 \<le> tp_room p + ops_cost ops 0" "tp_config p = tp_config (new_tx_pool ord cfg)"
    by (simp_all add: after_def tp_inv_new(2))
  then show thesis using that p(1) by (simp add: new_tx_pool_def)
qed

text \<open>The pools at the end of a sequence are reachable, at no more than its cost.\<close>

lemma run_ops_reaches:
  "reaches keccak_empty cfg n p \<Longrightarrow> tp_len p \<le> k \<Longrightarrow> list_all op_ok ops \<Longrightarrow> n + ops_cost ops k < 2 ^ 64 \<Longrightarrow>
   run_ops keccak_empty ops p = Some p' \<Longrightarrow> \<exists>m \<le> n + ops_cost ops k. reaches keccak_empty cfg m p'"
proof (induction ops arbitrary: n p k)
  case Nil
  then show ?case by auto
next
  case (Cons op ops)
  let ?c = "op_cost op (tp_len p)"
  have c: "?c \<le> op_cost op k" by (rule op_cost_mono [OF Cons.prems(2)])
  obtain p1 where p1: "apply_op keccak_empty op p = Some p1" "run_ops keccak_empty ops p1 = Some p'"
    using Cons.prems(5) by (auto split: option.splits)
  have ok: "op_ok op" "list_all op_ok ops" using Cons.prems(3) by simp_all
  have r1: "reaches keccak_empty cfg (n + ?c) p1" by (rule reaches_step [OF Cons.prems(1) ok(1) p1(1)])
  have inv: "tp_inv p" "?c \<le> tp_room p" using reaches_inv [OF Cons.prems(1)] Cons.prems(4) c by auto
  obtain q where "steps_well keccak_empty op p q" using apply_op_law [OF inv(1) ok(1) inv(2)] by blast
  then have len: "tp_len p1 \<le> k + op_adds op"
    using p1(1) spec_step_length [OF _ content_sorted [OF tp_invD(2) [OF inv(1)]]] Cons.prems(2)
    by (force simp: steps_well_def tp_len_content(1))
  have lt: "n + ?c + ops_cost ops (k + op_adds op) < 2 ^ 64" using Cons.prems(4) c by simp
  obtain m where "m \<le> n + ?c + ops_cost ops (k + op_adds op)" "reaches keccak_empty cfg m p'"
    using Cons.IH [OF r1 len ok(2) lt p1(2)] by blast
  then show ?case using c by (intro exI [of _ m]) simp
qed

end
