(* ===== verification/Sender_Chain.thy ===== *)
theory Sender_Chain
  imports Pool_Run
begin

text \<open>
  The bookkeeping of a sender's gapless run of transactions. After an insertion, the transactions of the
  sender from the on-chain nonce up to the first gap carry the cumulative cost of those before them, the
  balance flag that follows from it, and the flag for parked ancestors.
\<close>

definition chain_id :: "SenderId \<Rightarrow> u64 \<Rightarrow> nat \<Rightarrow> TransactionId" where
  "chain_id s n k = TransactionId s (n + of_nat k)"

text \<open>
  \<open>in_line balance cost parked x k\<close>: of the transactions \<open>x 0, x 1, \<dots>\<close> the one at \<open>k\<close> carries what follows
  from those before it, where \<open>cost\<close> and \<open>parked\<close> are what came before \<open>x 0\<close>.
\<close>

definition in_line :: "U256 \<Rightarrow> U256 \<Rightarrow> bool \<Rightarrow> (nat \<Rightarrow> internal_tx) \<Rightarrow> nat \<Rightarrow> bool" where
  "in_line balance cost parked x k \<longleftrightarrow>
     it_cumulative_cost (x k) = cost + (\<Sum>j<k. tx_cost (it_transaction (x j))) \<and>
     \<not> has_nonce_gap (it_state (x k)) \<and>
     (st_contains (it_state (x k)) ENOUGH_BALANCE \<longleftrightarrow> cost + (\<Sum>j\<le>k. tx_cost (it_transaction (x j))) \<le> balance) \<and>
     (st_contains (it_state (x k)) NO_PARKED_ANCESTORS \<longleftrightarrow>
        (if k = 0 then \<not> parked else st_is_pending (it_state (x (k - 1))))) \<and>
     it_subpool (x k) = sub_pool_of (it_state (x k))"

lemma visit_in_line:
  "x 0 = insert_visit balance cost parked y \<Longrightarrow> in_line balance cost parked x 0"
  by (simp add: in_line_def insert_visit_def Let_def next_cumulative_cost_def tx_flags)

lemma in_line_shift:
  assumes "x 0 = insert_visit balance cost parked y"
    and "in_line balance (next_cumulative_cost (x 0)) (\<not> st_is_pending (it_state (x 0))) (\<lambda>j. x (Suc j)) k"
  shows "in_line balance cost parked x (Suc k)"
proof -
  have "next_cumulative_cost (x 0) = cost + tx_cost (it_transaction (x 0))"
    by (simp add: assms(1) insert_visit_def Let_def next_cumulative_cost_def)
  then show ?thesis
    using assms(2) unfolding in_line_def sum.lessThan_Suc_shift sum.atMost_Suc_shift
    by (cases k) (simp_all add: add.assoc)
qed

lemma chain_id_Suc: "chain_id s n (Suc k) = chain_id s (n + 1) k"
  by (simp add: chain_id_def algebra_simps)


lemma chain_id_0: "nonce (chain_id s n 0) = n"
  by (simp add: chain_id_def)

lemma insert_scan_chain:
  "insert_scan balance new nxt cost parked st m = (m', us, st') \<Longrightarrow> bsorted m \<Longrightarrow>
   \<forall>e \<in> set m. sender (fst e) = s \<and> nxt \<le> nonce (fst e) \<Longrightarrow> unat nxt + k < 2 ^ 64 \<Longrightarrow>
   \<forall>j\<le>k. map_of m' (chain_id s nxt j) = Some (x j) \<Longrightarrow> in_line balance cost parked x k"
proof (induction m arbitrary: nxt cost parked st m' us k x)
  case Nil
  then show ?case by auto
next
  case (Cons e m)
  obtain i y where e: "e = (i, y)" by fastforce
  have later: "sender (fst f) = s \<and> nonce i < nonce (fst f)" if "f \<in> set m" for f
    using Cons.prems(2,3) that e by (auto simp: tid_order)
  show ?case
  proof (cases "nxt = nonce i")
    case False
    then have "m' = e # m" using Cons.prems(1) e by simp
    moreover have "nonce (fst f) \<noteq> nxt" if "f \<in> set (e # m)" for f
      using that Cons.prems(3) False e later [of f] by (auto simp: not_less)
    then have "chain_id s nxt 0 \<notin> fst ` set (e # m)" using chain_id_0 by (metis imageE)
    ultimately have "map_of m' (chain_id s nxt 0) = None" by (simp add: map_of_eq_None_iff)
    then show ?thesis using Cons.prems(5) by force
  next
    case True
    define x1 where "x1 = insert_visit balance cost parked y"
    obtain m2 us2 where rest: "insert_scan balance new (next_nonce i) (next_cumulative_cost x1)
        (\<not> st_is_pending (it_state x1)) (if new = i then it_state x1 else st) m = (m2, us2, st')"
      and m': "m' = (i, x1) # m2"
      using insert_scan_visit [OF _ True x1_def] Cons.prems(1) e by blast
    have i: "i = chain_id s nxt 0" using True Cons.prems(3) e by (simp add: chain_id_def TransactionId.expand)
    then have x0: "x 0 = x1" using Cons.prems(5) m' by force
    show ?thesis
    proof (cases k)
      case 0
      then show ?thesis using visit_in_line x0 x1_def by simp
    next
      case (Suc k')
      have nw: "unat (nxt + 1) = unat nxt + 1"
        using Cons.prems(4) Suc by (simp add: unat_word_ariths)
      have "\<forall>f \<in> set m. sender (fst f) = s \<and> nxt + 1 \<le> nonce (fst f)"
        using later True nw by (simp add: word_le_nat_alt word_less_nat_alt Suc_le_eq)
      moreover have "map_of m2 (chain_id s (nxt + 1) j) = Some (x (Suc j))" if "j \<le> k'" for j
      proof -
        have "unat (nxt + of_nat (Suc j)) = unat nxt + Suc j"
          using Cons.prems(4) Suc that by (simp add: unat_word_ariths unat_of_nat)
        then have "chain_id s nxt (Suc j) \<noteq> i" unfolding i chain_id_def by auto
        then show ?thesis using Cons.prems(5) Suc that m' unfolding chain_id_Suc [symmetric] by fastforce
      qed
      ultimately have "in_line balance (next_cumulative_cost x1) (\<not> st_is_pending (it_state x1)) (\<lambda>j. x (Suc j)) k'"
        using Cons.IH [OF rest] Cons.prems(2,4) Suc nw True by (simp add: next_nonce_def e)
      then show ?thesis using in_line_shift [of x balance cost parked y k'] x0 x1_def Suc by simp
    qed
  qed
qed


lemma filter_dropWhile: "takeWhile P xs = filter P xs \<Longrightarrow> filter P (dropWhile P xs) = []"
  by (induction xs) (auto split: if_splits)

lemma bsorted_takeWhile: "bsorted m \<Longrightarrow> bsorted (takeWhile P m)"
  using bsorted_append_iff [of "takeWhile P m" "dropWhile P m"] by simp

lemma map_of_descendant_txs_mut:
  assumes sm: "bsorted m" and k: "sender k = sender i" "nonce i \<le> nonce k"
  shows "map_of (descendant_txs_mut i f m) k = map_of (f (takeWhile (\<lambda>e. sender (fst e) = sender i) (bfrom i m))) k"
proof -
  let ?P = "\<lambda>e. sender (fst e) = sender i"
  have "\<forall>e \<in> set (bfrom i m). sender i \<le> sender (fst e)" by (auto simp: bfrom_def tid_order)
  from takeWhile_sender [OF bsorted_bfrom [OF sm] this]
  have "filter ?P (dropWhile ?P (bfrom i m)) = []" by (rule filter_dropWhile)
  then have none: "\<forall>e \<in> set (dropWhile ?P (bfrom i m)). \<not> ?P e" by (simp only: filter_empty_conv)
  have "k \<notin> fst ` set (dropWhile ?P (bfrom i m))"
  proof
    assume "k \<in> fst ` set (dropWhile ?P (bfrom i m))"
    then obtain e where e: "k = fst e" "e \<in> set (dropWhile ?P (bfrom i m))" by (rule imageE)
    show False using bspec [OF none e(2)] k(1) unfolding e(1) by contradiction
  qed
  moreover have "k \<notin> fst ` set (bbefore i m)" using k by (auto simp: bbefore_def tid_order)
  ultimately have "map_of (dropWhile ?P (bfrom i m)) k = None" "map_of (bbefore i m) k = None"
    by (simp_all only: map_of_eq_None_iff not_False_eq_True)
  then show ?thesis
    unfolding descendant_txs_mut_def map_of_append map_add_def by (auto split: option.split)
qed

text \<open>An insertion places the transaction and then walks over the run of its sender.\<close>

lemma insert_tx_traversed:
  assumes wf: "all_wf a" and run: "insert_tx t balance on_chain_nonce a = Some (Inr (a', r))"
    and nm: "nonce_matches t" and fresh: "\<not> at_contains a (tx_hash t)"
  obtains st x0 where
    "txs a' = descendant_txs_mut (TransactionId (tx_sender_id t) on_chain_nonce)
       (\<lambda>m. fst (insert_scan balance (transaction_id t) on_chain_nonce 0 False st m)) (bins (transaction_id t) x0 (txs a))"
proof -
  define st where "st = initial_state t (ancestor (tx_nonce t) on_chain_nonce (tx_sender_id t)) (tracked_fees a)"
  define x0 where "x0 = \<lparr>it_transaction = t, it_subpool = sub_pool_of st, it_state = st, it_cumulative_cost = 0\<rparr>"
  from run obtain a1 replaced a3 us st' where
    ev: "ensure_valid t on_chain_nonce a = Inr ()" and pl: "place_tx x0 a = Inr (a1, replaced)"
    and tr: "traverse_sender balance on_chain_nonce (transaction_id t) st (case authority_ids t of None \<Rightarrow> a1
        | Some ids \<Rightarrow> a1\<lparr>auths := insert_hashes (tx_hash t) ids (auths a1)\<rparr>) = (a3, us, st')"
    and a': "a' = (if replaced = None then tx_inc (tx_sender_id t) a3 else a3)"
    unfolding x0_def st_def by (rule insert_tx_Inr)
  have "state_ok x0" using initial_state_fixed by (simp add: state_ok_iff x0_def st_def)
  moreover have "\<not> contains_conflicting_transaction t a" using ev by (auto simp: ensure_valid_def split: if_splits)
  ultimately have "txs (case authority_ids t of None \<Rightarrow> a1
        | Some ids \<Rightarrow> a1\<lparr>auths := insert_hashes (tx_hash t) ids (auths a1)\<rparr>) = bins (transaction_id t) x0 (txs a)"
    using place_tx_law(2) [OF wf pl _ fresh nm] by (simp add: x0_def)
  then show thesis
    using tr by (intro that [of st x0]) (auto simp: a' traverse_sender_def Let_def tx_sender_id_def tx_inc_def)
qed

text \<open>After an insertion, the run of the sender from the on-chain nonce on is in line.\<close>

lemma insert_tx_chain:
  assumes wf: "all_wf a" and run: "insert_tx t balance on_chain_nonce a = Some (Inr (a', r))"
    and nm: "nonce_matches t" and fresh: "\<not> at_contains a (tx_hash t)"
    and small: "unat on_chain_nonce + k < 2 ^ 64"
    and there: "\<forall>j\<le>k. map_of (txs a') (chain_id (tx_sender_id t) on_chain_nonce j) = Some (x j)"
  shows "in_line balance 0 False x k"
proof -
  obtain st x0 where t': "txs a' = descendant_txs_mut (TransactionId (tx_sender_id t) on_chain_nonce)
      (\<lambda>m. fst (insert_scan balance (transaction_id t) on_chain_nonce 0 False st m)) (bins (transaction_id t) x0 (txs a))"
    by (rule insert_tx_traversed [OF wf run nm fresh])
  let ?m = "bins (transaction_id t) x0 (txs a)" and ?s = "tx_sender_id t" and ?j = "TransactionId (tx_sender_id t) on_chain_nonce"
  let ?scan = "insert_scan balance (transaction_id t) on_chain_nonce 0 False st"
  let ?r = "takeWhile (\<lambda>e. sender (fst e) = ?s) (bfrom ?j ?m)"
  have sm: "bsorted ?m" by (rule bsorted_bins [OF all_wfD(8) [OF wf]])
  obtain r' us' st'' where scan: "?scan ?r = (r', us', st'')" by (metis prod_cases3)
  have at: "map_of r' (chain_id ?s on_chain_nonce j) = Some (x j)" if "j \<le> k" for j
  proof -
    have "unat (on_chain_nonce + of_nat j) = unat on_chain_nonce + j"
      using small that by (simp add: unat_word_ariths unat_of_nat)
    then have "sender (chain_id ?s on_chain_nonce j) = ?s" "on_chain_nonce \<le> nonce (chain_id ?s on_chain_nonce j)"
      by (simp_all add: chain_id_def word_le_nat_alt)
    then show ?thesis
      using there that map_of_descendant_txs_mut [OF sm, of "chain_id ?s on_chain_nonce j" ?j "\<lambda>m. fst (?scan m)"] scan
      by (simp add: t')
  qed
  show ?thesis
  proof (rule insert_scan_chain [OF scan])
    show "bsorted ?r" by (rule bsorted_takeWhile [OF bsorted_bfrom [OF sm]])
    show "\<forall>e \<in> set ?r. sender (fst e) = ?s \<and> on_chain_nonce \<le> nonce (fst e)"
      by (auto dest!: set_takeWhileD simp: bfrom_def tid_order)
  qed (use small at in auto)
qed

end
