(* ===== verification/Pool_Queries.thy ===== *)
theory Pool_Queries
  imports Sender_Chain
begin

text \<open>
  What the queries of the pool answer in a pool that satisfies the invariant, and what a rise of the base
  fee, a block and a removal leave pending.
\<close>

lemma all_wf_at:
  assumes "tp_inv p" and "at_get (tp_all p) i = Some x"
  shows "state_ok x" and "transaction_id (it_transaction x) = i" and "it_subpool x = sub_pool_of (it_state x)"
proof -
  note wf = tp_invD(2) [OF assms(1)]
  show ok: "state_ok x" using all_wfD(7) [OF wf] assms(2) by (simp add: at_get_def)
  show "transaction_id (it_transaction x) = i" by (rule all_wf_tx(1) [OF wf]) (use assms(2) in \<open>simp add: at_get_def\<close>)
  show "it_subpool x = sub_pool_of (it_state x)" using ok by (simp add: state_ok_def)
qed

lemma subpool_contains_entries: "subpool_contains sp i p \<longleftrightarrow> map_of (pool_entries sp p) i \<noteq> None"
  by (cases sp) (simp_all add: subpool_contains_def pool_entries_def pk_contains_def pd_contains_def bl_contains_def
      pk_entries_def pd_entries_def bl_entries_def map_of_bvals_map)

text \<open>A transaction is in the sub-pool that its flags determine, and in no other.\<close>

lemma subpool_contains_iff:
  assumes "tp_inv p"
  shows "subpool_contains sp i p \<longleftrightarrow> (\<exists>x. at_get (tp_all p) i = Some x \<and> sub_pool_of (it_state x) = sp)"
  unfolding subpool_contains_entries holdsD [OF tp_invD(3) [OF assms]] at_get_def placed_def
  using all_wf_at(3) [OF assms] by (cases "map_of (txs (tp_all p)) i") (auto simp: at_get_def)

lemma tp_get_content:
  assumes "tp_inv p"
  shows "tp_get p h = Some t \<longleftrightarrow> tx_hash t = h \<and> map_of (content p) (transaction_id t) = Some t"
  using hash_index_iff [OF all_wfD(2) [OF tp_invD(2) [OF assms]]] by (simp add: tp_get_def content_def)

lemma content_at: "map_of (content p) i = map_option it_transaction (at_get (tp_all p) i)"
  by (simp add: content_def map_of_at_entries at_get_def)

section \<open>A rise of the base fee\<close>

lemma base_fee_rise:
  assumes inv: "tp_inv p" and room: "tp_len p \<le> tp_room p" and rise: "base_fee (tracked_fees (tp_all p)) < fee"
    and run: "update_basefee fee p = Some (p', us, ord)"
  shows "tp_inv p'" and "content p' = content p" and "us = []"
    and "subpool_contains Pending i p' \<Longrightarrow> subpool_contains Pending i p"
    and "subpool_contains Pending i p' \<Longrightarrow> map_of (content p') i = Some t \<Longrightarrow> ucast fee \<le> max_fee_per_gas t"
proof -
  have g: "cmp fee (base_fee (tracked_fees (tp_all p))) = Greater" using rise by (auto simp: cmp_def)
  have "length (txs (tp_all p)) \<le> tp_room p" using room by (simp add: tp_len_content(2))
  then obtain f ids where R: "refees ((tracked_fees (tp_all p))\<lparr>base_fee := fee\<rparr>) f ids p p'"
      "f = (\<lambda>st. st_remove st ENOUGH_FEE_CAP_BLOCK)" "us = []"
      "ids = transaction_id ` set (snd (pd_update_base_fee fee (tp_pending p)))"
    using run g update_basefee_law [OF inv, of fee] by (metis (no_types, lifting) option.inject prod.inject)
  show "us = []" by (rule R(3))
  show inv': "tp_inv p'" using R(1) by (simp add: refees_def after_def)
  show same: "content p' = content p" using refees_entries [OF R(1)] by (simp add: content_def)
  have at: "at_get (tp_all p') i = (if i \<in> ids then map_option (with_state f) (at_get (tp_all p) i) else at_get (tp_all p) i)" for i
    using R(1) by (simp add: refees_def map_of_restate at_get_def)
  have kept: "i \<notin> ids \<and> subpool_contains Pending i p" if pend: "subpool_contains Pending i p'" for i
  proof (cases "i \<in> ids")
    case True
    then show ?thesis
      using pend at [of i] R(2) by (auto simp: subpool_contains_iff [OF inv'] with_state_def sub_pool_of_eq_Pending tx_flags)
  next
    case False
    then show ?thesis using pend at [of i] by (simp add: subpool_contains_iff [OF inv'] subpool_contains_iff [OF inv])
  qed
  then show "subpool_contains Pending i p' \<Longrightarrow> subpool_contains Pending i p" by blast
  show "ucast fee \<le> max_fee_per_gas t" if pend: "subpool_contains Pending i p'" and t: "map_of (content p') i = Some t"
  proof (rule ccontr)
    assume low: "\<not> ucast fee \<le> max_fee_per_gas t"
    note K = kept [OF pend]
    obtain x where x: "at_get (tp_all p) i = Some x" "it_transaction x = t" "sub_pool_of (it_state x) = Pending"
      using K t same by (auto simp: subpool_contains_iff [OF inv] content_at)
    have e: "map_of (pd_entries (tp_pending p)) i = Some t"
      using holdsD [OF tp_invD(3) [OF inv], of Pending i] x all_wf_at(3) [OF inv x(1)]
      by (simp add: pool_entries_def placed_def at_get_def)
    have id: "transaction_id t = i" using all_wf_at(2) [OF inv x(1)] x(2) by simp
    let ?bad = "\<lambda>t. max_fee_per_gas t < ucast fee"
    have "snd (pd_update_base_fee fee (tp_pending p)) = map (pd_transaction \<circ> snd)
        (scan_removed (\<lambda>e. sender (fst e)) (\<lambda>e. ?bad (pd_transaction (snd e))) (pd_by_id (tp_pending p)))"
      by (simp add: pd_update_base_fee_def clear_transactions_def Let_def)
    from pd_removed_by_scan [OF subpools_invD(4) [OF tp_invD(1) [OF inv]] this, of t]
    have "t \<in> set (snd (pd_update_base_fee fee (tp_pending p)))"
      using e id low by (auto simp: tx_sender_id_def not_le)
    then show False using K R(4) id by auto
  qed
qed

section \<open>Removal of a transaction that was not mined\<close>

lemma removed_parks:
  assumes inv: "tp_inv p" and room: "tp_len p \<le> tp_room p" and get: "tp_get p h = Some t"
  obtains p' where "remove_transaction_by_hash h p = Some (p', Some t)" and "tp_inv p'"
    and "content p' = filter (\<lambda>e. tx_hash (snd e) \<noteq> h) (content p)"
    and "\<forall>j x. at_get (tp_all p') j = Some x \<longrightarrow> j \<in> higher (transaction_id t) \<longrightarrow>
           has_nonce_gap (it_state x) \<and> \<not> subpool_contains Pending j p'"
proof -
  have r: "length (txs (tp_all p)) \<le> tp_room p" "length (content p) \<le> tp_room p"
    using room by (simp_all add: pool_length)
  obtain p' where p': "remove_transaction_by_hash h p = Some (p', Some t)" "after (length (txs (tp_all p))) p p'"
      "txs (tp_all p') = descendant_txs_mut (transaction_id t) (bvals_map park_tx) (bdel (transaction_id t) (txs (tp_all p)))"
    by (rule remove_by_hash_law [OF inv r(1) get])
  have inv': "tp_inv p'" using p'(2) by (simp add: after_def)
  have sm: "bsorted (bdel (transaction_id t) (txs (tp_all p)))"
    by (rule bsorted_bdel [OF all_wfD(8) [OF tp_invD(2) [OF inv]]])
  have gap: "has_nonce_gap (it_state x)" if x: "at_get (tp_all p') j = Some x" and "j \<in> higher (transaction_id t)" for j x
  proof -
    have "sender j = sender (transaction_id t)" "nonce (transaction_id t) \<le> nonce j"
      using that(2) by (auto simp: higher_def)
    from map_of_descendant_txs_mut [OF sm this] x p'(3) show ?thesis
      by (auto simp: at_get_def map_of_bvals_map park_tx_fields)
  qed
  moreover have "\<not> subpool_contains Pending j p'" if "at_get (tp_all p') j = Some x" "has_nonce_gap (it_state x)" for j x
    using that by (simp add: subpool_contains_iff [OF inv'] sub_pool_of_eq_Pending tx_flags)
  moreover have "content p' = filter (\<lambda>e. tx_hash (snd e) \<noteq> h) (content p)"
    using remove_by_hash_content [OF inv r(2), of h] p'(1) by (metis option.inject prod.inject)
  ultimately show thesis using that p'(1) inv' by blast
qed

section \<open>The end of the gapless run\<close>

lemma last_consecutive_gap:
  "\<forall>e \<in> set m. sender (fst e) = s \<Longrightarrow> map_of m (chain_id s nxt 0) = None \<Longrightarrow> last_consecutive nxt l m = l"
  by (cases m) (auto simp: chain_id_def TransactionId.expand split: if_splits)

lemma last_consecutive_run:
  "bsorted m \<Longrightarrow> \<forall>e \<in> set m. sender (fst e) = s \<and> nxt \<le> nonce (fst e) \<Longrightarrow> unat nxt + Suc k < 2 ^ 64 \<Longrightarrow>
   \<forall>j\<le>k. map_of m (chain_id s nxt j) \<noteq> None \<Longrightarrow> map_of m (chain_id s nxt (Suc k)) = None \<Longrightarrow>
   last_consecutive nxt l m = map_option it_transaction (map_of m (chain_id s nxt k))"
proof (induction m arbitrary: nxt l k)
  case Nil
  then show ?case by auto
next
  case (Cons e m)
  obtain i y where e: "e = (i, y)" by fastforce
  have later: "sender (fst f) = s \<and> nonce i < nonce (fst f)" if "f \<in> set m" for f
    using Cons.prems(1,2) that e by (auto simp: tid_order)
  have i: "i = chain_id s nxt 0"
  proof -
    have "chain_id s nxt 0 \<in> fst ` set (e # m)" using Cons.prems(4) by (metis le0 map_of_eq_None_iff)
    then obtain f where f: "f \<in> set (e # m)" "chain_id s nxt 0 = fst f" by blast
    have "nxt \<le> nonce i" using Cons.prems(2) e by simp
    then show ?thesis using f later [of f] chain_id_0 [of s nxt] e by auto
  qed
  then have step: "last_consecutive nxt l (e # m) = last_consecutive (nxt + 1) (Some (it_transaction y)) m"
    by (simp add: e chain_id_def next_nonce_def)
  have neq: "chain_id s nxt (Suc j) \<noteq> i" if "j \<le> k" for j
  proof -
    have "unat (nxt + of_nat (Suc j)) = unat nxt + Suc j"
      using Cons.prems(3) that by (simp add: unat_word_ariths unat_of_nat)
    then show ?thesis unfolding i chain_id_def by auto
  qed
  have nw: "unat (nxt + 1) = unat nxt + 1" using Cons.prems(3) by (simp add: unat_word_ariths)
  have above: "\<forall>f \<in> set m. sender (fst f) = s \<and> nxt + 1 \<le> nonce (fst f)"
    using later i nw by (simp add: chain_id_def word_le_nat_alt word_less_nat_alt Suc_le_eq)
  have tail: "map_of (e # m) (chain_id s nxt (Suc j)) = map_of m (chain_id s (nxt + 1) j)" if "j \<le> k" for j
    using neq [OF that] by (simp add: e chain_id_Suc)
  show ?case
  proof (cases k)
    case 0
    then have "map_of m (chain_id s (nxt + 1) 0) = None" using Cons.prems(5) tail [of 0] by simp
    then show ?thesis using last_consecutive_gap [of m s "nxt + 1"] above step i e 0 by simp
  next
    case (Suc k')
    have "\<forall>j\<le>k'. map_of m (chain_id s (nxt + 1) j) \<noteq> None"
      using Cons.prems(4) tail Suc by (metis Suc_leD Suc_le_mono)
    moreover have "map_of m (chain_id s (nxt + 1) (Suc k')) = None" using Cons.prems(5) tail [of k] Suc by simp
    ultimately have "last_consecutive (nxt + 1) (Some (it_transaction y)) m =
        map_option it_transaction (map_of m (chain_id s (nxt + 1) k'))"
      using Cons.IH [OF _ above] Cons.prems(1,3) Suc nw by simp
    then show ?thesis using step tail [of k'] Suc by simp
  qed
qed

lemma highest_consecutive_run:
  assumes inv: "tp_inv p" and n: "n = (case map_of (sender_info (tp_all p)) (sender on_chain) of
       None \<Rightarrow> nonce on_chain | Some current \<Rightarrow> max (nonce on_chain) (si_state_nonce current))"
    and small: "unat n + Suc k < 2 ^ 64"
    and run: "\<forall>j\<le>k. at_get (tp_all p) (chain_id (sender on_chain) n j) \<noteq> None"
    and gap: "at_get (tp_all p) (chain_id (sender on_chain) n (Suc k)) = None"
  shows "get_highest_consecutive_transaction_by_sender on_chain p = map_of (content p) (chain_id (sender on_chain) n k)"
proof -
  let ?s = "sender on_chain" and ?m = "txs (tp_all p)"
  let ?r = "takeWhile (\<lambda>e. sender (fst e) = ?s) (bfrom (TransactionId ?s n) ?m)"
  have sm: "bsorted ?m" by (rule all_wfD(8) [OF tp_invD(2) [OF inv]])
  have r: "bsorted ?r" by (rule bsorted_takeWhile [OF bsorted_bfrom [OF sm]])
  have keys: "\<forall>e \<in> set ?r. sender (fst e) = ?s \<and> n \<le> nonce (fst e)"
    by (auto dest!: set_takeWhileD simp: bfrom_def tid_order)
  have at: "map_of ?r (chain_id ?s n j) = at_get (tp_all p) (chain_id ?s n j)" if "j \<le> Suc k" for j
  proof -
    have "unat (n + of_nat j) = unat n + j" using small that by (simp add: unat_word_ariths unat_of_nat)
    then have "sender (chain_id ?s n j) = ?s" "n \<le> nonce (chain_id ?s n j)" by (simp_all add: chain_id_def word_le_nat_alt)
    then show ?thesis
      using map_of_descendant_txs_mut [OF sm, of "chain_id ?s n j" "TransactionId ?s n" "\<lambda>m. m"] bbefore_bfrom [OF sm]
      by (simp add: descendant_txs_mut_def at_get_def)
  qed
  have "last_consecutive n None ?r = map_option it_transaction (map_of ?r (chain_id ?s n k))"
    by (rule last_consecutive_run [OF r keys small]) (use run gap at in simp_all)
  then show ?thesis
    unfolding get_highest_consecutive_transaction_by_sender_def Let_def n [symmetric] descendant_txs_inclusive_def
    by (simp add: at content_at)
qed

section \<open>The tracked block\<close>

lemma set_block_info_tracked:
  assumes inv: "tp_inv p" and room: "length (txs (tp_all p)) \<le> tp_room p"
    and run: "tp_set_block_info info p = Some (p', oc)"
  shows "tp_block_info p' = info\<lparr>bi_pending_blob_fee :=
    Some (case bi_pending_blob_fee info of None \<Rightarrow> blob_fee (tracked_fees (tp_all p)) | Some f \<Rightarrow> f)\<rparr>"
proof -
  obtain p1 ts f ids where p1: "update_basefee (bi_pending_basefee info) p = Some (p1, ts, cmp (bi_pending_basefee info) (base_fee (tracked_fees (tp_all p))))"
      "refees ((tracked_fees (tp_all p))\<lparr>base_fee := bi_pending_basefee info\<rparr>) f ids p p1"
    by (rule update_basefee_law [OF inv room])
  have "blob_fee (tracked_fees (tp_all p1)) = blob_fee (tracked_fees (tp_all p))" using refees_tracked [OF p1(2)] by simp
  then show ?thesis
    using run by (auto simp: tp_set_block_info_def p1(1) tp_block_info_def at_set_block_info_def
        split: bind_splits option.splits)
qed

lemma removed_by_id_gone:
  assumes "all_wf a"
  shows "at_get (fst (at_remove_transaction_by_id i a)) i = None"
proof (cases "map_of (txs a) i")
  case None
  then show ?thesis by (simp add: at_remove_transaction_by_id_def at_get_def)
next
  case (Some x)
  then show ?thesis by (simp add: at_remove_by_id_eq [OF assms Some] without_def at_get_def map_of_bdel)
qed

end
