(* ===== verification/Pool_Additions.thy ===== *)
theory Pool_Additions
  imports Pool_Queries
begin

text \<open>
  What a call of \<open>add_transaction\<close> that reports success went through (\<open>src/crates/transaction-pool/src/pool/txpool.rs\<close>):
  the checks that the transaction passed, what the transactions of its sender look like afterwards, and
  the errors for a transaction that must not enter the pool.
\<close>

definition with_sender :: "valid_pool_tx \<Rightarrow> U256 \<Rightarrow> u64 \<Rightarrow> all_transactions \<Rightarrow> all_transactions" where
  "with_sender t balance on_chain_nonce a =
     a\<lparr>sender_info := bins (tx_sender_id t) \<lparr>si_state_nonce = on_chain_nonce, si_balance = balance\<rparr> (sender_info a)\<rparr>"

lemma with_sender_simps [simp]:
  "txs (with_sender t balance n a) = txs a" "by_hash (with_sender t balance n a) = by_hash a"
  "at_contains (with_sender t balance n a) h = at_contains a h" "price_bumps (with_sender t balance n a) = price_bumps a"
  "block_gas_limit (with_sender t balance n a) = block_gas_limit a"
  "minimal_protocol_basefee (with_sender t balance n a) = minimal_protocol_basefee a"
  "tx_counter (with_sender t balance n a) = tx_counter a" "max_account_slots (with_sender t balance n a) = max_account_slots a"
  by (simp_all add: with_sender_def at_contains_def)

lemma with_sender_wf: "tp_inv p \<Longrightarrow> all_wf (with_sender t balance n (tp_all p))"
  unfolding with_sender_def by (rule all_wf_sender_info) (simp_all add: tp_invD all_wfD bsorted_bins)

lemma add_transaction_inserted:
  assumes "add_transaction keccak_empty t balance on_chain_nonce code_hash p = Some (p', Inr r)"
  obtains a ok oc where "\<not> tp_contains p (tx_hash t)" and "validate_auth keccak_empty t on_chain_nonce code_hash p = Inr ()"
    and "insert_tx t balance on_chain_nonce (with_sender t balance on_chain_nonce (tp_all p)) = Some (Inr (a, ok))"
    and "add_between ok (p\<lparr>tp_all := a\<rparr>) = Some (p', oc)"
  using assms unfolding add_transaction_def Let_def with_sender_def
  by (auto split: if_splits sum.splits option.splits prod.splits bind_splits)

text \<open>On an error the pool stays as it is, but for the account of the sender once the first checks have passed.\<close>

lemma add_transaction_Inl:
  assumes "add_transaction keccak_empty t balance on_chain_nonce code_hash p = Some (p', Inl e)"
  shows "p' = (if tp_contains p (tx_hash t) \<or> validate_auth keccak_empty t on_chain_nonce code_hash p \<noteq> Inr () then p
               else p\<lparr>tp_all := with_sender t balance on_chain_nonce (tp_all p)\<rparr>)"
  using assms unfolding add_transaction_def Let_def with_sender_def
  by (auto split: if_splits sum.splits option.splits prod.splits bind_splits)

lemma add_transaction_inv:
  assumes "tp_inv p" and "nonce_matches t" and "tp_len p + 2 \<le> tp_room p"
    and run: "add_transaction keccak_empty t balance on_chain_nonce code_hash p = Some (p', Inr r)"
  shows "tp_inv p'"
proof -
  obtain a where "insert_tx t balance on_chain_nonce (with_sender t balance on_chain_nonce (tp_all p)) = Some (Inr a)"
    by (rule add_transaction_inserted [OF run])
  then have nonce: "on_chain_nonce \<le> tx_nonce t" by (simp add: insert_tx_def split: if_splits)
  have "Suc (Suc (length (txs (tp_all p)))) \<le> tp_room p" using assms(3) by (simp add: tp_len_content(2))
  then obtain q res where "add_transaction keccak_empty t balance on_chain_nonce code_hash p = Some (q, res)"
      "after (Suc (Suc (length (txs (tp_all p))))) p q"
    by (rule add_transaction_law [OF assms(1,2) nonce])
  then show ?thesis using run by (simp add: after_def)
qed

lemma add_transaction_traced:
  assumes inv: "tp_inv p" and nm: "nonce_matches t" and room: "tp_len p + 2 \<le> tp_room p"
    and run: "add_transaction keccak_empty t balance on_chain_nonce code_hash p = Some (p', Inr r)"
  obtains a ok where "\<not> at_contains (tp_all p) (tx_hash t)" and "all_wf (with_sender t balance on_chain_nonce (tp_all p))"
    and "insert_tx t balance on_chain_nonce (with_sender t balance on_chain_nonce (tp_all p)) = Some (Inr (a, ok))"
    and "txs (tp_all p') = txs a" and "settings (tp_all p') = settings (tp_all p)"
proof -
  obtain a ok oc where a: "\<not> tp_contains p (tx_hash t)"
      "insert_tx t balance on_chain_nonce (with_sender t balance on_chain_nonce (tp_all p)) = Some (Inr (a, ok))"
      "add_between ok (p\<lparr>tp_all := a\<rparr>) = Some (p', oc)"
    using add_transaction_inserted [OF run] by blast
  have wf: "all_wf (with_sender t balance on_chain_nonce (tp_all p))" by (rule with_sender_wf [OF inv])
  have room': "Suc (Suc (length (txs (tp_all p)))) \<le> tp_room p" using room by (simp add: tp_len_content(2))
  obtain q y where "add_between ok (p\<lparr>tp_all := a\<rparr>) = Some (q, outcome_of (io_updates ok) a)" "txs (tp_all q) = txs a"
      "settings (tp_all q) = settings (tp_all p)"
    by (rule add_between_law [OF inv with_sender_def wf a(2) nm a(1) room'])
  then show thesis using that [OF _ wf a(2)] a by (simp add: tp_contains_def)
qed

text \<open>The nonces of the sender from the on-chain nonce on, as the pool holds them after the addition.\<close>

lemma add_transaction_chain:
  assumes inv: "tp_inv p" and nm: "nonce_matches t" and room: "tp_len p + 2 \<le> tp_room p"
    and run: "add_transaction keccak_empty t balance on_chain_nonce code_hash p = Some (p', Inr r)"
    and small: "unat on_chain_nonce + k < 2 ^ 64"
    and there: "\<forall>j\<le>k. at_get (tp_all p') (chain_id (tx_sender_id t) on_chain_nonce j) = Some (x j)"
  shows "in_line balance 0 False x k"
proof -
  obtain a ok where a: "\<not> at_contains (tp_all p) (tx_hash t)" "all_wf (with_sender t balance on_chain_nonce (tp_all p))"
      "insert_tx t balance on_chain_nonce (with_sender t balance on_chain_nonce (tp_all p)) = Some (Inr (a, ok))"
      "txs (tp_all p') = txs a"
    by (rule add_transaction_traced [OF inv nm room run])
  show ?thesis using insert_tx_chain [OF a(2,3) nm _ small] there a(1,4) by (simp add: at_get_def)
qed

section \<open>When an addition succeeds\<close>

text \<open>
  The conditions on the content of the pool under which a transaction enters it. The checks of
  \<open>validate_auth\<close> for delegated accounts, and those on the costs of the blob transactions of a sender,
  are not part of it.
\<close>

definition admissible :: "valid_pool_tx \<Rightarrow> u64 \<Rightarrow> tx_pool \<Rightarrow> bool" where
  "admissible t on_chain_nonce p \<longleftrightarrow>
     (\<forall>e \<in> set (content p). tx_hash (snd e) \<noteq> tx_hash t) \<and>
     (config_is_local (local_transactions_config (tp_all p)) (origin t) (pt_sender (vp_transaction t)) \<or>
      sender_count (content p) (tx_sender_id t) < max_account_slots (tp_all p) \<or> tx_nonce t \<le> on_chain_nonce) \<and>
     tx_gas_limit t \<le> block_gas_limit (tp_all p) \<and>
     (\<forall>e \<in> set (content p). sender (fst e) = tx_sender_id t \<longrightarrow> is_eip4844 (snd e) = is_eip4844 t) \<and>
     ucast (minimal_protocol_basefee (tp_all p)) \<le> max_fee_per_gas t \<and>
     (case map_of (content p) (transaction_id t) of
        None \<Rightarrow> True | Some old \<Rightarrow> \<not> is_underpriced old t (price_bumps (tp_all p)))"

lemma insert_tx_Inr_iff:
  assumes "on_chain_nonce \<le> tx_nonce t"
  shows "(\<exists>r. insert_tx t balance on_chain_nonce a = Some (Inr r)) \<longleftrightarrow>
    ensure_valid t on_chain_nonce a = Inr () \<and>
    (is_eip4844 t \<longrightarrow>
       ensure_valid_blob_transaction t balance (ancestor (tx_nonce t) on_chain_nonce (tx_sender_id t)) a = Inr ()) \<and>
    ucast (minimal_protocol_basefee a) \<le> max_fee_per_gas t \<and>
    (\<forall>old. map_of (txs a) (transaction_id t) = Some old \<longrightarrow> \<not> is_underpriced (it_transaction old) t (price_bumps a))"
  using assms by (auto simp: insert_tx_def place_tx_def Let_def not_less split: sum.splits if_splits option.splits prod.splits)

lemma tx_count_content:
  assumes "tp_inv p"
  shows "tx_count (tp_all p) s = sender_count (content p) s"
  using all_wfD(3) [OF tp_invD(2) [OF assms]] by (simp add: counter_index_def tx_count_def content_def)

lemma contains_content:
  assumes "tp_inv p"
  shows "tp_contains p h \<longleftrightarrow> (\<exists>e \<in> set (content p). tx_hash (snd e) = h)"
proof -
  have sorted: "bsorted (content p)" by (rule content_sorted [OF tp_invD(2) [OF assms]])
  have ids: "map_of (content p) i = Some t \<Longrightarrow> transaction_id t = i" for i t
    using entries_okD(2) [OF all_wfD(1) [OF tp_invD(2) [OF assms]]] by (simp add: content_def)
  have "tp_contains p h \<longleftrightarrow> (\<exists>t. tp_get p h = Some t)"
    by (auto simp: tp_contains_def at_contains_def tp_get_def)
  also have "\<dots> \<longleftrightarrow> (\<exists>i t. map_of (content p) i = Some t \<and> tx_hash t = h)"
    using tp_get_content [OF assms, of h] ids by metis
  finally show ?thesis by (simp add: map_of_eq_Some_iff [OF bsorted_distinct [OF sorted]] Bex_def)
qed

lemma ensure_valid_admissible:
  assumes inv: "tp_inv p"
  shows "\<not> tp_contains p (tx_hash t) \<and> ensure_valid t on_chain_nonce (with_sender t balance on_chain_nonce (tp_all p)) = Inr () \<and>
    ucast (minimal_protocol_basefee (tp_all p)) \<le> max_fee_per_gas t \<and>
    (\<forall>old. map_of (txs (tp_all p)) (transaction_id t) = Some old \<longrightarrow>
       \<not> is_underpriced (it_transaction old) t (price_bumps (tp_all p))) \<longleftrightarrow> admissible t on_chain_nonce p"
proof -
  have sorted: "bsorted (content p)" by (rule content_sorted [OF tp_invD(2) [OF inv]])
  have conf: "contains_conflicting_transaction t (with_sender t balance on_chain_nonce (tp_all p)) \<longleftrightarrow>
      (\<exists>e \<in> set (content p). sender (fst e) = tx_sender_id t \<and> is_eip4844 (snd e) \<noteq> is_eip4844 t)"
    using contains_conflicting_iff [OF with_sender_wf [OF inv, of t balance on_chain_nonce]]
    by (auto simp: Bex_def content_at at_get_def simp flip: map_of_eq_Some_iff [OF bsorted_distinct [OF sorted]])
  have slots: "tx_count (with_sender t balance on_chain_nonce (tp_all p)) s = sender_count (content p) s" for s
    using tx_count_content [OF inv] by (simp add: tx_count_def)
  have old: "(\<forall>old. map_of (txs (tp_all p)) (transaction_id t) = Some old \<longrightarrow>
        \<not> is_underpriced (it_transaction old) t (price_bumps (tp_all p))) \<longleftrightarrow>
      (case map_of (content p) (transaction_id t) of
         None \<Rightarrow> True | Some old \<Rightarrow> \<not> is_underpriced old t (price_bumps (tp_all p)))"
    by (auto simp: content_at at_get_def split: option.splits)
  have lc: "local_transactions_config (with_sender t balance on_chain_nonce (tp_all p)) = local_transactions_config (tp_all p)"
    by (simp add: with_sender_def)
  show ?thesis unfolding admissible_def contains_content [OF inv] old
    by (auto simp: ensure_valid_def conf slots lc not_le not_less)
qed

lemma add_transaction_Inr_iff:
  assumes inv: "tp_inv p" and nonce: "on_chain_nonce \<le> tx_nonce t"
    and run: "add_transaction keccak_empty t balance on_chain_nonce code_hash p = Some (p', res)"
  shows "(\<exists>r. res = Inr r) \<longleftrightarrow>
    admissible t on_chain_nonce p \<and> validate_auth keccak_empty t on_chain_nonce code_hash p = Inr () \<and>
    (is_eip4844 t \<longrightarrow>
       ensure_valid_blob_transaction t balance (ancestor (tx_nonce t) on_chain_nonce (tx_sender_id t)) (tp_all p) = Inr ())"
proof -
  let ?a = "with_sender t balance on_chain_nonce (tp_all p)"
  have blob: "ensure_valid_blob_transaction t balance anc ?a = ensure_valid_blob_transaction t balance anc (tp_all p)" for anc
    unfolding ensure_valid_blob_transaction_def descendant_txs_inclusive_def with_sender_simps ..
  have "(\<exists>r. res = Inr r) \<longleftrightarrow> \<not> tp_contains p (tx_hash t) \<and>
      validate_auth keccak_empty t on_chain_nonce code_hash p = Inr () \<and> (\<exists>r. insert_tx t balance on_chain_nonce ?a = Some (Inr r))"
    using run unfolding add_transaction_def Let_def with_sender_def [symmetric]
    by (auto split: if_splits sum.splits option.splits prod.splits bind_splits)
  then show ?thesis
    unfolding insert_tx_Inr_iff [OF nonce] blob with_sender_simps
    using ensure_valid_admissible [OF inv, of t on_chain_nonce balance] by blast
qed

end
