(* ===== verification/Sub_Pool_Properties.thy ===== *)
theory Sub_Pool_Properties
  imports Pool_Additions
begin

text \<open>
  The properties of the single components: the state flags and the sub-pool they select
  (\<open>src/crates/transaction-pool/src/pool/state.rs\<close>), the identifiers (\<open>identifier.rs\<close>), and the limits and
  fee changes of the parked, pending and blob pools (\<open>parked.rs\<close>, \<open>pending.rs\<close>, \<open>blob.rs\<close>).
\<close>

section \<open>State flags and identifiers\<close>

text \<open>
  C25: the order comparisons of \<open>impl From<TxState> for SubPool\<close> on the byte of flags select the pending pool
  exactly for the transactions with all six requirements, otherwise the blob pool for the blob transactions,
  otherwise the base-fee pool for those with all requirements but the fees, and the queued pool for the rest.
\<close>

theorem sub_pool_by_flags:
  "sub_pool_of s =
     (let ready = st_contains s NO_PARKED_ANCESTORS \<and> st_contains s NO_NONCE_GAPS \<and>
                  st_contains s ENOUGH_BALANCE \<and> st_contains s NOT_TOO_MUCH_GAS
      in if ready \<and> st_contains s ENOUGH_FEE_CAP_BLOCK \<and> st_contains s ENOUGH_BLOB_FEE_CAP_BLOCK then Pending
         else if st_contains s BLOB_TRANSACTION then Blob
         else if ready then BaseFee else Queued)"
  by (auto simp: sub_pool_of_bits contains_bit Let_def)

text \<open>
  C28: below the highest nonce, the transaction before the next one of a sender is the transaction itself, the
  next one is greater, and no identifier lies between the two.
\<close>

theorem descendant_roundtrip:
  assumes "nonce i \<noteq> max_of"
  shows "unchecked_ancestor (descendant i) = Some i \<and> i < descendant i \<and> \<not> (i < j \<and> j < descendant i)"
proof -
  have n: "nonce i < nonce i + 1" by (rule word_self_less_succ [OF assms])
  have "\<not> (nonce i < m \<and> m < nonce i + 1)" for m
    using unat_succ [OF assms] by (auto simp: word_less_nat_alt)
  moreover have "nonce i + 1 \<noteq> 0" using n by auto
  ultimately show ?thesis
    using n by (cases i; cases j)
      (auto simp: unchecked_ancestor_def descendant_def next_nonce_def tid_less)
qed

theorem descendant_roundtrip_witness:
  "unchecked_ancestor (descendant (TransactionId 3 7)) = Some (TransactionId 3 7)"
proof -
  have "nonce (TransactionId 3 7) \<noteq> max_of" by simp
  then show ?thesis using descendant_roundtrip by blast
qed

section \<open>Parked transactions\<close>

text \<open>
  C20: \<open>ParkedPool::truncate_pool\<close> ends within the limit, returns exactly what it removed, removes of each
  sender only the highest nonces, and stops as soon as the pool fits: with the last one back the limit would
  be exceeded.
\<close>

theorem parked_truncation:
  assumes "pk_inv p"
  shows "\<exists>p' ts. pk_truncate_pool l p = Some (p', ts) \<and> pk_inv p' \<and> \<not> pk_exceeds l p' \<and>
    evicts (pk_entries p) ts (pk_entries p') \<and> keeps_prefix (pk_entries p) (pk_entries p') \<and>
    (ts \<noteq> [] \<longrightarrow> limit_is_exceeded l (Suc (pk_len p')) (pk_size p' + tx_size (last ts)))"
proof -
  obtain p' ts where "pk_truncate_pool l p = Some (p', ts)" "trims l p p' ts" "\<not> pk_exceeds l p'"
    using pk_truncate_law [OF assms] by metis
  then show ?thesis by (auto simp: trims_def)
qed

definition example_parked :: parked_pool where
  "example_parked = pk_add_transaction (example_tx 1 1 5 70 10) (pk_add_transaction (example_tx 1 0 5 50 10) default_parked_pool)"

lemma example_parked_inv: "pk_inv example_parked"
  and example_parked_entries:
    "pk_entries example_parked = [(TransactionId 1 0, example_tx 1 0 5 50 10), (TransactionId 1 1, example_tx 1 1 5 70 10)]"
proof -
  have d: "pk_entries default_parked_pool = []" "pk_room default_parked_pool = 2 ^ 64 - 1"
    by (simp_all add: default_parked_pool_def pk_entries_def bvals_map_def pk_room_def submissions_left_def)
  have "pk_inv (pk_add_transaction (example_tx 1 0 5 50 10) default_parked_pool)"
      "pk_room (pk_add_transaction (example_tx 1 0 5 50 10) default_parked_pool) = 2 ^ 64 - 2"
    using pk_add_law [OF pk_inv_default, of "example_tx 1 0 5 50 10"] by (simp_all add: d)
  then show "pk_inv example_parked"
    unfolding example_parked_def using pk_add_law(1) by (simp add: pk_add_fields(4) d)
  show "pk_entries example_parked = [(TransactionId 1 0, example_tx 1 0 5 50 10), (TransactionId 1 1, example_tx 1 1 5 70 10)]"
    by (simp add: example_parked_def pk_add_fields(4) d tid_less)
qed

theorem parked_truncation_witness:
  "\<exists>p' ts. pk_truncate_pool \<lparr>max_txs = 1, max_size = 1000\<rparr> example_parked = Some (p', ts) \<and> pk_len p' \<le> 1"
  using parked_truncation [OF example_parked_inv, of "\<lparr>max_txs = 1, max_size = 1000\<rparr>"]
  by (auto simp: pk_exceeds_def limit_is_exceeded_def not_less)

text \<open>
  C23: \<open>enforce_basefee_with\<close> releases a transaction exactly when it and all transactions of its sender with
  lower nonces in the pool pay the base fee, and keeps the others.
\<close>

theorem basefee_release:
  assumes "pk_inv p"
  shows "\<exists>p' ts. enforce_basefee_with b p = Some (p', ts) \<and> pk_inv p' \<and> evicts (pk_entries p) ts (pk_entries p') \<and>
    (\<forall>t. t \<in> set ts \<longleftrightarrow> map_of (pk_entries p) (transaction_id t) = Some t \<and>
       (\<forall>j u. map_of (pk_entries p) j = Some u \<and> sender j = tx_sender_id t \<and> nonce j \<le> nonce (transaction_id t) \<longrightarrow>
          ucast b \<le> max_fee_per_gas u))"
  using enforce_basefee_law [OF assms, of b] satisfy_base_fee_transactions_iff [OF assms] by metis

theorem basefee_release_witness:
  "\<exists>p' ts. enforce_basefee_with 60 example_parked = Some (p', ts) \<and> ts = []"
proof -
  obtain p' ts where run: "enforce_basefee_with 60 example_parked = Some (p', ts)"
      and ts: "\<forall>t. t \<in> set ts \<longleftrightarrow> map_of (pk_entries example_parked) (transaction_id t) = Some t \<and>
         (\<forall>j u. map_of (pk_entries example_parked) j = Some u \<and> sender j = tx_sender_id t \<and>
            nonce j \<le> nonce (transaction_id t) \<longrightarrow> ucast (60 :: u64) \<le> max_fee_per_gas u)"
    using basefee_release [OF example_parked_inv, of 60] by blast
  have none: "t \<notin> set ts" for t
  proof
    assume "t \<in> set ts"
    with ts have t: "map_of (pk_entries example_parked) (transaction_id t) = Some t"
      and low: "\<forall>j u. map_of (pk_entries example_parked) j = Some u \<and> sender j = tx_sender_id t \<and>
            nonce j \<le> nonce (transaction_id t) \<longrightarrow> ucast (60 :: u64) \<le> max_fee_per_gas u" by blast+
    from t have "tx_sender_id t = 1" by (auto simp: example_parked_entries tx_sender_id_def split: if_splits)
    then show False
      using low [rule_format, of "TransactionId 1 0" "example_tx 1 0 5 50 10"] by (simp add: example_parked_entries)
  qed
  show ?thesis using run none [of "hd ts"] by (cases ts) simp_all
qed

section \<open>Pending transactions\<close>

text \<open>
  C19: \<open>remove_to_limit\<close> without \<open>remove_locals\<close> always returns and never removes a transaction of local origin.
  It ends within the limit, unless the highest transaction of every remaining sender is local; of each
  sender only the highest nonces go.
\<close>

theorem remove_to_limit_spares_locals:
  assumes "pd_inv p"
  shows "\<exists>p' ts. remove_to_limit l False p = Some (p', ts) \<and> pd_inv p' \<and>
    evicts (pd_entries p) ts (pd_entries p') \<and> keeps_prefix (pd_entries p) (pd_entries p') \<and>
    (\<forall>t \<in> set ts. \<not> tx_is_local t) \<and>
    (\<not> pd_exceeds l p' \<or> (\<forall>s x. map_of (highest_nonces p') s = Some x \<longrightarrow> tx_is_local (pd_transaction x)))"
proof -
  obtain p' ts where "remove_to_limit l False p = Some (p', ts)" "shrinks False p p' ts" "finished l False p'"
    by (rule remove_to_limit_law [OF assms])
  then show ?thesis by (auto simp: shrinks_def finished_def)
qed

definition example_pending :: pending_pool where
  "example_pending =
     pd_add_transaction (example_tx 1 1 5 50 10) 10
       (pd_add_transaction (example_tx 1 0 5 70 10) 10 (new_pending_pool (coinbase_tip_ordering (\<lambda>_ _. Some 0))))"

lemma example_pending_inv: "pd_inv example_pending"
  and example_pending_entries:
    "pd_entries example_pending = [(TransactionId 1 0, example_tx 1 0 5 70 10), (TransactionId 1 1, example_tx 1 1 5 50 10)]"
proof -
  let ?ord = "coinbase_tip_ordering (\<lambda>_ _. Some 0)"
  have d: "pd_entries (new_pending_pool ?ord) = []" "pd_room (new_pending_pool ?ord) = 2 ^ 64 - 1"
    by (simp_all add: new_pending_pool_def pd_entries_def bvals_map_def pd_room_def submissions_left_def)
  let ?p1 = "pd_add_transaction (example_tx 1 0 5 70 10) 10 (new_pending_pool ?ord)"
  have nm: "nonce_matches (example_tx s n c f z)" for s n c f z by (simp add: nonce_matches_def)
  have e1: "pd_entries ?p1 = [(TransactionId 1 0, example_tx 1 0 5 70 10)]" by (simp add: pd_add_fields(6) d(1))
  have "map_of (pd_entries (new_pending_pool ?ord)) (transaction_id (example_tx 1 0 5 70 10)) = None"
    "0 < pd_room (new_pending_pool ?ord)" unfolding d by simp_all
  note p1 = pd_add_law [OF pd_inv_new this(1) nm this(2), of 10]
  have "map_of (pd_entries ?p1) (transaction_id (example_tx 1 1 5 50 10)) = None" "0 < pd_room ?p1"
    unfolding e1 p1(2) d(2) by simp_all
  note p2 = pd_add_law [OF p1(1) this(1) nm this(2), of 10]
  show "pd_inv example_pending" unfolding example_pending_def by (rule p2(1))
  show "pd_entries example_pending = [(TransactionId 1 0, example_tx 1 0 5 70 10), (TransactionId 1 1, example_tx 1 1 5 50 10)]"
    unfolding example_pending_def by (simp add: pd_add_fields(6) d(1) tid_less)
qed

theorem remove_to_limit_spares_locals_witness:
  "\<exists>p' ts. remove_to_limit \<lparr>max_txs = 1, max_size = 1000\<rparr> False example_pending = Some (p', ts) \<and> (\<forall>t \<in> set ts. \<not> tx_is_local t)"
  using remove_to_limit_spares_locals [OF example_pending_inv] by blast

text \<open>
  C22: a new base fee takes out of the pending pool exactly the transactions that do not pay it or come after
  one of their sender that does not, and gives those that stay the priority at the new base fee.
\<close>

theorem pending_base_fee:
  assumes "pd_inv p"
  shows "\<exists>p' ts. pd_update_base_fee b p = (p', ts) \<and> pd_inv p' \<and> evicts (pd_entries p) ts (pd_entries p') \<and>
    (\<forall>t. t \<in> set ts \<longleftrightarrow> map_of (pd_entries p) (transaction_id t) = Some t \<and>
       (\<exists>j u. map_of (pd_entries p) j = Some u \<and> sender j = tx_sender_id t \<and> nonce j \<le> nonce (transaction_id t) \<and>
          max_fee_per_gas u < ucast b)) \<and>
    (\<forall>i x. map_of (pd_by_id p') i = Some x \<longrightarrow> priority x = ordering p (vp_transaction (pd_transaction x)) b)"
proof -
  obtain p' ts where upd: "pd_update_base_fee b p = (p', ts)" by (cases "pd_update_base_fee b p")
  have "snd (clear_transactions p) = pd_by_id p" by (simp add: clear_transactions_def)
  then have "ts = map (pd_transaction \<circ> snd)
      (scan_removed (\<lambda>e. sender (fst e)) (\<lambda>e. max_fee_per_gas (pd_transaction (snd e)) < ucast b) (pd_by_id p))"
    using upd by (auto simp: pd_update_base_fee_def Let_def split: prod.splits)
  from pd_removed_by_scan [OF assms, of ts "\<lambda>t. max_fee_per_gas t < ucast b", OF this]
  show ?thesis using upd pd_update_base_fee_law [OF assms upd] by auto
qed

theorem pending_base_fee_witness:
  "\<exists>p' ts. pd_update_base_fee 60 example_pending = (p', ts) \<and> example_tx 1 1 5 50 10 \<in> set ts \<and> example_tx 1 0 5 70 10 \<notin> set ts"
proof -
  obtain p' ts where "pd_update_base_fee 60 example_pending = (p', ts)"
      and ts: "\<forall>t. t \<in> set ts \<longleftrightarrow> map_of (pd_entries example_pending) (transaction_id t) = Some t \<and>
         (\<exists>j u. map_of (pd_entries example_pending) j = Some u \<and> sender j = tx_sender_id t \<and>
            nonce j \<le> nonce (transaction_id t) \<and> max_fee_per_gas u < ucast (60 :: u64))"
    using pending_base_fee [OF example_pending_inv, of 60] by blast
  moreover have "example_tx 1 1 5 50 10 \<in> set ts"
    unfolding ts [rule_format] by (intro conjI exI [of _ "TransactionId 1 1"] exI [of _ "example_tx 1 1 5 50 10"])
      (simp_all add: example_pending_entries)
  moreover have "example_tx 1 0 5 70 10 \<notin> set ts"
    unfolding ts [rule_format] by (auto simp: example_pending_entries split: if_splits)
  ultimately show ?thesis by blast
qed

section \<open>Blob transactions\<close>

text \<open>
  C21: \<open>BlobTransactions::truncate_pool\<close> ends within the limit and removes the worst first: no transaction that
  it removes has a higher priority than one that stays.
\<close>

theorem blob_truncation:
  assumes "bl_inv p"
  shows "\<exists>p' ts. bl_truncate_pool l p = Some (p', ts) \<and> bl_inv p' \<and> \<not> bl_exceeds l p' \<and>
    evicts (bl_entries p) ts (bl_entries p') \<and>
    (\<forall>t i u. t \<in> set ts \<longrightarrow> map_of (bl_entries p') i = Some u \<longrightarrow>
       tx_blob_priority t (bl_pending_fees p) \<le> tx_blob_priority u (bl_pending_fees p))"
  using bl_truncate_law [OF assms, of l] by metis

definition example_blobs :: blob_pool where
  "example_blobs = the (bl_add_transaction (example_blob_tx 1 0 100 5) default_blob_pool)"

lemma example_blobs_inv: "bl_inv example_blobs"
  and example_blobs_entries: "bl_entries example_blobs = [(TransactionId 1 0, example_blob_tx 1 0 100 5)]"
proof -
  have "bl_entries default_blob_pool = []" "0 < bl_room default_blob_pool"
    by (simp_all add: default_blob_pool_def bl_entries_def bvals_map_def bl_room_def submissions_left_def)
  then obtain p' where "bl_add_transaction (example_blob_tx 1 0 100 5) default_blob_pool = Some p'" "bl_inv p'"
      "bl_entries p' = [(TransactionId 1 0, example_blob_tx 1 0 100 5)]"
    using bl_add_law [OF bl_inv_default, of "example_blob_tx 1 0 100 5"] by auto
  then show "bl_inv example_blobs" "bl_entries example_blobs = [(TransactionId 1 0, example_blob_tx 1 0 100 5)]"
    by (simp_all add: example_blobs_def)
qed

theorem blob_truncation_witness:
  "\<exists>p' ts. bl_truncate_pool \<lparr>max_txs = 0, max_size = 1000\<rparr> example_blobs = Some (p', ts) \<and> bl_len p' = 0"
  using blob_truncation [OF example_blobs_inv, of "\<lparr>max_txs = 0, max_size = 1000\<rparr>"]
  by (auto simp: bl_exceeds_def limit_is_exceeded_def)

text \<open>
  C24: \<open>enforce_pending_fees\<close> releases, in the order of their identifiers, exactly the transactions that pay the
  base fee and the blob fee and whose predecessors in the pool pay them too, and ranks the others by the new
  fees. The comment on the function also counts the descendants of a paying transaction among the released
  ones; a descendant that does not pay stays, and so does everything behind it.
\<close>

theorem blob_fee_release:
  assumes "bl_inv p"
  shows "\<exists>p' ts. enforce_pending_fees fees p = Some (p', ts) \<and> bl_inv p' \<and> bl_pending_fees p' = fees \<and>
    evicts (bl_entries p) ts (bl_entries p') \<and> sorted_wrt (<) (map transaction_id ts) \<and>
    (\<forall>i. i \<in> transaction_id ` set ts \<longleftrightarrow> map_of (bl_entries p) i \<noteq> None \<and>
       (\<forall>j u. map_of (bl_entries p) j = Some u \<and> sender j = sender i \<and> nonce j \<le> nonce i \<longrightarrow>
          (\<exists>f. max_fee_per_blob_gas u = Some f \<and> blob_fee fees \<le> f) \<and> ucast (base_fee fees) \<le> max_fee_per_gas u)) \<and>
    (\<forall>i x. map_of (bl_by_id p') i = Some x \<longrightarrow> bt_priority x = tx_blob_priority (bt_transaction x) fees)"
proof -
  obtain p' ts where run: "enforce_pending_fees fees p = Some (p', ts)" "bl_inv p'" "bl_pending_fees p' = fees"
      "evicts (bl_entries p) ts (bl_entries p')" and ids: "map transaction_id ts = satisfy_pending_fee_ids fees p"
    by (rule enforce_pending_fees_law [OF assms])
  have "sorted_wrt (<) (map transaction_id ts)" unfolding ids by (rule satisfy_pending_fee_sorted [OF assms])
  moreover have "transaction_id ` set ts = set (satisfy_pending_fee_ids fees p)" unfolding ids [symmetric] by simp
  moreover have "\<forall>i x. map_of (bl_by_id p') i = Some x \<longrightarrow> bt_priority x = tx_blob_priority (bt_transaction x) fees"
    using run(2,3) by (simp add: bl_inv_def)
  ultimately show ?thesis using run satisfy_pending_fee_iff [OF assms, of _ fees] unfolding not_misses_fees by blast
qed

definition example_blob_run :: blob_pool where
  "example_blob_run = the (bl_add_transaction (example_blob_tx 1 1 100 3) example_blobs)"

lemma example_blob_run_inv: "bl_inv example_blob_run"
  and example_blob_run_entries: "bl_entries example_blob_run =
    [(TransactionId 1 0, example_blob_tx 1 0 100 5), (TransactionId 1 1, example_blob_tx 1 1 100 3)]"
proof -
  have "0 < bl_room example_blobs"
    by (simp add: example_blobs_def bl_add_transaction_def default_blob_pool_def bl_contains_def bl_next_id_def
        Let_def bl_room_def submissions_left_def)
  then obtain p' where "bl_add_transaction (example_blob_tx 1 1 100 3) example_blobs = Some p'" "bl_inv p'"
      "bl_entries p' = [(TransactionId 1 0, example_blob_tx 1 0 100 5), (TransactionId 1 1, example_blob_tx 1 1 100 3)]"
    using bl_add_law [OF example_blobs_inv, of "example_blob_tx 1 1 100 3"] by (auto simp: example_blobs_entries tid_less)
  then show "bl_inv example_blob_run" "bl_entries example_blob_run =
      [(TransactionId 1 0, example_blob_tx 1 0 100 5), (TransactionId 1 1, example_blob_tx 1 1 100 3)]"
    by (simp_all add: example_blob_run_def)
qed

theorem blob_fee_release_witness:
  "\<exists>p' ts. enforce_pending_fees \<lparr>base_fee = 60, blob_fee = 5\<rparr> example_blob_run = Some (p', ts) \<and>
     TransactionId 1 0 \<in> transaction_id ` set ts \<and> TransactionId 1 1 \<notin> transaction_id ` set ts"
proof -
  let ?fees = "\<lparr>base_fee = 60, blob_fee = 5\<rparr>"
  obtain p' ts where run: "enforce_pending_fees ?fees example_blob_run = Some (p', ts)"
      and ts: "\<forall>i. i \<in> transaction_id ` set ts \<longleftrightarrow> map_of (bl_entries example_blob_run) i \<noteq> None \<and>
        (\<forall>j u. map_of (bl_entries example_blob_run) j = Some u \<and> sender j = sender i \<and> nonce j \<le> nonce i \<longrightarrow>
          (\<exists>f. max_fee_per_blob_gas u = Some f \<and> blob_fee ?fees \<le> f) \<and> ucast (base_fee ?fees) \<le> max_fee_per_gas u)"
    using blob_fee_release [OF example_blob_run_inv, of ?fees] by blast
  have "TransactionId 1 0 \<in> transaction_id ` set ts"
    unfolding ts [rule_format] by (auto simp: example_blob_run_entries split: if_splits)
  moreover have "TransactionId 1 1 \<notin> transaction_id ` set ts"
    unfolding ts [rule_format]
    by (auto simp: example_blob_run_entries intro!: exI [of _ "TransactionId 1 1"] exI [of _ "example_blob_tx 1 1 100 3"])
  ultimately show ?thesis using run by blast
qed

text \<open>
  C26: the priority of a blob transaction lies between -9 and 0, is 0 when the transaction pays both fees,
  and the fee distance behind it grows with the fee cap and has the sign of the difference.
\<close>

theorem blob_priority_bounds:
  assumes "a \<le> a'"
  shows "fee_delta a b \<le> fee_delta a' b \<and> \<bar>fee_delta a b\<bar> \<le> 9 \<and>
    (if b \<le> a then 0 \<le> fee_delta a b else fee_delta a b \<le> 0) \<and>
    - 9 \<le> tx_blob_priority t fees \<and> tx_blob_priority t fees \<le> 0 \<and>
    (if misses_fees fees t then True else tx_blob_priority t fees = 0)"
  using fee_delta_mono [OF assms] fee_delta_bound fee_delta_sign [of b a] fee_delta_sign(2) [of a b] tx_blob_priority_bounds
    tx_blob_priority_affordable by auto

theorem blob_priority_bounds_witness:
  "fee_delta 10 20 \<le> fee_delta 30 20 \<and> - 9 \<le> tx_blob_priority (example_blob_tx 1 0 100 5) \<lparr>base_fee = 60, blob_fee = 500\<rparr>"
  using blob_priority_bounds [of 10 30 20 "example_blob_tx 1 0 100 5" "\<lparr>base_fee = 60, blob_fee = 500\<rparr>"] by simp

section \<open>Adding and removing\<close>

text \<open>
  C27: in each of the three kinds of sub-pools, removing a transaction right after it was added returns it and
  leaves the pool with the content it had before.
\<close>

theorem add_remove_roundtrip:
  assumes "pk_inv k" and "map_of (pk_entries k) (transaction_id t) = None" and "0 < pk_room k"
    and "pd_inv q" and "map_of (pd_entries q) (transaction_id u) = None" and "0 < pd_room q" and "nonce_matches u"
    and "bl_inv b" and "map_of (bl_entries b) (transaction_id v) = None" and "0 < bl_room b" and "is_eip4844 v"
  shows "(\<exists>k'. pk_remove_transaction (transaction_id t) (pk_add_transaction t k) = Some (k', Some t) \<and>
        pk_inv k' \<and> pk_entries k' = pk_entries k) \<and>
    (\<exists>q'. pd_remove_transaction (transaction_id u) (pd_add_transaction u fee q) = (q', Some u) \<and>
        pd_inv q' \<and> pd_entries q' = pd_entries q) \<and>
    (\<exists>b1 b'. bl_add_transaction v b = Some b1 \<and> bl_remove_transaction (transaction_id v) b1 = (b', Some v) \<and>
        bl_inv b' \<and> bl_entries b' = bl_entries b)"
proof (intro conjI)
  show "\<exists>k'. pk_remove_transaction (transaction_id t) (pk_add_transaction t k) = Some (k', Some t) \<and>
        pk_inv k' \<and> pk_entries k' = pk_entries k"
    using parked.add_then_remove [OF assms(1,2) TrueI assms(3)] by (metis option.inject)
  show "\<exists>q'. pd_remove_transaction (transaction_id u) (pd_add_transaction u fee q) = (q', Some u) \<and>
        pd_inv q' \<and> pd_entries q' = pd_entries q"
    using pending.add_then_remove [OF assms(4,5,7,6), of fee] unfolding pd_remove_def by (metis option.inject)
  show "\<exists>b1 b'. bl_add_transaction v b = Some b1 \<and> bl_remove_transaction (transaction_id v) b1 = (b', Some v) \<and>
        bl_inv b' \<and> bl_entries b' = bl_entries b"
    using blob.add_then_remove [OF assms(8,9,11,10)] unfolding bl_remove_def by (metis option.inject)
qed

theorem add_remove_roundtrip_witness:
  "\<exists>k'. pk_remove_transaction (TransactionId 1 0) (pk_add_transaction (example_tx 1 0 5 50 10) default_parked_pool) =
     Some (k', Some (example_tx 1 0 5 50 10)) \<and> pk_entries k' = []"
proof -
  let ?q = "new_pending_pool (coinbase_tip_ordering (\<lambda>_ _. Some 0))"
  have e: "pk_entries default_parked_pool = []" "pd_entries ?q = []" "bl_entries default_blob_pool = []"
    by (simp_all add: default_parked_pool_def new_pending_pool_def default_blob_pool_def pk_entries_def pd_entries_def
        bl_entries_def bvals_map_def)
  have r: "0 < pk_room default_parked_pool" "0 < pd_room ?q" "0 < bl_room default_blob_pool"
    by (simp_all add: default_parked_pool_def new_pending_pool_def default_blob_pool_def pk_room_def pd_room_def
        bl_room_def submissions_left_def)
  have n: "nonce_matches (example_tx 1 0 5 50 10)" by (simp add: nonce_matches_def)
  show ?thesis
    using add_remove_roundtrip [OF pk_inv_default _ r(1) pd_inv_new _ r(2) n bl_inv_default _ r(3),
        of "example_tx 1 0 5 50 10" "example_blob_tx 1 0 100 5"] by (auto simp: e)
qed

end
