(* ===== verification/Pool_Examples.thy ===== *)
theory Pool_Examples
  imports Pool_Queries
begin

text \<open>
  Concrete runs of the pool, evaluated by the simplifier: the pool that the witnesses of the properties
  use, and when the assertions of the test builds hold.
\<close>

section \<open>Evaluation\<close>

text \<open>
  A bound value is evaluated before it is substituted, and the continuation of a bind only once the value
  is known.
\<close>

lemma let_eval: "x = v \<Longrightarrow> Let x f = f v"
  by simp

lemma bind_weak_cong: "x = x' \<Longrightarrow> Option.bind x f = Option.bind x' f"
  by simp

lemmas eval_basics =
  saturating_add_def saturating_sub_def saturating_mul_def div_ceil_def bdel_def bupd_def bfrom_def bafter_def
  bbefore_def last_opt_def head_opt_def bvals_map_def scan_removed_def scan_kept_def default_identifiers_def
  address_def sender_id_def next_id_def sender_id_or_create_def tid_le
  tid_less next_nonce_def descendant_def unchecked_ancestor_def ancestor_def start_bound_def
  sender_range_def priority_less priority_from_def coinbase_tip_ordering_def size_reset_def size_add_def
  size_sub_def EIP4844_TX_TYPE_ID_def limit_is_exceeded_def tx_excess_def default_sub_pool_limit_def
  unlimited_def scale_limit_def price_bump_def default_price_bumps_def default_local_config_def
  set_propagate_local_transactions_def contains_local_address_def config_is_local_def default_pool_config_def
  with_protocol_base_fee_def with_disabled_protocol_base_fee_def with_max_inflight_delegated_slots_def
  config_is_exceeded_def required_bumped_fee_def is_underpriced_def NO_PARKED_ANCESTORS_def NO_NONCE_GAPS_def
  ENOUGH_BALANCE_def NOT_TOO_MUCH_GAS_def ENOUGH_FEE_CAP_BLOCK_def ENOUGH_BLOB_FEE_CAP_BLOCK_def
  BLOB_TRANSACTION_def PENDING_POOL_BITS_def BASE_FEE_POOL_BITS_def st_insert_def st_remove_def
  st_contains_def st_intersects_def st_is_pending_def st_is_blob_def has_nonce_gap_def is_promoted_def
  sub_pool_of_def tx_is_local_def origin_is_local_def tx_type_conflicts_with_def

lemmas eval_sub_pools =
  default_parked_pool_def pk_next_id_def submission_insert_def add_sender_count_def remove_sender_count_def
  pk_add_transaction_def pk_remove_transaction_def pk_all_def pk_len_def pk_size_def pk_exceeds_def
  pk_contains_def pk_get_txs_by_sender_def pk_txs_by_sender_def satisfy_base_fee_def
  satisfy_base_fee_transactions_def enforce_basefee_with_def pk_truncate_pool_def cmp_def then_with_def
  basefee_cmp_def queued_cmp_def parked_cmp_def unlocks_def pending_key_def new_pending_pool_def
  clear_transactions_def update_highest_def update_independent_def update_independents_and_highest_nonces_def
  pd_next_id_def pd_add_transaction_def reinsert_def below_blob_fee_def pd_update_blob_fee_def
  pd_update_base_fee_def unlock_next_def lower_highest_def pd_remove_transaction_def pd_all_def pd_len_def
  pd_size_def pd_exceeds_def pd_contains_def pd_get_txs_by_sender_def pd_txs_by_sender_def checked_sub_def
  removal_candidates_def worst_transactions_def pd_remove_def remove_to_limit_def pd_truncate_pool_def
  BLOB_TX_MIN_BLOB_GASPRICE_def default_pending_fees_def   default_blob_pool_def new_blob_tx_def
  update_priority_def bl_contains_def bl_next_id_def blob_set_insert_def bl_add_transaction_def
  bl_remove_transaction_def bl_remove_def satisfy_attributes_def bl_len_def bl_size_def bl_exceeds_def
  misses_fees_def satisfy_pending_fee_ids_def collect_set_def reprioritize_def enforce_pending_fees_def

lemmas eval_container =
  default_outcome_def next_cumulative_cost_def counter_mut_def type_inc_def type_dec_def
  default_all_transactions_def new_all_transactions_def at_contains_def at_get_def at_len_def at_is_empty_def
  tx_count_def tx_inc_def tx_decr_def at_set_block_info_def set_flag_def update_tx_base_fee_def
  record_subpool_update_def stale_def update_first_def update_consecutive_def at_update_def txs_iter_def
  descendant_txs_exclusive_def descendant_txs_inclusive_def descendant_txs_mut_def remove_auths_def
  dec_type_def at_remove_transaction_by_hash_def at_remove_transaction_by_id_def at_remove_transaction_def
  park_tx_def move_of_def park_descendant_transactions_def contains_conflicting_transaction_def
  ensure_valid_def ensure_valid_blob_transaction_def initial_state_def place_tx_def insert_visit_def
  traverse_sender_def insert_tx_def at_assert_invariants_def

lemmas eval_pool =
  new_tx_pool_def get_highest_transaction_by_sender_def get_highest_nonce_by_sender_def
  get_highest_consecutive_transaction_by_sender_def unique_senders_def tp_size_def tp_block_info_def
  pending_transactions_def pending_transactions_count_def pending_transactions_with_predicate_def
  pending_txs_by_sender_def queued_transactions_def queued_transactions_count_def
  queued_and_pending_txs_by_sender_def queued_txs_by_sender_def tp_contains_def subpool_contains_def
  is_exceeded_def tp_get_def tp_get_all_def get_transactions_by_sender_def
  get_pending_transaction_by_sender_and_nonce_def tp_len_def tp_is_empty_def remove_from_subpool_def
  add_transaction_to_subpool_def add_new_transaction_def move_transaction_def remove_found_def
  prune_transaction_by_hash_def prune_transaction_by_id_def remove_transaction_def
  remove_transaction_by_hash_def remove_transactions_def prune_transactions_def
  remove_transactions_by_sender_def remove_transactions_and_descendants_def set_state_def set_tracked_fees_def
  update_blob_fee_def add_from_basefee_def update_basefee_def tp_set_block_info_def
  update_pending_fees_only_def apply_fee_updates_def update_accounts_def on_canonical_state_change_def
  check_delegation_limit_def validate_auth_def add_between_def add_transaction_def discard_pending_def
  discard_basefee_def discard_blob_def discard_queued_def discard_worst_def pd_assert_invariants_def
  pk_assert_invariants_def bl_assert_invariants_def total_is_sum_def tp_assert_invariants_def

lemmas pool_eval = eval_basics eval_sub_pools eval_container eval_pool let_eval

section \<open>A small pool\<close>

definition example_info :: "u64 \<Rightarrow> u128 \<Rightarrow> block_info" where
  "example_info fee blobfee =
     \<lparr>bi_last_seen_block_hash = 0, bi_last_seen_block_number = 1, bi_block_gas_limit = 30000000,
      bi_pending_basefee = fee, bi_pending_blob_fee = Some blobfee\<rparr>"

definition example_new :: tx_pool where
  "example_new = new_tx_pool (coinbase_tip_ordering (\<lambda>_ _. Some 0)) default_pool_config"

definition example_add :: "SenderId \<Rightarrow> u64 \<Rightarrow> u128 \<Rightarrow> pool_op" where
  "example_add s n fee = OpAdd (example_tx s n 5 fee 10) 1000 0 None"

lemmas example_defs = example_info_def example_new_def example_add_def

text \<open>The pool after a sequence of operations.\<close>

definition example_run :: "pool_op list \<Rightarrow> tx_pool" where
  "example_run ops = (case run_ops 0 ops example_new of None \<Rightarrow> example_new | Some p \<Rightarrow> p)"

lemma example_run_law:
  assumes "list_all op_ok ops" and "ops_cost ops 0 \<le> 1000"
  shows "tp_inv (example_run ops)" and "n \<le> 1000 \<Longrightarrow> n \<le> tp_room (example_run ops)"
proof -
  obtain p where "run_ops 0 ops example_new = Some p" "tp_inv p" "2 ^ 64 \<le> tp_room p + ops_cost ops 0 + 1"
    unfolding example_new_def by (rule run_ops_new [of ops]) (use assms in simp_all)
  then show "tp_inv (example_run ops)" "n \<le> 1000 \<Longrightarrow> n \<le> tp_room (example_run ops)"
    using assms(2) by (simp_all add: example_run_def)
qed

text \<open>
  Two transactions of one sender, the second of which is no longer affordable once the base fee rises above
  50, and one of another sender behind a nonce gap.
\<close>

definition example_ops :: "pool_op list" where
  "example_ops =
     [OpSetBlockInfo (example_info 10 1), example_add 1 0 1000, example_add 1 1 50, example_add 2 3 40]"

definition example_pool :: tx_pool where
  "example_pool = (case run_ops 0 example_ops example_new of None \<Rightarrow> example_new | Some p \<Rightarrow> p)"

lemma example_ops_ok: "list_all op_ok example_ops" "ops_cost example_ops 0 = 9"
  by (simp_all add: example_ops_def example_add_def nonce_matches_def)

lemma example_pool_run:
  "run_ops 0 example_ops example_new = Some example_pool" "tp_inv example_pool"
  "tp_config example_pool = default_pool_config" "2 ^ 64 \<le> tp_room example_pool + 10"
proof -
  obtain p where "run_ops 0 example_ops example_new = Some p" "tp_inv p" "tp_config p = default_pool_config"
      "2 ^ 64 \<le> tp_room p + ops_cost example_ops 0 + 1"
    unfolding example_new_def by (rule run_ops_new [of example_ops]) (use example_ops_ok in simp_all)
  then show "run_ops 0 example_ops example_new = Some example_pool" "tp_inv example_pool"
    "tp_config example_pool = default_pool_config" "2 ^ 64 \<le> tp_room example_pool + 10"
    using example_ops_ok by (simp_all add: example_pool_def)
qed

lemma example_reaches: "\<exists>n < 2 ^ 64. reaches 0 default_pool_config n example_pool"
proof -
  have "tp_len example_new \<le> 0"
    by (simp add: example_new_def tp_len_def at_len_def new_tx_pool_def new_all_transactions_def default_all_transactions_def)
  moreover have "reaches 0 default_pool_config 0 example_new" unfolding example_new_def by (rule reaches_new)
  moreover have "0 + ops_cost example_ops 0 < 2 ^ 64" by (simp add: example_ops_ok(2))
  ultimately obtain m where "m \<le> 0 + ops_cost example_ops 0" "reaches 0 default_pool_config m example_pool"
    using run_ops_reaches [of 0 default_pool_config 0 example_new 0] example_ops_ok(1) example_pool_run(1) by blast
  then show ?thesis unfolding example_ops_ok(2) by (intro exI [of _ m]) simp
qed

lemma example_pool_eq:
  "txs (tp_all example_pool) =
     [(TransactionId 1 0, \<lparr>it_transaction = example_tx 1 0 5 1000 10, it_subpool = Pending, it_state = 252, it_cumulative_cost = 0\<rparr>),
      (TransactionId 1 1, \<lparr>it_transaction = example_tx 1 1 5 50 10, it_subpool = Pending, it_state = 252, it_cumulative_cost = 5\<rparr>),
      (TransactionId 2 3, \<lparr>it_transaction = example_tx 2 3 5 40 10, it_subpool = Queued, it_state = 28, it_cumulative_cost = 0\<rparr>)]"
  "tracked_fees (tp_all example_pool) = \<lparr>base_fee = 10, blob_fee = 1\<rparr>"
  "sender_info (tp_all example_pool) = [(1, \<lparr>si_state_nonce = 0, si_balance = 1000\<rparr>), (2, \<lparr>si_state_nonce = 0, si_balance = 1000\<rparr>)]"
  by (simp_all add: example_pool_def example_ops_def example_defs pool_eval del: remove_descendants.simps
      cong: let_weak_cong bind_weak_cong)

lemma example_content:
  "content example_pool =
     [(TransactionId 1 0, example_tx 1 0 5 1000 10), (TransactionId 1 1, example_tx 1 1 5 50 10),
      (TransactionId 2 3, example_tx 2 3 5 40 10)]"
  "tp_len example_pool = 3"
  by (simp_all add: content_def at_entries_def bvals_map_def example_pool_eq tp_len_def at_len_def)

lemma example_settings:
  "block_gas_limit (tp_all example_pool) = 30000000" "max_account_slots (tp_all example_pool) = 16"
  "minimal_protocol_basefee (tp_all example_pool) = 7" "auths (tp_all example_pool) = []"
  by (simp_all add: example_pool_def example_ops_def example_defs pool_eval del: remove_descendants.simps
      cong: let_weak_cong bind_weak_cong)

text \<open>Adding the next transaction of the first sender.\<close>

lemma example_addition:
  "\<exists>p' r. add_transaction 0 (example_tx 1 2 5 70 10) 1000 0 None example_pool = Some (p', Inr r) \<and>
     map_of (txs (tp_all p')) (TransactionId 1 0) =
       Some \<lparr>it_transaction = example_tx 1 0 5 1000 10, it_subpool = Pending, it_state = 252, it_cumulative_cost = 0\<rparr> \<and>
     map_of (txs (tp_all p')) (TransactionId 1 1) =
       Some \<lparr>it_transaction = example_tx 1 1 5 50 10, it_subpool = Pending, it_state = 252, it_cumulative_cost = 5\<rparr> \<and>
     map_of (txs (tp_all p')) (TransactionId 1 2) =
       Some \<lparr>it_transaction = example_tx 1 2 5 70 10, it_subpool = Pending, it_state = 252, it_cumulative_cost = 10\<rparr>"
  by (simp add: example_pool_def example_ops_def example_defs pool_eval del: remove_descendants.simps
      cong: let_weak_cong bind_weak_cong)

lemma example_room: "n \<le> 1000 \<Longrightarrow> n \<le> tp_room example_pool"
  using example_pool_run(4) by simp

section \<open>The assertion on the authorities\<close>

lemma length_bmap: "bsorted m \<Longrightarrow> length m = card (fst ` set m)"
  using distinct_card [OF bsorted_distinct] by (metis length_map set_map)

lemma keys_iff: "k \<in> fst ` set m \<longleftrightarrow> map_of m k \<noteq> None"
  by (simp add: map_of_eq_None_iff)

lemma length_by_hash:
  assumes "all_wf a"
  shows "length (by_hash a) = length (txs a)"
proof -
  note D = all_wfD [OF assms]
  have sm: "bsorted (at_entries a)" by (rule entries_okD(1) [OF D(1)])
  have sh: "bsorted (by_hash a)" using D(2) by (simp add: hash_index_def)
  have "fst ` set (by_hash a) = (tx_hash \<circ> snd) ` set (at_entries a)"
  proof (intro set_eqI iffI)
    fix h assume "h \<in> fst ` set (by_hash a)"
    then obtain t where "map_of (by_hash a) h = Some t" by (auto simp: keys_iff)
    then have "tx_hash t = h" "map_of (at_entries a) (transaction_id t) = Some t" using hash_index_iff [OF D(2)] by auto
    then show "h \<in> (tx_hash \<circ> snd) ` set (at_entries a)" by (force dest: map_of_SomeD)
  next
    fix h assume "h \<in> (tx_hash \<circ> snd) ` set (at_entries a)"
    then obtain i t where t: "map_of (at_entries a) i = Some t" "tx_hash t = h" by (auto simp: in_set_map_of [OF sm])
    then have "map_of (by_hash a) h = Some t" using hash_index_iff [OF D(2)] entries_okD(2) [OF D(1) t(1)] by auto
    then show "h \<in> fst ` set (by_hash a)" by (simp add: keys_iff)
  qed
  moreover have "inj_on (tx_hash \<circ> snd) (set (at_entries a))"
  proof (rule inj_onI)
    fix e e' assume "e \<in> set (at_entries a)" "e' \<in> set (at_entries a)" and h: "(tx_hash \<circ> snd) e = (tx_hash \<circ> snd) e'"
    then have "map_of (at_entries a) (fst e) = Some (snd e)" "map_of (at_entries a) (fst e') = Some (snd e')"
      using in_set_map_of [OF sm] by (metis prod.collapse)+
    then show "e = e'" using hash_index_inj [OF D(2,1)] entries_okD(2) [OF D(1)] h by (metis comp_apply prod_eq_iff)
  qed
  ultimately have "card (fst ` set (by_hash a)) = card (set (at_entries a))" by (simp only: card_image)
  also have "\<dots> = length (at_entries a)" using bsorted_distinct [OF sm] by (simp add: distinct_card distinct_map)
  finally show ?thesis by (simp add: length_bmap [OF sh] length_txs)
qed

lemma auths_keys:
  assumes "all_wf a"
  shows "fst ` set (auths a) = (\<Union>e \<in> set (at_entries a). set (authorities (snd e)))"
proof -
  note D = all_wfD [OF assms]
  have sm: "bsorted (at_entries a)" by (rule entries_okD(1) [OF D(1)])
  have ai: "map_of (auths a) s \<noteq> Some []" "hashes_of (auths a) s = authority_hashes (at_entries a) s" for s
    using D(4) by (simp_all add: auth_index_def)
  have "map_of (auths a) s \<noteq> None \<longleftrightarrow> hashes_of (auths a) s \<noteq> {}" for s
    using ai(1) [of s] by (auto simp: hashes_of_def split: option.splits)
  then have "s \<in> fst ` set (auths a) \<longleftrightarrow> authority_hashes (at_entries a) s \<noteq> {}" for s
    by (simp add: keys_iff ai(2))
  then show ?thesis by (auto simp: authority_hashes_def in_set_map_of [OF sm, symmetric]) force+
qed

text \<open>
  C36: the assertion of the test builds that there are no more authorities than transactions is not an invariant: in
  every pool that satisfies the invariant it holds exactly if the EIP-7702 authorities of all transactions
  together are at most as many as the transactions. One transaction may name several.
\<close>

theorem auths_assertion_too_strong:
  assumes "tp_inv p"
  shows "at_assert_invariants (tp_all p) \<longleftrightarrow>
    card (\<Union>e \<in> set (content p). set (authorities (snd e))) \<le> length (content p)"
proof -
  note wf = tp_invD(2) [OF assms]
  have "bsorted (auths (tp_all p))" using all_wfD(4) [OF wf] by (simp add: auth_index_def)
  then show ?thesis
    using auths_keys [OF wf] length_by_hash [OF wf]
    by (simp add: at_assert_invariants_def length_bmap content_def length_txs)
qed

theorem auths_assertion_too_strong_witness:
  "tp_inv (example_run [OpAdd ((example_tx 1 0 5 1000 10)\<lparr>authority_ids := Some [2, 3]\<rparr>) 1000 0 None]) \<and>
   \<not> at_assert_invariants (tp_all (example_run [OpAdd ((example_tx 1 0 5 1000 10)\<lparr>authority_ids := Some [2, 3]\<rparr>) 1000 0 None]))"
  (is "tp_inv ?p \<and> _")
proof
  show inv: "tp_inv ?p"
    by (rule example_run_law) (simp_all add: nonce_matches_def example_tx_def tx_accessors)
  have "content ?p = [(TransactionId 1 0, (example_tx 1 0 5 1000 10)\<lparr>authority_ids := Some [2, 3]\<rparr>)]"
    by (simp add: example_run_def content_def at_entries_def example_defs example_tx_def tx_accessors pool_eval
        del: remove_descendants.simps cong: let_weak_cong bind_weak_cong)
  then show "\<not> at_assert_invariants (tp_all ?p)" by (simp add: auths_assertion_too_strong [OF inv] authorities_def)
qed

end
