(* ===== verification/Best_Laws.thy ===== *)
theory Best_Laws
  imports Best_Transactions Sub_Pool_Properties Pool_Examples
begin

text \<open>
  The laws of the iterators of \<open>Best_Transactions\<close>: what an iterator with no messages waiting will yield of
  each sender, the interfaces \<open>best_iterator\<close> and \<open>markable_iterator\<close> with the lemmas about draining
  and filtering that follow from them, and their interpretations.
\<close>

section \<open>What an iterator will yield\<close>

text \<open>
  The consecutive transactions from an identifier on. A transaction that was visited is gone, so the run
  ends even where the nonce wraps around.
\<close>

lemma length_bdel_less: "map_of m i = Some x \<Longrightarrow> length (bdel i m) < length m"
  unfolding bdel_def by (rule length_filter_less [of "(i, x)"]) (auto dest: map_of_SomeD)

function run_of :: "(TransactionId, pending_tx) bmap \<Rightarrow> TransactionId \<Rightarrow> pending_tx list" where
  "run_of m i = (case map_of m i of None \<Rightarrow> [] | Some x \<Rightarrow> x # run_of (bdel i m) (descendant i))"
  by pat_completeness auto
termination by (relation "measure (length \<circ> fst)") (auto intro: length_bdel_less)

declare run_of.simps [simp del]

definition lead :: "best_transactions \<Rightarrow> SenderId \<Rightarrow> pending_tx option" where
  "lead b s = find (\<lambda>x. tx_sender_id (pd_transaction x) = s) (map snd (be_independent b))"

definition skipped :: "best_transactions \<Rightarrow> pending_tx \<Rightarrow> bool" where
  "skipped b x \<longleftrightarrow> be_skip_blobs b \<and> is_eip4844 (pd_transaction x)"

definition outlook :: "best_transactions \<Rightarrow> SenderId \<Rightarrow> pending_tx list" where
  "outlook b s =
     (if s \<in> set (be_invalid b) then []
      else case lead b s of
             None \<Rightarrow> []
           | Some x \<Rightarrow> takeWhile (\<lambda>y. \<not> skipped b y) (run_of (be_all b) (transaction_id (pd_transaction x))))"

text \<open>
  The invariant: the independent transactions are among all transactions, there is at most one of each
  sender, and the order tells all transactions apart.
\<close>

definition be_inv :: "best_transactions \<Rightarrow> bool" where
  "be_inv b \<longleftrightarrow>
     bsorted (be_all b) \<and> bsorted (be_independent b) \<and>
     (\<forall>i x. map_of (be_all b) i = Some x \<longrightarrow> transaction_id (pd_transaction x) = i) \<and>
     (\<forall>i j x y. map_of (be_all b) i = Some x \<longrightarrow> map_of (be_all b) j = Some y \<longrightarrow> pending_key x = pending_key y \<longrightarrow> i = j) \<and>
     (\<forall>k x. map_of (be_independent b) k = Some x \<longrightarrow>
        pending_key x = k \<and> map_of (be_all b) (transaction_id (pd_transaction x)) = Some x) \<and>
     (\<forall>k l x y. map_of (be_independent b) k = Some x \<longrightarrow> map_of (be_independent b) l = Some y \<longrightarrow>
        tx_sender_id (pd_transaction x) = tx_sender_id (pd_transaction y) \<longrightarrow> x = y)"

definition quiet :: "best_transactions \<Rightarrow> bool" where
  "quiet b \<longleftrightarrow> be_receiver b = None \<or> be_receiver b = Some []"

lemma be_invD:
  assumes "be_inv b"
  shows "bsorted (be_all b)" and "bsorted (be_independent b)"
    and "map_of (be_all b) i = Some x \<Longrightarrow> transaction_id (pd_transaction x) = i"
    and "map_of (be_all b) i = Some x \<Longrightarrow> map_of (be_all b) j = Some y \<Longrightarrow> pending_key x = pending_key y \<Longrightarrow> i = j"
    and "map_of (be_independent b) k = Some x \<Longrightarrow> pending_key x = k"
    and "map_of (be_independent b) k = Some x \<Longrightarrow> map_of (be_all b) (transaction_id (pd_transaction x)) = Some x"
    and "map_of (be_independent b) k = Some x \<Longrightarrow> map_of (be_independent b) l = Some y \<Longrightarrow>
      tx_sender_id (pd_transaction x) = tx_sender_id (pd_transaction y) \<Longrightarrow> x = y"
  using assms unfolding be_inv_def by blast+

lemma be_invI:
  assumes "bsorted (be_all b)" and "bsorted (be_independent b)"
    and "\<And>i x. map_of (be_all b) i = Some x \<Longrightarrow> transaction_id (pd_transaction x) = i"
    and "\<And>i j x y. map_of (be_all b) i = Some x \<Longrightarrow> map_of (be_all b) j = Some y \<Longrightarrow> pending_key x = pending_key y \<Longrightarrow> i = j"
    and "\<And>k x. map_of (be_independent b) k = Some x \<Longrightarrow> pending_key x = k"
    and "\<And>k x. map_of (be_independent b) k = Some x \<Longrightarrow> map_of (be_all b) (transaction_id (pd_transaction x)) = Some x"
    and "\<And>k l x y. map_of (be_independent b) k = Some x \<Longrightarrow> map_of (be_independent b) l = Some y \<Longrightarrow>
      tx_sender_id (pd_transaction x) = tx_sender_id (pd_transaction y) \<Longrightarrow> x = y"
  shows "be_inv b"
  unfolding be_inv_def by (intro conjI allI impI) (rule assms; assumption)+

lemma run_of_other: "sender j \<noteq> sender i \<Longrightarrow> run_of (bdel j m) i = run_of m i"
proof (induction m i rule: run_of.induct)
  case (1 m i)
  have "map_of (bdel j m) i = map_of m i" using 1(2) by (auto simp: map_of_bdel)
  moreover have "bdel i (bdel j m) = bdel j (bdel i m)" by (simp add: bdel_def conj_commute)
  moreover have "sender j \<noteq> sender (descendant i)" using 1(2) by (simp add: descendant_def)
  ultimately show ?case
    using 1(1) by (simp add: run_of.simps [of "bdel j m"] run_of.simps [of m] split: option.splits)
qed

text \<open>The nonces along a run increase by one.\<close>

lemma run_of_nonces:
  assumes "\<And>i x. map_of m i = Some x \<Longrightarrow> transaction_id (pd_transaction x) = i" and "k < length (run_of m i)"
  shows "transaction_id (pd_transaction (run_of m i ! k)) = TransactionId (sender i) (nonce i + of_nat k)"
  using assms
proof (induction m i arbitrary: k rule: run_of.induct)
  case (1 m i)
  then obtain x where x: "map_of m i = Some x" by (auto simp: run_of.simps [of m] split: option.splits)
  have own: "map_of (bdel i m) j = Some y \<Longrightarrow> transaction_id (pd_transaction y) = j" for j y
    using 1(2) by (auto simp: map_of_bdel split: if_splits)
  show ?case
  proof (cases k)
    case 0
    then show ?thesis using 1(2) [OF x] x by (simp add: run_of.simps [of m])
  next
    case (Suc l)
    then have "l < length (run_of (bdel i m) (descendant i))" using 1(3) x by (simp add: run_of.simps [of m])
    from 1(1) [OF x own this] show ?thesis
      using Suc x by (simp add: run_of.simps [of m] descendant_def next_nonce_def)
  qed
qed

lemma find_SomeD: "find P xs = Some x \<Longrightarrow> P x \<and> x \<in> set xs"
  by (induction xs) (auto split: if_splits)

lemma lead_iff:
  assumes "be_inv b"
  shows "lead b s = Some x \<longleftrightarrow> map_of (be_independent b) (pending_key x) = Some x \<and> tx_sender_id (pd_transaction x) = s"
proof -
  note D = be_invD [OF assms]
  have mem: "y \<in> set (map snd (be_independent b)) \<longleftrightarrow> map_of (be_independent b) (pending_key y) = Some y" for y
  proof
    assume "y \<in> set (map snd (be_independent b))"
    then obtain k where "(k, y) \<in> set (be_independent b)" by auto
    then have "map_of (be_independent b) k = Some y" by (simp add: in_set_map_of [OF D(2)])
    then show "map_of (be_independent b) (pending_key y) = Some y" using D(5) by simp
  next
    assume "map_of (be_independent b) (pending_key y) = Some y"
    then have "(pending_key y, y) \<in> set (be_independent b)" by (simp add: in_set_map_of [OF D(2)])
    then show "y \<in> set (map snd (be_independent b))" unfolding set_map by (rule image_eqI [rotated]) simp
  qed
  show ?thesis
  proof
    assume l: "lead b s = Some x"
    show "map_of (be_independent b) (pending_key x) = Some x \<and> tx_sender_id (pd_transaction x) = s"
      using find_SomeD [OF l [unfolded lead_def]] mem [of x] by blast
  next
    assume x: "map_of (be_independent b) (pending_key x) = Some x \<and> tx_sender_id (pd_transaction x) = s"
    then have "lead b s \<noteq> None" unfolding lead_def find_None_iff using mem [of x] by blast
    then obtain y where y: "lead b s = Some y" by blast
    have "map_of (be_independent b) (pending_key y) = Some y \<and> tx_sender_id (pd_transaction y) = s"
      using find_SomeD [OF y [unfolded lead_def]] mem [of y] by blast
    then have "y = x" using x D(7) [of "pending_key y" y "pending_key x" x] by simp
    then show "lead b s = Some x" using y by simp
  qed
qed

lemma last_key_max: "bsorted m \<Longrightarrow> last_opt m = Some (k, x) \<Longrightarrow> map_of m l = Some y \<Longrightarrow> l \<le> k"
proof (induction m)
  case (Cons e m)
  show ?case
  proof (cases "m = []")
    case True
    then show ?thesis using Cons.prems by (auto simp: last_opt_def split: if_splits)
  next
    case False
    then have l: "last_opt m = Some (k, x)" using Cons.prems(2) by (simp add: last_opt_def)
    have "(k, x) \<in> set m" using last_opt_SomeD [OF l] by simp
    moreover have "\<forall>e' \<in> set m. fst e < fst e'" using Cons.prems(1) by simp
    ultimately have "fst e < k" by (metis fst_conv)
    then show ?thesis using Cons l by (cases e) (auto split: if_splits)
  qed
qed simp

lemma outlook_head:
  assumes "be_inv b" and "outlook b s = y # ys"
  shows "map_of (be_independent b) (pending_key y) = Some y" and "tx_sender_id (pd_transaction y) = s"
proof -
  obtain x where x: "lead b s = Some x" and
      tw: "takeWhile (\<lambda>y. \<not> skipped b y) (run_of (be_all b) (transaction_id (pd_transaction x))) = y # ys"
    using assms(2) by (auto simp: outlook_def split: if_splits option.splits)
  have lx: "map_of (be_independent b) (pending_key x) = Some x" "tx_sender_id (pd_transaction x) = s"
    using x lead_iff [OF assms(1)] by auto
  have "run_of (be_all b) (transaction_id (pd_transaction x)) =
      x # run_of (bdel (transaction_id (pd_transaction x)) (be_all b)) (descendant (transaction_id (pd_transaction x)))"
    using be_invD(6) [OF assms(1) lx(1)] by (simp add: run_of.simps [of "be_all b"])
  then have "y = x" using tw by (simp split: if_splits)
  then show "map_of (be_independent b) (pending_key y) = Some y" "tx_sender_id (pd_transaction y) = s" using lx by simp_all
qed

lemma add_new_quiet: "quiet b \<Longrightarrow> add_new_transactions n b = b"
  by (cases n) (auto simp: quiet_def be_try_recv_def)

text \<open>Taking the best transaction out, and letting in the one it unlocks.\<close>

lemma pop_best_law:
  assumes inv: "be_inv b" and pop: "pop_best b = Some (x, b2)"
  shows "map_of (be_independent b) (pending_key x) = Some x"
    and "map_of (be_independent b) k = Some y \<Longrightarrow> pending_key y \<le> pending_key x"
    and "b2 = b\<lparr>be_independent := bdel (pending_key x) (be_independent b),
                be_all := bdel (transaction_id (pd_transaction x)) (be_all b)\<rparr>"
    and "be_inv b2" and "map_of (be_independent b2) k = Some y \<Longrightarrow> tx_sender_id (pd_transaction y) \<noteq> tx_sender_id (pd_transaction x)"
    and "length (be_all b2) < length (be_all b)"
proof -
  note D = be_invD [OF inv]
  obtain k' where k': "last_opt (be_independent b) = Some (k', x)"
    and b2: "b2 = b\<lparr>be_independent := bdel k' (be_independent b),
                be_all := bdel (transaction_id (pd_transaction x)) (be_all b)\<rparr>"
    using pop by (auto simp: pop_best_def split: option.splits)
  have m: "map_of (be_independent b) k' = Some x"
    using last_opt_SomeD [OF k'] in_set_map_of [OF D(2)] by blast
  have key: "k' = pending_key x" using D(5) [OF m] by simp
  show x: "map_of (be_independent b) (pending_key x) = Some x" using m by (simp add: key)
  show "b2 = b\<lparr>be_independent := bdel (pending_key x) (be_independent b),
                be_all := bdel (transaction_id (pd_transaction x)) (be_all b)\<rparr>" using b2 by (simp add: key)
  show "pending_key y \<le> pending_key x" if "map_of (be_independent b) k = Some y" for k y
    using last_key_max [OF D(2) k'] that D(5) [OF that] by (simp add: key)
  have ind2: "map_of (be_independent b) k = Some y \<and> k \<noteq> pending_key x" if "map_of (be_independent b2) k = Some y" for k y
    using that by (auto simp: b2 key map_of_bdel split: if_splits)
  have all2: "map_of (be_all b) i = Some y" if "map_of (be_all b2) i = Some y" for i y
    using that by (auto simp: b2 map_of_bdel split: if_splits)
  have other: "tx_sender_id (pd_transaction y) \<noteq> tx_sender_id (pd_transaction x)"
    if "map_of (be_independent b2) k = Some y" for k y
    using ind2 [OF that] D(7) [OF _ x, of k y] D(5) [of k y] by auto
  then show "tx_sender_id (pd_transaction y) \<noteq> tx_sender_id (pd_transaction x)" if "map_of (be_independent b2) k = Some y"
    using that by blast
  show "be_inv b2"
  proof (rule be_invI)
    show "bsorted (be_all b2)" "bsorted (be_independent b2)" using D(1,2) by (simp_all add: b2 bsorted_bdel)
    show "map_of (be_all b2) (transaction_id (pd_transaction y)) = Some y" if "map_of (be_independent b2) k = Some y" for k y
    proof -
      have "transaction_id (pd_transaction y) \<noteq> transaction_id (pd_transaction x)"
        using other [OF that] by (auto simp: tx_sender_id_def)
      then show ?thesis using D(6) [of k y] ind2 [OF that] by (simp add: b2 map_of_bdel)
    qed
    show "transaction_id (pd_transaction y) = i" if "map_of (be_all b2) i = Some y" for i y
      by (rule D(3) [OF all2 [OF that]])
    show "i = j" if "map_of (be_all b2) i = Some y" "map_of (be_all b2) j = Some z" "pending_key y = pending_key z" for i j y z
      by (rule D(4) [OF all2 [OF that(1)] all2 [OF that(2)] that(3)])
    show "pending_key y = k" if "map_of (be_independent b2) k = Some y" for k y
      by (rule D(5) [OF conjunct1 [OF ind2 [OF that]]])
    show "y = z" if "map_of (be_independent b2) k = Some y" "map_of (be_independent b2) l = Some z"
        "tx_sender_id (pd_transaction y) = tx_sender_id (pd_transaction z)" for k l y z
      by (rule D(7) [OF conjunct1 [OF ind2 [OF that(1)]] conjunct1 [OF ind2 [OF that(2)]] that(3)])
  qed
  show "length (be_all b2) < length (be_all b)"
    using length_bdel_less [OF D(6) [OF m]] by (simp add: b2)
qed

text \<open>A further independent transaction, of a sender that has none.\<close>

lemma add_independent:
  assumes inv: "be_inv b" and y: "map_of (be_all b) i = Some y" and s: "tx_sender_id (pd_transaction y) = s"
    and none: "\<forall>k z. map_of (be_independent b) k = Some z \<longrightarrow> tx_sender_id (pd_transaction z) \<noteq> s"
  defines "b' \<equiv> b\<lparr>be_independent := pending_set_insert y (be_independent b)\<rparr>"
  shows "be_inv b'" and "map_of (be_independent b') k = Some z \<longleftrightarrow>
    k = pending_key y \<and> z = y \<or> k \<noteq> pending_key y \<and> map_of (be_independent b) k = Some z"
    and "map_of (be_independent b) (pending_key y) = None"
proof -
  note D = be_invD [OF inv]
  have id: "transaction_id (pd_transaction y) = i" by (rule D(3) [OF y])
  show free: "map_of (be_independent b) (pending_key y) = None"
  proof (cases "map_of (be_independent b) (pending_key y)")
    case (Some z)
    have "transaction_id (pd_transaction z) = i" using D(4) [OF D(6) [OF Some] y] D(5) [OF Some] by simp
    then have "tx_sender_id (pd_transaction z) = s" using s id by (simp add: tx_sender_id_def)
    then show ?thesis using none Some by blast
  qed
  show m: "map_of (be_independent b') k = Some z \<longleftrightarrow>
      k = pending_key y \<and> z = y \<or> k \<noteq> pending_key y \<and> map_of (be_independent b) k = Some z" for k z
    using free by (auto simp: b'_def pending_set_insert_def map_of_bins)
  have all: "be_all b' = be_all b" by (simp add: b'_def)
  show "be_inv b'"
  proof (rule be_invI, unfold all)
    show "bsorted (be_all b)" "bsorted (be_independent b')"
      using D(1,2) by (simp_all add: b'_def pending_set_insert_def bsorted_bins)
    show "pending_key z = k" if "map_of (be_independent b') k = Some z" for k z
      using that D(5) [of k z] unfolding m by blast
    show "map_of (be_all b) (transaction_id (pd_transaction z)) = Some z" if "map_of (be_independent b') k = Some z" for k z
    proof (cases "z = y")
      case True
      then show ?thesis using y id by simp
    next
      case False
      then show ?thesis using that m [of k z] D(6) [of k z] by simp
    qed
    show "z = w" if "map_of (be_independent b') k = Some z" "map_of (be_independent b') l = Some w"
        "tx_sender_id (pd_transaction z) = tx_sender_id (pd_transaction w)" for k l z w
    proof -
      have z: "z = y \<or> map_of (be_independent b) k = Some z \<and> tx_sender_id (pd_transaction z) \<noteq> s"
        using that(1) m [of k z] none by blast
      have w: "w = y \<or> map_of (be_independent b) l = Some w \<and> tx_sender_id (pd_transaction w) \<noteq> s"
        using that(2) m [of l w] none by blast
      from z w show ?thesis using that(3) s D(7) [of k z l w] by (elim disjE) simp_all
    qed
  qed (fact D(3), fact D(4))
qed

lemma option_eqI: "(\<And>z. a = Some z \<longleftrightarrow> b = Some z) \<Longrightarrow> a = b"
  by (cases a; cases b) auto

lemma unlock_best_law:
  assumes inv: "be_inv b" and none: "\<forall>k z. map_of (be_independent b) k = Some z \<longrightarrow> tx_sender_id (pd_transaction z) \<noteq> s"
    and s: "s = tx_sender_id (pd_transaction x)"
  shows "be_inv (unlock_best x b) \<and> be_all (unlock_best x b) = be_all b \<and>
    lead (unlock_best x b) s = map_of (be_all b) (unlocks x) \<and>
    (\<forall>s'. s' \<noteq> s \<longrightarrow> lead (unlock_best x b) s' = lead b s')"
proof (cases "map_of (be_all b) (unlocks x)")
  case None
  have "lead b s \<noteq> Some z" for z using lead_iff [OF inv, of s z] none by blast
  then have "lead b s = None" by (cases "lead b s") blast+
  then show ?thesis using inv None by (simp add: unlock_best_def)
next
  case (Some y)
  have sy: "tx_sender_id (pd_transaction y) = s"
    using be_invD(3) [OF inv Some] by (simp add: tx_sender_id_def unlocks_def descendant_def s)
  have b': "unlock_best x b = b\<lparr>be_independent := pending_set_insert y (be_independent b)\<rparr>"
    using Some by (simp add: unlock_best_def)
  note A = add_independent [OF inv Some sy none, folded b']
  have "lead (unlock_best x b) s = Some y" unfolding lead_iff [OF A(1)] A(2) using sy by simp
  moreover have "lead (unlock_best x b) s' = lead b s'" if "s' \<noteq> s" for s'
    by (rule option_eqI) (use sy that A(3) in \<open>auto simp: lead_iff [OF A(1)] lead_iff [OF inv] A(2)\<close>)
  ultimately show ?thesis using A(1) Some by (simp add: b')
qed

section \<open>The next transaction\<close>

text \<open>What a pass over the best transaction does to what the senders will yield.\<close>

lemma lead_popped:
  assumes inv: "be_inv b" and pop: "pop_best b = Some (x, b2)" and s: "s \<noteq> tx_sender_id (pd_transaction x)"
  shows "lead b2 s = lead b s"
proof (rule option_eqI)
  fix z
  note P = pop_best_law [OF inv pop]
  show "lead b2 s = Some z \<longleftrightarrow> lead b s = Some z"
    unfolding lead_iff [OF P(4)] lead_iff [OF inv] using s P(1,3) by (auto simp: map_of_bdel)
qed

lemma outlook_other:
  assumes inv: "be_inv b" and pop: "pop_best b = Some (x, b2)" and s: "s \<noteq> tx_sender_id (pd_transaction x)"
    and b': "be_inv b'" "be_all b' = be_all b2" "lead b' s = lead b2 s" "be_skip_blobs b' = be_skip_blobs b"
      "s \<in> set (be_invalid b') \<longleftrightarrow> s \<in> set (be_invalid b)"
  shows "outlook b' s = outlook b s"
proof -
  note P = pop_best_law [OF inv pop]
  have "run_of (be_all b') (transaction_id (pd_transaction y)) = run_of (be_all b) (transaction_id (pd_transaction y))"
    if "lead b s = Some y" for y
  proof -
    have "tx_sender_id (pd_transaction y) = s" using that lead_iff [OF inv] by blast
    then have "sender (transaction_id (pd_transaction x)) \<noteq> sender (transaction_id (pd_transaction y))"
      using s by (simp add: tx_sender_id_def)
    then show ?thesis using run_of_other P(3) by (simp add: b'(2))
  qed
  then show ?thesis
    using b'(3-5) lead_popped [OF inv pop s] by (auto simp: outlook_def skipped_def split: option.splits)
qed

lemma outlook_popped:
  assumes inv: "be_inv b" and pop: "pop_best b = Some (x, b2)" and s: "s = tx_sender_id (pd_transaction x)"
    and ok: "s \<notin> set (be_invalid b)"
  shows "outlook b s = (if skipped b x then [] else x # outlook (unlock_best x b2) s)"
proof -
  note P = pop_best_law [OF inv pop]
  let ?i = "transaction_id (pd_transaction x)"
  have lead: "lead b s = Some x" unfolding lead_iff [OF inv] using P(1) s by simp
  have "map_of (be_all b) ?i = Some x" by (rule be_invD(6) [OF inv P(1)])
  then have run: "run_of (be_all b) ?i = x # run_of (be_all b2) (unlocks x)"
    using P(3) by (simp add: run_of.simps [of "be_all b"] unlocks_def)
  have none: "\<forall>k z. map_of (be_independent b2) k = Some z \<longrightarrow> tx_sender_id (pd_transaction z) \<noteq> s"
    using P(5) s by blast
  note U = unlock_best_law [OF P(4) none s]
  have same: "be_skip_blobs (unlock_best x b2) = be_skip_blobs b" "be_invalid (unlock_best x b2) = be_invalid b"
    using P(3) by (simp_all add: unlock_best_def split: option.splits)
  have rest: "outlook (unlock_best x b2) s = takeWhile (\<lambda>y. \<not> skipped b y) (run_of (be_all b2) (unlocks x))"
  proof (cases "map_of (be_all b2) (unlocks x)")
    case None
    then show ?thesis using U by (simp add: outlook_def run_of.simps [of "be_all b2"])
  next
    case (Some y)
    have "transaction_id (pd_transaction y) = unlocks x" by (rule be_invD(3) [OF P(4) Some])
    then show ?thesis using U Some ok same by (simp add: outlook_def skipped_def)
  qed
  show ?thesis unfolding rest using lead ok by (simp add: outlook_def [of b] run)
qed

text \<open>
  One call of \<open>next_tx_and_priority\<close>: it returns, and what it yields is the first transaction that its sender
  was to yield, with a priority not below that of the first of any other sender.
\<close>

definition yields :: "best_transactions \<Rightarrow> best_transactions \<Rightarrow> (valid_pool_tx \<times> Priority) option \<Rightarrow> bool" where
  "yields b b' r \<longleftrightarrow>
     be_inv b' \<and> quiet b' \<and> length (be_all b') \<le> length (be_all b) \<and>
     (case r of
        None \<Rightarrow> \<forall>s. outlook b s = [] \<and> outlook b' s = []
      | Some (t, pr) \<Rightarrow>
          length (be_all b') < length (be_all b) \<and>
          (\<exists>x. pd_transaction x = t \<and> priority x = pr \<and>
             outlook b = (outlook b')(tx_sender_id t := x # outlook b' (tx_sender_id t)) \<and>
             (\<forall>s y ys. outlook b s = y # ys \<longrightarrow> pending_key y \<le> pending_key x)))"

lemma yields_skip: "yields b1 b' r \<Longrightarrow> outlook b1 = outlook b \<Longrightarrow> length (be_all b1) < length (be_all b) \<Longrightarrow> yields b b' r"
  unfolding yields_def by (auto split: option.splits)

lemma be_inv_frame [simp]:
  "be_inv (b\<lparr>be_last_priority := lp\<rparr>) = be_inv b" "be_inv (be_mark_invalid t b) = be_inv b"
  "be_inv (b\<lparr>be_receiver := q\<rparr>) = be_inv b" "be_inv (b\<lparr>be_skip_blobs := sk\<rparr>) = be_inv b"
  by (simp_all add: be_inv_def be_mark_invalid_def)

lemma mark_invalid_fields [simp]:
  "be_all (be_mark_invalid t b) = be_all b" "be_receiver (be_mark_invalid t b) = be_receiver b"
  "be_skip_blobs (be_mark_invalid t b) = be_skip_blobs b" "lead (be_mark_invalid t b) = lead b"
  "set (be_invalid (be_mark_invalid t b)) = insert (tx_sender_id t) (set (be_invalid b))"
  by (auto simp: be_mark_invalid_def lead_def)

lemma outlook_last_priority [simp]: "outlook (b\<lparr>be_last_priority := lp\<rparr>) = outlook b"
  by (rule ext) (simp add: outlook_def lead_def skipped_def split: option.splits)

lemma unlock_fields [simp]:
  "be_receiver (unlock_best x b) = be_receiver b" "be_skip_blobs (unlock_best x b) = be_skip_blobs b"
  "be_invalid (unlock_best x b) = be_invalid b"
  by (simp_all add: unlock_best_def split: option.splits)

lemma popped:
  assumes inv: "be_inv b" and pop: "pop_best b = Some (x, b2)"
  shows "be_receiver b2 = be_receiver b" and "be_skip_blobs b2 = be_skip_blobs b" and "be_invalid b2 = be_invalid b"
    and "be_inv (unlock_best x b2)" and "be_all (unlock_best x b2) = be_all b2"
    and "s \<noteq> tx_sender_id (pd_transaction x) \<Longrightarrow> lead (unlock_best x b2) s = lead b2 s"
proof -
  note P = pop_best_law [OF inv pop]
  show "be_receiver b2 = be_receiver b" "be_skip_blobs b2 = be_skip_blobs b" "be_invalid b2 = be_invalid b"
    using P(3) by simp_all
  have "\<forall>k z. map_of (be_independent b2) k = Some z \<longrightarrow> tx_sender_id (pd_transaction z) \<noteq> tx_sender_id (pd_transaction x)"
    using P(5) by blast
  from unlock_best_law [OF P(4) this refl]
  show "be_inv (unlock_best x b2)" "be_all (unlock_best x b2) = be_all b2"
    "s \<noteq> tx_sender_id (pd_transaction x) \<Longrightarrow> lead (unlock_best x b2) s = lead b2 s" by blast+
qed

lemma pass_invalid:
  assumes inv: "be_inv b" and pop: "pop_best b = Some (x, b2)" and bad: "tx_sender_id (pd_transaction x) \<in> set (be_invalid b)"
  shows "outlook b2 = outlook b"
proof
  fix s
  note P = pop_best_law [OF inv pop]
  show "outlook b2 s = outlook b s"
  proof (cases "s = tx_sender_id (pd_transaction x)")
    case True
    then show ?thesis using bad popped(3) [OF inv pop] by (simp add: outlook_def)
  next
    case False
    then show ?thesis by (rule outlook_other [OF inv pop _ P(4)]) (simp_all add: popped [OF inv pop])
  qed
qed

lemma pass_blob:
  assumes inv: "be_inv b" and pop: "pop_best b = Some (x, b2)" and ok: "tx_sender_id (pd_transaction x) \<notin> set (be_invalid b)"
    and skip: "skipped b x"
  shows "outlook (be_mark_invalid (pd_transaction x) (unlock_best x b2)) = outlook b"
proof
  fix s
  show "outlook (be_mark_invalid (pd_transaction x) (unlock_best x b2)) s = outlook b s"
  proof (cases "s = tx_sender_id (pd_transaction x)")
    case True
    then show ?thesis using outlook_popped [OF inv pop True] ok skip by (simp add: outlook_def)
  next
    case False
    then show ?thesis by (rule outlook_other [OF inv pop]) (use False in \<open>simp_all add: popped [OF inv pop]\<close>)
  qed
qed

lemma pass_yield:
  assumes inv: "be_inv b" and pop: "pop_best b = Some (x, b2)" and ok: "tx_sender_id (pd_transaction x) \<notin> set (be_invalid b)"
    and keep: "\<not> skipped b x"
  defines "s0 \<equiv> tx_sender_id (pd_transaction x)"
  shows "outlook b = (outlook (unlock_best x b2))(s0 := x # outlook (unlock_best x b2) s0)"
proof
  fix s
  show "outlook b s = ((outlook (unlock_best x b2))(s0 := x # outlook (unlock_best x b2) s0)) s"
  proof (cases "s = s0")
    case True
    then show ?thesis using outlook_popped [OF inv pop, of s0] ok keep by (simp add: s0_def)
  next
    case False
    then have "outlook (unlock_best x b2) s = outlook b s"
      unfolding s0_def by (rule outlook_other [OF inv pop]) (use False in \<open>simp_all add: popped [OF inv pop] s0_def\<close>)
    then show ?thesis using False by simp
  qed
qed

lemma yields_best:
  assumes inv: "be_inv b" and pop: "pop_best b = Some (x, b2)" and ok: "tx_sender_id (pd_transaction x) \<notin> set (be_invalid b)"
    and keep: "\<not> skipped b x"
    and b': "be_inv b'" "quiet b'" "be_all b' = be_all b2" "outlook b' = outlook (unlock_best x b2)"
  shows "yields b b' (Some (pd_transaction x, priority x))"
proof -
  note P = pop_best_law [OF inv pop]
  have "\<forall>s y ys. outlook b s = y # ys \<longrightarrow> pending_key y \<le> pending_key x"
    using P(2) outlook_head(1) [OF inv] by blast
  moreover have "outlook b = (outlook b')(tx_sender_id (pd_transaction x) := x # outlook b' (tx_sender_id (pd_transaction x)))"
    unfolding b'(4) by (rule pass_yield [OF inv pop ok keep])
  ultimately show ?thesis
    unfolding yields_def option.case prod.case using b'(1-3) P(6) by (intro conjI exI [of _ x]) simp_all
qed

lemma next_law: "be_inv b \<Longrightarrow> quiet b \<Longrightarrow> \<exists>b' r. next_tx_and_priority b = Some (b', r) \<and> yields b b' r"
proof (induction "length (be_all b)" arbitrary: b rule: less_induct)
  case less
  note inv = less.prems(1)
  have new: "add_new_transactions MAX_NEW_TRANSACTIONS_PER_BATCH b = b" by (rule add_new_quiet [OF less.prems(2)])
  show ?case
  proof (cases "pop_best b")
    case None
    then have "be_independent b = []" by (auto simp: pop_best_def split: option.splits)
    then have "yields b b None" using less.prems by (simp add: yields_def outlook_def lead_def)
    moreover have "next_tx_and_priority b = Some (b, None)" using None new by (subst next_tx_and_priority.simps) simp
    ultimately show ?thesis by blast
  next
    case (Some e)
    obtain x b2 where pop: "pop_best b = Some (x, b2)" using Some by (cases e) simp
    note P = pop_best_law [OF inv pop] and Q = popped [OF inv pop]
    have q2: "quiet b2" using less.prems(2) by (simp add: quiet_def Q(1))
    let ?s = "tx_sender_id (pd_transaction x)"
    consider "?s \<in> set (be_invalid b)" | "?s \<notin> set (be_invalid b)" "skipped b x" | "?s \<notin> set (be_invalid b)" "\<not> skipped b x"
      by blast
    then show ?thesis
    proof cases
      case 1
      then have "next_tx_and_priority b = next_tx_and_priority b2"
        using new pop Q(3) by (subst next_tx_and_priority.simps) simp
      then show ?thesis using less.hyps [OF P(6,4) q2] yields_skip [OF _ pass_invalid [OF inv pop 1] P(6)] by metis
    next
      case 2
      let ?b = "be_mark_invalid (pd_transaction x) (unlock_best x b2)"
      have "next_tx_and_priority b = next_tx_and_priority ?b"
        using new pop Q(2,3) 2 by (subst next_tx_and_priority.simps) (simp add: skipped_def)
      moreover have "length (be_all ?b) < length (be_all b)" "be_inv ?b" "quiet ?b"
        using P(6) Q(4,5) q2 by (simp_all add: quiet_def)
      ultimately show ?thesis using less.hyps [of ?b] yields_skip [OF _ pass_blob [OF inv pop 2]] by metis
    next
      case 3
      let ?b = "if be_receiver (unlock_best x b2) = None then unlock_best x b2
                else (unlock_best x b2)\<lparr>be_last_priority := Some (priority x)\<rparr>"
      have "next_tx_and_priority b = Some (?b, Some (pd_transaction x, priority x))"
        using new pop Q(2,3) 3 by (subst next_tx_and_priority.simps) (auto simp: skipped_def Let_def)
      moreover have "yields b ?b (Some (pd_transaction x, priority x))"
        by (rule yields_best [OF inv pop 3]) (use Q(4,5) q2 in \<open>simp_all add: quiet_def\<close>)
      ultimately show ?thesis by blast
    qed
  qed
qed

section \<open>Iterators as their consumers see them\<close>

text \<open>\<open>Iterator::take\<close>: up to \<open>n\<close> transactions, fewer when the iterator ends before.\<close>

fun iter_take :: "('s \<Rightarrow> ('s \<times> valid_pool_tx option) option) \<Rightarrow> nat \<Rightarrow> 's \<Rightarrow> ('s \<times> valid_pool_tx list) option" where
  "iter_take nxt 0 s = Some (s, [])"
| "iter_take nxt (Suc n) s =
     do { (s1, r) \<leftarrow> nxt s;
          (case r of
             None \<Rightarrow> Some (s1, [])
           | Some t \<Rightarrow> do { (s2, ts) \<leftarrow> iter_take nxt n s1; Some (s2, t # ts) }) }"

text \<open>
  The interface: \<open>view\<close> is what an iterator will yield of each sender, \<open>len\<close> bounds how much it can still
  yield. A call of \<open>nxt\<close> returns; it takes the first transaction of some sender off the view, or there is none.
\<close>

locale best_iterator =
  fixes nxt :: "'s \<Rightarrow> ('s \<times> valid_pool_tx option) option"
    and valid :: "'s \<Rightarrow> bool"
    and len :: "'s \<Rightarrow> nat"
    and view :: "'s \<Rightarrow> SenderId \<Rightarrow> valid_pool_tx list"
  assumes nxt_law: "valid s \<Longrightarrow>
      \<exists>s' r. nxt s = Some (s', r) \<and> valid s' \<and>
        len s' \<le> len s \<and>
        (case r of
           None \<Rightarrow> \<forall>i. view s i = [] \<and> view s' i = []
         | Some t \<Rightarrow> len s' < len s \<and> view s = (view s')(tx_sender_id t := t # view s' (tx_sender_id t)))"
    and view_empty: "valid s \<Longrightarrow> len s = 0 \<Longrightarrow> view s i = []"
begin

lemma take_law:
  "valid s \<Longrightarrow> len s \<le> n \<Longrightarrow>
   \<exists>s' ts. iter_take nxt n s = Some (s', ts) \<and> (\<forall>i. filter (\<lambda>t. tx_sender_id t = i) ts = view s i)"
proof (induction n arbitrary: s)
  case 0
  then show ?case using view_empty by simp
next
  case (Suc n)
  obtain s1 r where nx: "nxt s = Some (s1, r)" "valid s1" "len s1 \<le> len s"
    and r: "case r of None \<Rightarrow> \<forall>i. view s i = [] \<and> view s1 i = []
      | Some t \<Rightarrow> len s1 < len s \<and> view s = (view s1)(tx_sender_id t := t # view s1 (tx_sender_id t))"
    using nxt_law [OF Suc.prems(1)] by blast
  show ?case
  proof (cases r)
    case None
    then show ?thesis using nx r by simp
  next
    case (Some t)
    then have "len s1 \<le> n" using r Suc.prems(2) by simp
    then obtain s2 ts where "iter_take nxt n s1 = Some (s2, ts)"
      and ts: "\<forall>i. filter (\<lambda>t. tx_sender_id t = i) ts = view s1 i"
      using Suc.IH [OF nx(2)] by blast
    then have "iter_take nxt (Suc n) s = Some (s2, t # ts)" using nx Some by simp
    moreover have "filter (\<lambda>t. tx_sender_id t = i) (t # ts) = view s i" for i using ts r Some by simp
    ultimately show ?thesis by blast
  qed
qed

end

text \<open>An iterator whose consumer can mark a transaction as invalid, after which its sender yields nothing.\<close>

locale markable_iterator = best_iterator +
  fixes mark :: "valid_pool_tx \<Rightarrow> 'a \<Rightarrow> 'a"
  assumes mark_law: "valid s \<Longrightarrow> valid (mark t s) \<and> len (mark t s) \<le> len s \<and> view (mark t s) = (view s)(tx_sender_id t := [])"
begin

lemma filter_law:
  "valid s \<Longrightarrow>
   \<exists>s' r. filter_next nxt mark pred s = Some (s', r) \<and> valid s' \<and> len s' \<le> len s \<and>
     (case r of
        None \<Rightarrow> \<forall>i. takeWhile pred (view s i) = [] \<and> takeWhile pred (view s' i) = []
      | Some t \<Rightarrow> len s' < len s \<and> pred t \<and>
          (\<lambda>i. takeWhile pred (view s i)) =
          (\<lambda>i. takeWhile pred (view s' i))(tx_sender_id t := t # takeWhile pred (view s' (tx_sender_id t))))"
proof (induction "len s" arbitrary: s rule: less_induct)
  case less
  obtain s1 r where nx: "nxt s = Some (s1, r)" "valid s1" "len s1 \<le> len s"
    and r: "case r of None \<Rightarrow> \<forall>i. view s i = [] \<and> view s1 i = []
      | Some t \<Rightarrow> len s1 < len s \<and> view s = (view s1)(tx_sender_id t := t # view s1 (tx_sender_id t))"
    using nxt_law [OF less.prems] by blast
  show ?case
  proof (cases r)
    case None
    then show ?thesis using nx r by (subst filter_next.simps) simp
  next
    case (Some t)
    show ?thesis
    proof (cases "pred t")
      case True
      then show ?thesis using nx r Some by (subst filter_next.simps) (simp add: fun_eq_iff)
    next
      case False
      note m = mark_law [OF nx(2), of t]
      have "filter_next nxt mark pred s = filter_next nxt mark pred (mark t s1)"
        using nx Some False by (subst filter_next.simps) simp
      moreover have "takeWhile pred (view (mark t s1) i) = takeWhile pred (view s i)" for i
        using m r Some False by simp
      moreover have "len (mark t s1) < len s" using m r Some by auto
      ultimately show ?thesis
        using less.hyps [of "mark t s1"] m less_trans by (fastforce split: option.splits)
    qed
  qed
qed

end

lemma outlook_empty:
  assumes "be_inv b" and "be_all b = []"
  shows "outlook b s = []"
proof (cases "lead b s")
  case (Some x)
  then show ?thesis using be_invD(6) [OF assms(1)] lead_iff [OF assms(1)] assms(2) by fastforce
qed (simp add: outlook_def)

lemma be_next_law:
  assumes "be_inv b" and "quiet b"
  shows "\<exists>b' r. be_next b = Some (b', r) \<and> (be_inv b' \<and> quiet b') \<and> length (be_all b') \<le> length (be_all b) \<and>
    (case r of
       None \<Rightarrow> \<forall>i. map pd_transaction (outlook b i) = [] \<and> map pd_transaction (outlook b' i) = []
     | Some t \<Rightarrow> length (be_all b') < length (be_all b) \<and>
         (\<lambda>i. map pd_transaction (outlook b i)) =
         (\<lambda>i. map pd_transaction (outlook b' i))(tx_sender_id t := t # map pd_transaction (outlook b' (tx_sender_id t))))"
proof -
  obtain b1 r where nx: "next_tx_and_priority b = Some (b1, r)" and y: "yields b b1 r"
    using next_law [OF assms] by blast
  show ?thesis
  proof (cases r)
    case None
    then show ?thesis using nx y by (simp add: be_next_def yields_def)
  next
    case (Some e)
    then show ?thesis using nx y by (cases e) (auto simp: be_next_def yields_def fun_eq_iff)
  qed
qed

interpretation best: markable_iterator be_next "\<lambda>b. be_inv b \<and> quiet b" "\<lambda>b. length (be_all b)"
  "\<lambda>b i. map pd_transaction (outlook b i)" be_mark_invalid
proof unfold_locales
  fix b t
  assume "be_inv b \<and> quiet b"
  then show "(be_inv (be_mark_invalid t b) \<and> quiet (be_mark_invalid t b)) \<and> length (be_all (be_mark_invalid t b)) \<le> length (be_all b) \<and>
    (\<lambda>i. map pd_transaction (outlook (be_mark_invalid t b) i)) = (\<lambda>i. map pd_transaction (outlook b i))(tx_sender_id t := [])"
    by (auto simp: quiet_def fun_eq_iff outlook_def skipped_def split: option.splits)
qed (use be_next_law outlook_empty in auto)

definition fees_view :: "best_with_fees \<Rightarrow> SenderId \<Rightarrow> valid_pool_tx list" where
  "fees_view w i =
     takeWhile (pays_fees (bf_base_fee w) (bf_base_fee_per_blob_gas w)) (map pd_transaction (outlook (bf_best w) i))"

interpretation fees: best_iterator bf_next "\<lambda>w. be_inv (bf_best w) \<and> quiet (bf_best w)"
  "\<lambda>w. length (be_all (bf_best w))" fees_view
proof unfold_locales
  fix w :: best_with_fees
  assume ok: "be_inv (bf_best w) \<and> quiet (bf_best w)"
  let ?pred = "pays_fees (bf_base_fee w) (bf_base_fee_per_blob_gas w)"
  have view: "fees_view w = (\<lambda>i. takeWhile ?pred (map pd_transaction (outlook (bf_best w) i)))"
    "fees_view (w\<lparr>bf_best := b\<rparr>) = (\<lambda>i. takeWhile ?pred (map pd_transaction (outlook b i)))" for b
    by (simp_all add: fun_eq_iff fees_view_def)
  obtain b r where b: "filter_next be_next be_mark_invalid ?pred (bf_best w) = Some (b, r)" "be_inv b" "quiet b"
      "length (be_all b) \<le> length (be_all (bf_best w))"
    and r: "case r of None \<Rightarrow> \<forall>i. fees_view w i = [] \<and> fees_view (w\<lparr>bf_best := b\<rparr>) i = []
      | Some t \<Rightarrow> length (be_all b) < length (be_all (bf_best w)) \<and> ?pred t \<and>
          fees_view w = (fees_view (w\<lparr>bf_best := b\<rparr>))(tx_sender_id t := t # fees_view (w\<lparr>bf_best := b\<rparr>) (tx_sender_id t))"
    unfolding view using best.filter_law [OF ok, of ?pred] by blast
  then show "\<exists>s' r. bf_next w = Some (s', r) \<and> (be_inv (bf_best s') \<and> quiet (bf_best s')) \<and>
      length (be_all (bf_best s')) \<le> length (be_all (bf_best w)) \<and>
      (case r of
         None \<Rightarrow> \<forall>i. fees_view w i = [] \<and> fees_view s' i = []
       | Some t \<Rightarrow> length (be_all (bf_best s')) < length (be_all (bf_best w)) \<and>
           fees_view w = (fees_view s')(tx_sender_id t := t # fees_view s' (tx_sender_id t)))"
    by (intro exI [of _ "w\<lparr>bf_best := b\<rparr>"] exI [of _ r]) (auto simp: bf_next_def split: option.splits)
next
  fix w :: best_with_fees and i
  assume "be_inv (bf_best w) \<and> quiet (bf_best w)" "length (be_all (bf_best w)) = 0"
  then show "fees_view w i = []" using outlook_empty by (simp add: fees_view_def)
qed

section \<open>The iterator of the pending pool\<close>

lemma fold_pending_set:
  "bsorted st \<Longrightarrow> distinct (map pending_key xs) \<Longrightarrow> \<forall>x \<in> set xs. map_of st (pending_key x) = None \<Longrightarrow>
   bsorted (fold pending_set_insert xs st) \<and>
   (\<forall>k x. map_of (fold pending_set_insert xs st) k = Some x \<longleftrightarrow> map_of st k = Some x \<or> x \<in> set xs \<and> pending_key x = k)"
proof (induction xs arbitrary: st)
  case (Cons y xs)
  let ?st = "pending_set_insert y st"
  have st: "?st = bins (pending_key y) y st" using Cons.prems(3) by (simp add: pending_set_insert_def)
  have "pending_key x \<noteq> pending_key y" if "x \<in> set xs" for x
    using Cons.prems(2) imageI [OF that, of pending_key] by auto
  then have "\<forall>x \<in> set xs. map_of ?st (pending_key x) = None"
    using Cons.prems(3) by (auto simp: st map_of_bins)
  then have "bsorted (fold pending_set_insert xs ?st) \<and>
      (\<forall>k x. map_of (fold pending_set_insert xs ?st) k = Some x \<longleftrightarrow> map_of ?st k = Some x \<or> x \<in> set xs \<and> pending_key x = k)"
    using Cons.IH [of ?st] Cons.prems(1,2) by (simp add: st bsorted_bins)
  moreover have "map_of ?st k = Some x \<longleftrightarrow> map_of st k = Some x \<or> x = y \<and> pending_key x = k" for k x
    using Cons.prems(3) by (auto simp: st map_of_bins)
  ultimately show ?case by auto
qed simp

lemma pending_keys_apart:
  assumes "pd_inv p" and "map_of (pd_by_id p) i = Some x" and "map_of (pd_by_id p) j = Some y" and "pending_key x = pending_key y"
  shows "i = j"
  using assms(4) by (intro pd_invD(4) [OF assms(1-3)]) (simp add: pending_key_def)

lemma pd_best_independent:
  assumes inv: "pd_inv p"
  shows "bsorted (be_independent (pd_best p))"
    and "map_of (be_independent (pd_best p)) k = Some x \<longleftrightarrow>
      map_of (independent_transactions p) (tx_sender_id (pd_transaction x)) = Some x \<and> pending_key x = k"
proof -
  have sorted: "bsorted (independent_transactions p)"
    and own: "\<And>s x. map_of (independent_transactions p) s = Some x \<Longrightarrow>
        tx_sender_id (pd_transaction x) = s \<and> map_of (pd_by_id p) (transaction_id (pd_transaction x)) = Some x"
    using pd_invD(1) [OF inv] unfolding pd_maps_ok_def by blast+
  have mem: "(s, x) \<in> set (independent_transactions p) \<longleftrightarrow> map_of (independent_transactions p) s = Some x" for s x
    by (rule in_set_map_of [OF sorted])
  have "inj_on (pending_key \<circ> snd) (set (independent_transactions p))"
  proof (rule inj_onI, clarify)
    fix s x s' y
    assume "(s, x) \<in> set (independent_transactions p)" "(s', y) \<in> set (independent_transactions p)"
      and key: "(pending_key \<circ> snd) (s, x) = (pending_key \<circ> snd) (s', y)"
    then have xy: "tx_sender_id (pd_transaction x) = s" "map_of (pd_by_id p) (transaction_id (pd_transaction x)) = Some x"
      "tx_sender_id (pd_transaction y) = s'" "map_of (pd_by_id p) (transaction_id (pd_transaction y)) = Some y"
      using own mem by blast+
    have "transaction_id (pd_transaction x) = transaction_id (pd_transaction y)"
      by (rule pending_keys_apart [OF inv xy(2,4)]) (use key in simp)
    then have "x = y" using xy(2,4) by (metis option.inject)
    then show "s = s' \<and> x = y" using xy(1,3) by simp
  qed
  then have dist: "distinct (map pending_key (map snd (independent_transactions p)))"
    using bsorted_distinct [OF sorted] by (simp add: distinct_map comp_def)
  have F: "bsorted (be_independent (pd_best p)) \<and> (\<forall>k x. map_of (be_independent (pd_best p)) k = Some x \<longleftrightarrow>
      map_of [] k = Some x \<or> x \<in> set (map snd (independent_transactions p)) \<and> pending_key x = k)"
    using fold_pending_set [OF _ dist, of "[]"] by (simp add: pd_best_def)
  show "bsorted (be_independent (pd_best p))" using F by blast
  have "x \<in> snd ` set (independent_transactions p) \<longleftrightarrow>
      map_of (independent_transactions p) (tx_sender_id (pd_transaction x)) = Some x"
    using mem own by force
  then show "map_of (be_independent (pd_best p)) k = Some x \<longleftrightarrow>
      map_of (independent_transactions p) (tx_sender_id (pd_transaction x)) = Some x \<and> pending_key x = k"
    using spec [OF spec [OF conjunct2 [OF F], of k], of x] by simp
qed

lemma pd_best_law:
  assumes inv: "pd_inv p"
  shows "be_inv (pd_best p)" and "quiet (pd_best p)" and "be_all (pd_best p) = pd_by_id p"
    and "lead (pd_best p) s = map_of (independent_transactions p) s"
proof -
  note I = pd_best_independent [OF inv]
  have own: "\<And>s x. map_of (independent_transactions p) s = Some x \<Longrightarrow>
        tx_sender_id (pd_transaction x) = s \<and> map_of (pd_by_id p) (transaction_id (pd_transaction x)) = Some x"
    using pd_invD(1) [OF inv] unfolding pd_maps_ok_def by blast
  have ids: "map_of (pd_by_id p) i = Some x \<Longrightarrow> transaction_id (pd_transaction x) = i" for i x
    using pd_invD(1) [OF inv] unfolding pd_maps_ok_def by blast
  show all: "be_all (pd_best p) = pd_by_id p" and "quiet (pd_best p)" by (simp_all add: pd_best_def quiet_def)
  show binv: "be_inv (pd_best p)"
  proof (rule be_invI, unfold all)
    show "bsorted (pd_by_id p)" "bsorted (be_independent (pd_best p))" using pd_invD(5) [OF inv] I(1) by blast+
    show "map_of (pd_by_id p) (transaction_id (pd_transaction x)) = Some x" if "map_of (be_independent (pd_best p)) k = Some x" for k x
      using that own unfolding I(2) by blast
    show "x = y" if "map_of (be_independent (pd_best p)) k = Some x" "map_of (be_independent (pd_best p)) l = Some y"
        "tx_sender_id (pd_transaction x) = tx_sender_id (pd_transaction y)" for k l x y
    proof -
      have "map_of (independent_transactions p) (tx_sender_id (pd_transaction x)) = Some x"
        "map_of (independent_transactions p) (tx_sender_id (pd_transaction y)) = Some y"
        using that(1,2) unfolding I(2) by blast+
      then show ?thesis using that(3) by (metis option.inject)
    qed
    show "pending_key x = k" if "map_of (be_independent (pd_best p)) k = Some x" for k x using that unfolding I(2) by blast
  qed (fact ids, fact pending_keys_apart [OF inv])
  show "lead (pd_best p) s = map_of (independent_transactions p) s"
    by (rule option_eqI) (use own in \<open>auto simp: lead_iff [OF binv] I(2)\<close>)
qed

lemma pd_best_outlook:
  assumes "pd_inv p"
  shows "outlook (pd_best p) s =
    (case map_of (independent_transactions p) s of
       None \<Rightarrow> [] | Some x \<Rightarrow> run_of (pd_by_id p) (transaction_id (pd_transaction x)))"
proof -
  have "be_invalid (pd_best p) = []" "be_skip_blobs (pd_best p) = False" by (simp_all add: pd_best_def)
  then show ?thesis
    by (simp add: outlook_def pd_best_law [OF assms] skipped_def takeWhile_eq_all_conv split: option.splits)
qed

section \<open>Properties\<close>

text \<open>
  C14: draining the iterator of a pool yields of each sender exactly the run of consecutive nonces that starts at
  the sender's independent transaction, in ascending order, the nonce growing by one each time; nothing else
  is yielded.
\<close>

theorem best_yields_runs:
  assumes "tp_inv p" and "pd_len (tp_pending p) \<le> n"
  shows "\<exists>b ts. iter_take be_next n (tp_best_transactions p) = Some (b, ts) \<and>
    (\<forall>s. case map_of (independent_transactions (tp_pending p)) s of
       None \<Rightarrow> filter (\<lambda>t. tx_sender_id t = s) ts = []
     | Some x \<Rightarrow>
         filter (\<lambda>t. tx_sender_id t = s) ts =
           map pd_transaction (run_of (pd_by_id (tp_pending p)) (transaction_id (pd_transaction x))) \<and>
         (\<forall>k < length (filter (\<lambda>t. tx_sender_id t = s) ts).
            transaction_id (filter (\<lambda>t. tx_sender_id t = s) ts ! k) =
              TransactionId s (nonce (transaction_id (pd_transaction x)) + of_nat k)))"
proof -
  let ?q = "tp_pending p"
  have inv: "pd_inv ?q" using subpools_invD(4) [OF tp_invD(1) [OF assms(1)]] .
  note B = pd_best_law [OF inv]
  have len: "length (be_all (pd_best ?q)) \<le> n" using assms(2) by (simp add: B(3) pd_len_def)
  obtain b ts where run: "iter_take be_next n (pd_best ?q) = Some (b, ts)"
    and ts: "\<forall>s. filter (\<lambda>t. tx_sender_id t = s) ts = map pd_transaction (outlook (pd_best ?q) s)"
    using best.take_law [OF conjI [OF B(1,2)] len] by blast
  note out = pd_best_outlook [OF inv]
  have own: "map_of (pd_by_id ?q) i = Some x \<Longrightarrow> transaction_id (pd_transaction x) = i" for i x
    using be_invD(3) [OF B(1)] by (simp add: B(3))
  have snd: "sender (transaction_id (pd_transaction x)) = s" if "map_of (independent_transactions ?q) s = Some x" for s x
    using lead_iff [OF B(1), of s x] that by (simp add: B(4) tx_sender_id_def)
  show ?thesis
    unfolding tp_best_transactions_def using run ts run_of_nonces [OF own] snd
    by (auto simp: out split: option.splits)
qed

lemma example_pending_run:
  "map_option pd_transaction (map_of (independent_transactions (tp_pending example_pool)) 1) = Some (example_tx 1 0 5 1000 10)"
  "map pd_transaction (run_of (pd_by_id (tp_pending example_pool)) (TransactionId 1 0)) =
     [example_tx 1 0 5 1000 10, example_tx 1 1 5 50 10]"
  "pd_len (tp_pending example_pool) = 2"
  by (simp_all add: example_pool_def example_ops_def example_defs pool_eval run_of.simps descendant_def next_nonce_def
      del: remove_descendants.simps cong: let_weak_cong bind_weak_cong)

theorem best_yields_runs_witness:
  "\<exists>b ts. iter_take be_next 2 (tp_best_transactions example_pool) = Some (b, ts) \<and>
     filter (\<lambda>t. tx_sender_id t = 1) ts = [example_tx 1 0 5 1000 10, example_tx 1 1 5 50 10]"
proof -
  have len: "pd_len (tp_pending example_pool) \<le> 2" by (simp add: example_pending_run(3))
  obtain x where x: "map_of (independent_transactions (tp_pending example_pool)) 1 = Some x"
      "pd_transaction x = example_tx 1 0 5 1000 10"
    using example_pending_run(1) by blast
  obtain b ts where run: "iter_take be_next 2 (tp_best_transactions example_pool) = Some (b, ts)"
    and ts: "\<forall>s. case map_of (independent_transactions (tp_pending example_pool)) s of
       None \<Rightarrow> filter (\<lambda>t. tx_sender_id t = s) ts = []
     | Some x \<Rightarrow>
         filter (\<lambda>t. tx_sender_id t = s) ts =
           map pd_transaction (run_of (pd_by_id (tp_pending example_pool)) (transaction_id (pd_transaction x)))"
    using best_yields_runs [OF example_pool_run(2) len] by (fastforce split: option.splits)
  have "filter (\<lambda>t. tx_sender_id t = 1) ts = [example_tx 1 0 5 1000 10, example_tx 1 1 5 50 10]"
    using spec [OF ts, of 1] by (simp add: x example_pending_run(2))
  then show ?thesis using run by blast
qed

text \<open>
  C15: with no messages waiting, \<open>next_tx_and_priority\<close> returns. It ends when no sender has anything left to yield;
  otherwise it yields the first transaction of some sender, and no other sender's first transaction has a
  higher priority.
\<close>

theorem best_next_highest:
  assumes "be_inv b" and "quiet b"
  shows "\<exists>b' r. next_tx_and_priority b = Some (b', r) \<and> be_inv b' \<and> quiet b' \<and>
    (case r of
       None \<Rightarrow> \<forall>s. outlook b s = []
     | Some (t, pr) \<Rightarrow>
         (\<exists>x. pd_transaction x = t \<and> priority x = pr \<and> outlook b (tx_sender_id t) = x # outlook b' (tx_sender_id t)) \<and>
         (\<forall>s y ys. outlook b s = y # ys \<longrightarrow> priority y \<le> pr))"
proof -
  obtain b' r where nx: "next_tx_and_priority b = Some (b', r)" and y: "yields b b' r" using next_law [OF assms] by blast
  have le: "pending_key v \<le> pending_key w \<Longrightarrow> priority v \<le> priority w" for v w
    by (auto simp: pending_key_def less_eq_prod_def)
  show ?thesis
  proof (cases r)
    case None
    then show ?thesis using nx y by (simp add: yields_def)
  next
    case (Some e)
    then obtain t pr x where e: "r = Some (t, pr)" "pd_transaction x = t" "priority x = pr"
        "outlook b = (outlook b')(tx_sender_id t := x # outlook b' (tx_sender_id t))"
        "\<forall>s y ys. outlook b s = y # ys \<longrightarrow> pending_key y \<le> pending_key x"
      using y by (cases e) (auto simp: yields_def)
    then show ?thesis using nx y le by (fastforce simp: yields_def)
  qed
qed

theorem best_next_highest_witness:
  "\<exists>b' r. next_tx_and_priority (pd_best example_pending) = Some (b', r) \<and> be_inv b' \<and> quiet b'"
  using best_next_highest [OF pd_best_law(1,2) [OF example_pending_inv]] by blast

text \<open>
  C16: the iterator for given fees only yields transactions whose fee cap covers the base fee and whose blob fee cap,
  if they have one, covers the blob fee, and of each sender the part of the run before the first transaction
  for which this does not hold.
\<close>

theorem fees_iterator_pays:
  assumes "tp_inv p" and "pd_len (tp_pending p) \<le> n"
  shows "\<exists>w ts. iter_take bf_next n (best_with_basefee_and_blobfee basefee blobfee (tp_pending p)) = Some (w, ts) \<and>
    list_all (pays_fees basefee blobfee) ts \<and>
    (\<forall>t \<in> set ts. ucast basefee \<le> max_fee_per_gas t \<and> (\<forall>f. max_fee_per_blob_gas t = Some f \<longrightarrow> ucast blobfee \<le> f)) \<and>
    (\<forall>s. filter (\<lambda>t. tx_sender_id t = s) ts =
       (case map_of (independent_transactions (tp_pending p)) s of
          None \<Rightarrow> []
        | Some x \<Rightarrow> takeWhile (pays_fees basefee blobfee)
            (map pd_transaction (run_of (pd_by_id (tp_pending p)) (transaction_id (pd_transaction x))))))"
proof -
  let ?w = "best_with_basefee_and_blobfee basefee blobfee (tp_pending p)"
  have inv: "pd_inv (tp_pending p)" using subpools_invD(4) [OF tp_invD(1) [OF assms(1)]] .
  note B = pd_best_law [OF inv]
  have best: "bf_best ?w = pd_best (tp_pending p)" by (simp add: best_with_basefee_and_blobfee_def)
  have ok: "be_inv (bf_best ?w) \<and> quiet (bf_best ?w)" "length (be_all (bf_best ?w)) \<le> n"
    using B(1,2) assms(2) by (simp_all add: best B(3) pd_len_def)
  have view: "fees_view ?w s =
      (case map_of (independent_transactions (tp_pending p)) s of
          None \<Rightarrow> []
        | Some x \<Rightarrow> takeWhile (pays_fees basefee blobfee)
            (map pd_transaction (run_of (pd_by_id (tp_pending p)) (transaction_id (pd_transaction x)))))" for s
    by (simp add: fees_view_def best pd_best_outlook [OF inv] best_with_basefee_and_blobfee_def split: option.splits)
  obtain w ts where run: "iter_take bf_next n ?w = Some (w, ts)"
    and ts: "\<forall>s. filter (\<lambda>t. tx_sender_id t = s) ts = fees_view ?w s"
    using fees.take_law [OF ok] by blast
  have all: "pays_fees basefee blobfee t" if "t \<in> set ts" for t
  proof -
    have "t \<in> set (filter (\<lambda>u. tx_sender_id u = tx_sender_id t) ts)" using that by simp
    then have "t \<in> set (fees_view ?w (tx_sender_id t))" unfolding spec [OF ts, of "tx_sender_id t"] .
    then show ?thesis unfolding view by (auto split: option.splits dest: set_takeWhileD)
  qed
  have "ucast basefee \<le> max_fee_per_gas t \<and> (\<forall>f. max_fee_per_blob_gas t = Some f \<longrightarrow> ucast blobfee \<le> f)"
    if "t \<in> set ts" for t using all [OF that] by (auto simp: pays_fees_def)
  then show ?thesis using run ts view all by (auto simp: list_all_iff)
qed

theorem fees_iterator_pays_witness:
  "\<exists>w ts. iter_take bf_next 2 (best_with_basefee_and_blobfee 60 1 (tp_pending example_pool)) = Some (w, ts) \<and>
     list_all (pays_fees 60 1) ts"
proof -
  have "pd_len (tp_pending example_pool) \<le> 2" by (simp add: example_pending_run(3))
  then show ?thesis using fees_iterator_pays [OF example_pool_run(2), of 2 60 1] by blast
qed

end
