(* ===== verification/Prioritized_Senders.thy ===== *)
theory Prioritized_Senders
  imports Best_Laws
begin

text \<open>
  \<open>BestTransactionsWithPrioritizedSenders\<close> (\<open>pool/best.rs\<close>), the wrapper that lets the transactions of some
  senders go first as long as they fit into a given amount of gas. Shown: it yields the same transactions as
  the iterator below; the order is that of a definition by two passes over what the iterator below yields;
  what goes first keeps to the gas; and two consequences that the callers of the iterator do not expect, for
  the order of the nonces of a sender and for transactions that were marked as invalid.
\<close>

section \<open>Nothing is lost\<close>

text \<open>What a wrapper for prioritized senders holds of each sender, in its buffer or in the iterator below.\<close>

definition pr_held :: "('s \<Rightarrow> SenderId \<Rightarrow> valid_pool_tx list) \<Rightarrow> 's prioritized \<Rightarrow> SenderId \<Rightarrow> valid_pool_tx multiset" where
  "pr_held view w i = mset (filter (\<lambda>t. tx_sender_id t = i) (pr_buffer w)) + mset (view (pr_inner w) i)"

definition pr_left :: "('s \<Rightarrow> nat) \<Rightarrow> 's prioritized \<Rightarrow> nat" where
  "pr_left len w = len (pr_inner w) + length (pr_buffer w)"

context best_iterator
begin

lemma prioritize_loop_law:
  "valid (pr_inner w) \<Longrightarrow>
   \<exists>w' r. prioritize_loop nxt w = Some (w', r) \<and> valid (pr_inner w') \<and> pr_left len w' \<le> pr_left len w \<and>
     (case r of
        None \<Rightarrow> pr_held view w' = pr_held view w \<and> (\<forall>i. view (pr_inner w') i = [])
      | Some t \<Rightarrow> pr_left len w' < pr_left len w \<and>
          pr_held view w = (pr_held view w')(tx_sender_id t := add_mset t (pr_held view w' (tx_sender_id t))))"
proof (induction "len (pr_inner w)" arbitrary: w rule: less_induct)
  case less
  obtain s1 r where nx: "nxt (pr_inner w) = Some (s1, r)" "valid s1" "len s1 \<le> len (pr_inner w)"
    and r: "case r of None \<Rightarrow> \<forall>i. view (pr_inner w) i = [] \<and> view s1 i = []
      | Some t \<Rightarrow> len s1 < len (pr_inner w) \<and>
          view (pr_inner w) = (view s1)(tx_sender_id t := t # view s1 (tx_sender_id t))"
    using nxt_law [OF less.prems] by blast
  show ?case
  proof (cases r)
    case None
    then show ?thesis using nx r by (subst prioritize_loop.simps) (simp add: fun_eq_iff pr_held_def pr_left_def)
  next
    case (Some t)
    show ?thesis
    proof (cases "takes_priority w t")
      case True
      then show ?thesis using nx r Some
        by (subst prioritize_loop.simps) (simp add: fun_eq_iff pr_held_def pr_left_def)
    next
      case False
      let ?w = "w\<lparr>pr_inner := s1, pr_buffer := pr_buffer w @ [t]\<rparr>"
      have "prioritize_loop nxt w = prioritize_loop nxt ?w"
        using nx Some False by (subst prioritize_loop.simps) simp
      moreover have "pr_held view ?w = pr_held view w" using r Some by (auto simp: fun_eq_iff pr_held_def)
      moreover have "pr_left len ?w \<le> pr_left len w" using r Some by (simp add: pr_left_def)
      ultimately show ?thesis using less.hyps [of ?w] nx(2) r Some by (fastforce split: option.splits)
    qed
  qed
qed

lemma pr_rest_law:
  assumes "valid (pr_inner w)"
  shows "\<exists>w' r. (case pr_buffer w of
       t # ts \<Rightarrow> Some (w\<lparr>pr_buffer := ts\<rparr>, Some t)
     | [] \<Rightarrow> do { (s, r') \<leftarrow> nxt (pr_inner w); Some (w\<lparr>pr_inner := s\<rparr>, r') }) = Some (w', r) \<and>
     valid (pr_inner w') \<and>
     (case r of
        None \<Rightarrow> \<forall>i. pr_held view w i = {#}
      | Some t \<Rightarrow> pr_left len w' < pr_left len w \<and>
          pr_held view w = (pr_held view w')(tx_sender_id t := add_mset t (pr_held view w' (tx_sender_id t))))"
proof (cases "pr_buffer w")
  case (Cons t ts)
  then show ?thesis using assms by (auto simp: pr_held_def pr_left_def fun_eq_iff)
next
  case Nil
  obtain s1 r where nx: "nxt (pr_inner w) = Some (s1, r)" "valid s1"
    and r: "case r of None \<Rightarrow> \<forall>i. view (pr_inner w) i = [] \<and> view s1 i = []
      | Some t \<Rightarrow> len s1 < len (pr_inner w) \<and>
          view (pr_inner w) = (view s1)(tx_sender_id t := t # view s1 (tx_sender_id t))"
    using nxt_law [OF assms] by blast
  then show ?thesis using Nil by (cases r) (simp_all add: pr_held_def pr_left_def fun_eq_iff)
qed

lemma prioritized_next_law:
  assumes "valid (pr_inner w)"
  shows "\<exists>w' r. prioritized_next nxt w = Some (w', r) \<and> valid (pr_inner w') \<and>
     (case r of
        None \<Rightarrow> \<forall>i. pr_held view w i = {#}
      | Some t \<Rightarrow> pr_left len w' < pr_left len w \<and>
          pr_held view w = (pr_held view w')(tx_sender_id t := add_mset t (pr_held view w' (tx_sender_id t))))"
proof -
  obtain w1 r where w1: "(if pr_gas w < pr_max_gas w then prioritize_loop nxt w else Some (w, None)) = Some (w1, r)"
      "valid (pr_inner w1)" "pr_left len w1 \<le> pr_left len w"
    and r: "case r of None \<Rightarrow> pr_held view w1 = pr_held view w
      | Some t \<Rightarrow> pr_left len w1 < pr_left len w \<and>
          pr_held view w = (pr_held view w1)(tx_sender_id t := add_mset t (pr_held view w1 (tx_sender_id t)))"
  proof (cases "pr_gas w < pr_max_gas w")
    case True
    then show thesis using prioritize_loop_law [OF assms] that by (fastforce split: option.splits)
  next
    case False
    then show thesis using that [of w None] assms by simp
  qed
  show ?thesis
  proof (cases r)
    case (Some t)
    then show ?thesis using w1 r by (simp add: prioritized_next_def)
  next
    case None
    then have "prioritized_next nxt w = (case pr_buffer w1 of
         t # ts \<Rightarrow> Some (w1\<lparr>pr_buffer := ts\<rparr>, Some t)
       | [] \<Rightarrow> do { (s, r') \<leftarrow> nxt (pr_inner w1); Some (w1\<lparr>pr_inner := s\<rparr>, r') })"
      using w1(1) by (simp add: prioritized_next_def)
    then show ?thesis using pr_rest_law [OF w1(2)] r None w1(3) by (fastforce split: option.splits)
  qed
qed

lemma prioritized_take_law:
  "valid (pr_inner w) \<Longrightarrow> pr_left len w \<le> n \<Longrightarrow>
   \<exists>w' ts. iter_take (prioritized_next nxt) n w = Some (w', ts) \<and>
     (\<forall>i. mset (filter (\<lambda>t. tx_sender_id t = i) ts) = pr_held view w i)"
proof (induction n arbitrary: w)
  case 0
  then show ?case using view_empty by (simp add: pr_left_def pr_held_def)
next
  case (Suc n)
  obtain w1 r where nx: "prioritized_next nxt w = Some (w1, r)" "valid (pr_inner w1)"
    and r: "case r of None \<Rightarrow> \<forall>i. pr_held view w i = {#}
      | Some t \<Rightarrow> pr_left len w1 < pr_left len w \<and>
          pr_held view w = (pr_held view w1)(tx_sender_id t := add_mset t (pr_held view w1 (tx_sender_id t)))"
    using prioritized_next_law [OF Suc.prems(1)] by blast
  show ?case
  proof (cases r)
    case None
    then show ?thesis using nx r by simp
  next
    case (Some t)
    then have "pr_left len w1 \<le> n" using r Suc.prems(2) by simp
    then obtain w2 ts where "iter_take (prioritized_next nxt) n w1 = Some (w2, ts)"
      and ts: "\<forall>i. mset (filter (\<lambda>t. tx_sender_id t = i) ts) = pr_held view w1 i"
      using Suc.IH [OF nx(2)] by blast
    then have "iter_take (prioritized_next nxt) (Suc n) w = Some (w2, t # ts)" using nx Some by simp
    moreover have "mset (filter (\<lambda>t. tx_sender_id t = i) (t # ts)) = pr_held view w i" for i using ts r Some by simp
    ultimately show ?thesis by blast
  qed
qed

end

section \<open>The order, by two passes\<close>

text \<open>
  Of the transactions that the iterator below yields, \<open>first_choice\<close> are the ones that go first: those of the
  given senders that fit into the gas that is left, until all of it is used. \<open>passed_over\<close> are the others.
  Sums of gas wrap around, as in the code.
\<close>

definition may_go_first :: "Address list \<Rightarrow> u64 \<Rightarrow> u64 \<Rightarrow> valid_pool_tx \<Rightarrow> bool" where
  "may_go_first senders max_gas gas t \<longleftrightarrow>
     gas < max_gas \<and> pt_sender (vp_transaction t) \<in> set senders \<and> gas + tx_gas_limit t \<le> max_gas"

fun first_choice :: "Address list \<Rightarrow> u64 \<Rightarrow> u64 \<Rightarrow> valid_pool_tx list \<Rightarrow> valid_pool_tx list" where
  "first_choice senders max_gas gas [] = []"
| "first_choice senders max_gas gas (t # ts) =
     (if may_go_first senders max_gas gas t then t # first_choice senders max_gas (gas + tx_gas_limit t) ts
      else first_choice senders max_gas gas ts)"

fun passed_over :: "Address list \<Rightarrow> u64 \<Rightarrow> u64 \<Rightarrow> valid_pool_tx list \<Rightarrow> valid_pool_tx list" where
  "passed_over senders max_gas gas [] = []"
| "passed_over senders max_gas gas (t # ts) =
     (if may_go_first senders max_gas gas t then passed_over senders max_gas (gas + tx_gas_limit t) ts
      else t # passed_over senders max_gas gas ts)"

lemma choice_spent:
  assumes "\<not> gas < max_gas"
  shows "first_choice senders max_gas gas ts = []" and "passed_over senders max_gas gas ts = ts"
  using assms by (induction ts) (auto simp: may_go_first_def)


lemma choice_mset: "mset (first_choice senders max_gas gas ts) + mset (passed_over senders max_gas gas ts) = mset ts"
  by (induction ts arbitrary: gas) auto

lemma choice_senders: "t \<in> set (first_choice senders max_gas gas ts) \<Longrightarrow> pt_sender (vp_transaction t) \<in> set senders"
  by (induction ts arbitrary: gas) (auto simp: may_go_first_def split: if_splits)

lemma choice_gas:
  assumes "\<forall>t \<in> set ts. unat max_gas + unat (tx_gas_limit t) < 2 ^ 64" and "gas \<le> max_gas"
  shows "unat gas + (\<Sum>t\<leftarrow>first_choice senders max_gas gas ts. unat (tx_gas_limit t)) \<le> unat max_gas"
  using assms
proof (induction ts arbitrary: gas)
  case (Cons t ts)
  show ?case
  proof (cases "may_go_first senders max_gas gas t")
    case True
    have "unat gas \<le> unat max_gas" using Cons.prems(2) by (simp add: word_le_nat_alt)
    moreover have "unat max_gas + unat (tx_gas_limit t) < 2 ^ 64" using Cons.prems(1) by simp
    ultimately have "unat gas + unat (tx_gas_limit t) < 2 ^ 64" by linarith
    then have "unat (gas + tx_gas_limit t) = unat gas + unat (tx_gas_limit t)" by (simp add: unat_word_ariths)
    then show ?thesis using Cons.IH [of "gas + tx_gas_limit t"] Cons.prems(1) True by (simp add: may_go_first_def)
  next
    case False
    then show ?thesis using Cons by simp
  qed
qed (simp add: word_le_nat_alt)

section \<open>The wrapper follows it\<close>

text \<open>\<open>drains nxt s ts\<close>: from the state \<open>s\<close> on an iterator yields the transactions \<open>ts\<close> and then ends.\<close>

inductive drains :: "('s \<Rightarrow> ('s \<times> valid_pool_tx option) option) \<Rightarrow> 's \<Rightarrow> valid_pool_tx list \<Rightarrow> bool"
  for nxt where
  drains_end: "nxt s = Some (s', None) \<Longrightarrow> drains nxt s []"
| drains_step: "nxt s = Some (s', Some t) \<Longrightarrow> drains nxt s' ts \<Longrightarrow> drains nxt s (t # ts)"

inductive_cases drains_NilE: "drains nxt s []"
inductive_cases drains_ConsE: "drains nxt s (t # ts)"

text \<open>What a wrapper yields that has \<open>ts\<close> below it.\<close>

definition pr_order :: "'s prioritized \<Rightarrow> valid_pool_tx list \<Rightarrow> valid_pool_tx list" where
  "pr_order w ts =
     first_choice (pr_senders w) (pr_max_gas w) (pr_gas w) ts @ pr_buffer w @
     passed_over (pr_senders w) (pr_max_gas w) (pr_gas w) ts"

lemma length_pr_order: "length (pr_order w ts) = length (pr_buffer w) + length ts"
  unfolding pr_order_def using choice_mset [of "pr_senders w" "pr_max_gas w" "pr_gas w" ts, THEN arg_cong, of size] by simp

context best_iterator
begin

lemma drains_take:
  "valid s \<Longrightarrow> len s \<le> n \<Longrightarrow> iter_take nxt n s = Some (s', ts) \<Longrightarrow> drains nxt s ts"
proof (induction n arbitrary: s ts)
  case 0
  then obtain s1 r where "nxt s = Some (s1, r)" "len s1 \<le> len s"
    "case r of None \<Rightarrow> True | Some t \<Rightarrow> len s1 < len s"
    using nxt_law [OF 0(1)] by (fastforce split: option.splits)
  then show ?case using 0 by (auto intro: drains_end split: option.splits)
next
  case (Suc n)
  obtain s1 r where nx: "nxt s = Some (s1, r)" "valid s1" "case r of None \<Rightarrow> True | Some t \<Rightarrow> len s1 < len s"
    using nxt_law [OF Suc.prems(1)] by (fastforce split: option.splits)
  show ?case
  proof (cases r)
    case None
    then show ?thesis using Suc.prems nx by (auto intro: drains_end)
  next
    case (Some t)
    then show ?thesis using Suc.prems nx Suc.IH [OF nx(2)] by (auto intro!: drains_step split: bind_splits)
  qed
qed

lemma drains_over:
  assumes "valid s" and "nxt s = Some (s', None)"
  shows "valid s'" and "drains nxt s' []"
proof -
  show ok: "valid s'" using nxt_law [OF assms(1)] assms(2) by auto
  have empty: "view s' i = []" for i using nxt_law [OF assms(1)] assms(2) by auto
  obtain s2 r where nx: "nxt s' = Some (s2, r)"
      "case r of None \<Rightarrow> True | Some t \<Rightarrow> view s' = (view s2)(tx_sender_id t := t # view s2 (tx_sender_id t))"
    using nxt_law [OF ok] by (fastforce split: option.splits)
  have "r = None"
  proof (rule ccontr)
    assume "r \<noteq> None"
    then obtain t where "view s' = (view s2)(tx_sender_id t := t # view s2 (tx_sender_id t))" using nx(2) by auto
    then have "view s' (tx_sender_id t) = t # view s2 (tx_sender_id t)" by simp
    then show False by (simp add: empty)
  qed
  then show "drains nxt s' []" using nx(1) by (auto intro: drains_end)
qed

lemma prioritize_loop_order:
  assumes "valid (pr_inner w)" and "drains nxt (pr_inner w) ts" and "pr_gas w < pr_max_gas w"
  shows "\<exists>w' r ts'. prioritize_loop nxt w = Some (w', r) \<and> valid (pr_inner w') \<and> drains nxt (pr_inner w') ts' \<and>
    (case r of None \<Rightarrow> ts' = [] \<and> pr_buffer w' = pr_order w ts | Some t \<Rightarrow> pr_order w ts = t # pr_order w' ts')"
  using assms
proof (induction ts arbitrary: w)
  case Nil
  then obtain s' where s': "nxt (pr_inner w) = Some (s', None)" by (auto elim: drains_NilE)
  then show ?case
    using drains_over [OF Nil.prems(1) s'] by (subst prioritize_loop.simps) (auto simp: pr_order_def)
next
  case (Cons t ts)
  from Cons.prems(2) obtain s' where s': "nxt (pr_inner w) = Some (s', Some t)" "drains nxt s' ts"
    by (auto elim: drains_ConsE)
  have ok: "valid s'" using nxt_law [OF Cons.prems(1)] s'(1) by auto
  have takes: "takes_priority w t \<longleftrightarrow> may_go_first (pr_senders w) (pr_max_gas w) (pr_gas w) t"
    using Cons.prems(3) by (simp add: takes_priority_def may_go_first_def)
  show ?case
  proof (cases "takes_priority w t")
    case True
    then show ?thesis using s' ok takes by (subst prioritize_loop.simps) (auto simp: pr_order_def)
  next
    case False
    let ?w = "w\<lparr>pr_inner := s', pr_buffer := pr_buffer w @ [t]\<rparr>"
    have "prioritize_loop nxt w = prioritize_loop nxt ?w" using s'(1) False by (subst prioritize_loop.simps) simp
    moreover have eq: "pr_order w (t # ts) = pr_order ?w ts" using False takes by (simp add: pr_order_def)
    ultimately show ?thesis using Cons.IH [of ?w] s'(2) ok Cons.prems(3) unfolding eq by simp
  qed
qed

lemma pr_rest_order:
  assumes "drains nxt (pr_inner w) ts" and "valid (pr_inner w)"
    and "pr_gas w < pr_max_gas w \<longrightarrow> ts = []"
  shows "\<exists>w' r ts'. (case pr_buffer w of
       t # us \<Rightarrow> Some (w\<lparr>pr_buffer := us\<rparr>, Some t)
     | [] \<Rightarrow> do { (s, r') \<leftarrow> nxt (pr_inner w); Some (w\<lparr>pr_inner := s\<rparr>, r') }) = Some (w', r) \<and>
     valid (pr_inner w') \<and> drains nxt (pr_inner w') ts' \<and>
     (case r of None \<Rightarrow> pr_buffer w @ ts = [] | Some t \<Rightarrow> pr_buffer w @ ts = t # pr_order w' ts')"
proof (cases "pr_buffer w")
  case (Cons t us)
  have "pr_order (w\<lparr>pr_buffer := us\<rparr>) ts = us @ ts"
    using assms(3) by (cases "pr_gas w < pr_max_gas w") (simp_all add: pr_order_def choice_spent)
  then show ?thesis using Cons assms(1,2) by auto
next
  case Nil
  show ?thesis
  proof (cases ts)
    case Nil': Nil
    then obtain s' where s': "nxt (pr_inner w) = Some (s', None)" using assms(1) by (auto elim: drains_NilE)
    then show ?thesis using Nil Nil' drains_over [OF assms(2) s'] by auto
  next
    case (Cons t ts')
    then obtain s' where s': "nxt (pr_inner w) = Some (s', Some t)" "drains nxt s' ts'"
      using assms(1) by (auto elim: drains_ConsE)
    have "valid s'" using nxt_law [OF assms(2)] s'(1) by auto
    moreover have "pr_order (w\<lparr>pr_inner := s'\<rparr>) ts' = ts'" using assms(3) Cons Nil by (simp add: pr_order_def choice_spent)
    ultimately show ?thesis using Nil Cons s' by auto
  qed
qed

lemma prioritized_next_order:
  assumes "drains nxt (pr_inner w) ts" and "valid (pr_inner w)"
  shows "\<exists>w' r ts'. prioritized_next nxt w = Some (w', r) \<and> valid (pr_inner w') \<and> drains nxt (pr_inner w') ts' \<and>
    (case r of None \<Rightarrow> pr_order w ts = [] | Some t \<Rightarrow> pr_order w ts = t # pr_order w' ts')"
proof (cases "pr_gas w < pr_max_gas w")
  case False
  then have eq: "pr_order w ts = pr_buffer w @ ts" by (simp add: pr_order_def choice_spent)
  show ?thesis using pr_rest_order [OF assms] False unfolding eq by (simp add: prioritized_next_def)
next
  case True
  obtain w1 r ts1 where w1: "prioritize_loop nxt w = Some (w1, r)" "valid (pr_inner w1)" "drains nxt (pr_inner w1) ts1"
    and r: "case r of None \<Rightarrow> ts1 = [] \<and> pr_buffer w1 = pr_order w ts | Some t \<Rightarrow> pr_order w ts = t # pr_order w1 ts1"
    using prioritize_loop_order [OF assms(2,1) True] by blast
  show ?thesis
  proof (cases r)
    case None
    then have "ts1 = []" and eq: "pr_order w ts = pr_buffer w1 @ ts1" using r by simp_all
    then show ?thesis using pr_rest_order [OF w1(3,2)] None w1(1) True unfolding eq by (simp add: prioritized_next_def)
  next
    case (Some t)
    then show ?thesis using w1 r True by (auto simp: prioritized_next_def)
  qed
qed

lemma prioritized_take_order:
  "drains nxt (pr_inner w) ts \<Longrightarrow> valid (pr_inner w) \<Longrightarrow>
   \<exists>w'. iter_take (prioritized_next nxt) n w = Some (w', take n (pr_order w ts))"
proof (induction n arbitrary: w ts)
  case (Suc n)
  obtain w1 r ts1 where w1: "prioritized_next nxt w = Some (w1, r)" "valid (pr_inner w1)" "drains nxt (pr_inner w1) ts1"
    and r: "case r of None \<Rightarrow> pr_order w ts = [] | Some t \<Rightarrow> pr_order w ts = t # pr_order w1 ts1"
    using prioritized_next_order [OF Suc.prems] by blast
  then show ?case using Suc.IH [OF w1(3,2)] by (cases r) auto
qed simp

end

lemma iter_take_length: "iter_take nxt n s = Some (s', ts) \<Longrightarrow> length ts \<le> n"
  by (induction n arbitrary: s ts) (auto split: bind_splits option.splits)

lemma pool_drains:
  assumes "tp_inv p" and "pd_len (tp_pending p) \<le> n"
  obtains b ts where "iter_take be_next n (tp_best_transactions p) = Some (b, ts)"
    and "drains be_next (tp_best_transactions p) ts" and "length ts \<le> n"
    and "be_inv (tp_best_transactions p) \<and> quiet (tp_best_transactions p)"
    and "\<forall>s. filter (\<lambda>t. tx_sender_id t = s) ts = map pd_transaction (outlook (tp_best_transactions p) s)"
proof -
  have inv: "pd_inv (tp_pending p)" using subpools_invD(4) [OF tp_invD(1) [OF assms(1)]] .
  note B = pd_best_law [OF inv]
  have ok: "be_inv (tp_best_transactions p) \<and> quiet (tp_best_transactions p)" "length (be_all (tp_best_transactions p)) \<le> n"
    using B(1,2) assms(2) by (simp_all add: tp_best_transactions_def B(3) pd_len_def)
  obtain b ts where run: "iter_take be_next n (tp_best_transactions p) = Some (b, ts)"
    and view: "\<forall>s. filter (\<lambda>t. tx_sender_id t = s) ts = map pd_transaction (outlook (tp_best_transactions p) s)"
    using best.take_law [OF ok] by blast
  show thesis by (rule that [OF run best.drains_take [OF ok run] iter_take_length [OF run] ok(1) view])
qed

section \<open>Properties\<close>

text \<open>
  C17: the wrapper for prioritized senders loses and repeats nothing: draining it yields of each sender the same
  transactions as the iterator of the pool.
\<close>

theorem prioritized_keeps_all:
  assumes "tp_inv p" and "pd_len (tp_pending p) \<le> n"
  shows "\<exists>w ts. iter_take (prioritized_next be_next) n (new_prioritized senders max_gas (tp_best_transactions p)) = Some (w, ts) \<and>
    (\<forall>s. mset (filter (\<lambda>t. tx_sender_id t = s) ts) =
       (case map_of (independent_transactions (tp_pending p)) s of
          None \<Rightarrow> {#}
        | Some x \<Rightarrow> mset (map pd_transaction (run_of (pd_by_id (tp_pending p)) (transaction_id (pd_transaction x))))))"
proof -
  let ?w = "new_prioritized senders max_gas (tp_best_transactions p)"
  have inv: "pd_inv (tp_pending p)" using subpools_invD(4) [OF tp_invD(1) [OF assms(1)]] .
  note B = pd_best_law [OF inv]
  have ok: "be_inv (pr_inner ?w) \<and> quiet (pr_inner ?w)" "pr_left (\<lambda>b. length (be_all b)) ?w \<le> n"
    using B(1,2) assms(2) by (simp_all add: new_prioritized_def tp_best_transactions_def pr_left_def B(3) pd_len_def)
  have "pr_held (\<lambda>b i. map pd_transaction (outlook b i)) ?w s =
      (case map_of (independent_transactions (tp_pending p)) s of
          None \<Rightarrow> {#}
        | Some x \<Rightarrow> mset (map pd_transaction (run_of (pd_by_id (tp_pending p)) (transaction_id (pd_transaction x)))))" for s
    by (simp add: pr_held_def new_prioritized_def tp_best_transactions_def pd_best_outlook [OF inv] split: option.splits)
  then show ?thesis using best.prioritized_take_law [OF ok] by simp
qed

theorem prioritized_keeps_all_witness:
  "\<exists>w ts. iter_take (prioritized_next be_next) 2 (new_prioritized [1] 30000 (tp_best_transactions example_pool)) = Some (w, ts) \<and>
     example_tx 1 1 5 50 10 \<in> set ts"
proof -
  have len: "pd_len (tp_pending example_pool) \<le> 2" by (simp add: example_pending_run(3))
  obtain x where x: "map_of (independent_transactions (tp_pending example_pool)) 1 = Some x"
      "pd_transaction x = example_tx 1 0 5 1000 10"
    using example_pending_run(1) by blast
  obtain w ts where run: "iter_take (prioritized_next be_next) 2 (new_prioritized [1] 30000 (tp_best_transactions example_pool)) = Some (w, ts)"
    and all: "\<forall>s. mset (filter (\<lambda>t. tx_sender_id t = s) ts) =
       (case map_of (independent_transactions (tp_pending example_pool)) s of
          None \<Rightarrow> {#}
        | Some x \<Rightarrow> mset (map pd_transaction (run_of (pd_by_id (tp_pending example_pool)) (transaction_id (pd_transaction x)))))"
    using prioritized_keeps_all [OF example_pool_run(2) len] by blast
  have ts: "mset (filter (\<lambda>t. tx_sender_id t = 1) ts) = mset [example_tx 1 0 5 1000 10, example_tx 1 1 5 50 10]"
    unfolding spec [OF all, of 1] x(1) option.case x(2) example_tx_simps example_pending_run(2) ..
  have "example_tx 1 1 5 50 10 \<in># mset (filter (\<lambda>t. tx_sender_id t = 1) ts)"
    unfolding ts by simp
  then show ?thesis using run by auto
qed

text \<open>
  C37: draining the wrapper for prioritized senders yields first the transactions of these senders that fit into the
  gas, chosen one after the other in the order of the iterator below, and then all others, in that order.
  The ones that go first belong to the given senders, and together they use no more than the given gas, as
  long as adding the gas limit of a single transaction to it does not exceed 64 bits.
\<close>

theorem prioritized_order:
  assumes "tp_inv p" and "pd_len (tp_pending p) \<le> n"
  shows "\<exists>b ts w. iter_take be_next n (tp_best_transactions p) = Some (b, ts) \<and>
    iter_take (prioritized_next be_next) n (new_prioritized senders max_gas (tp_best_transactions p)) =
      Some (w, first_choice senders max_gas 0 ts @ passed_over senders max_gas 0 ts) \<and>
    (\<forall>t \<in> set (first_choice senders max_gas 0 ts). pt_sender (vp_transaction t) \<in> set senders) \<and>
    ((\<forall>t \<in> set ts. unat max_gas + unat (tx_gas_limit t) < 2 ^ 64) \<longrightarrow>
       (\<Sum>t\<leftarrow>first_choice senders max_gas 0 ts. unat (tx_gas_limit t)) \<le> unat max_gas)"
proof -
  let ?w = "new_prioritized senders max_gas (tp_best_transactions p)"
  obtain b ts where ts: "iter_take be_next n (tp_best_transactions p) = Some (b, ts)"
      "drains be_next (tp_best_transactions p) ts" "length ts \<le> n"
      "be_inv (tp_best_transactions p) \<and> quiet (tp_best_transactions p)"
    by (rule pool_drains [OF assms])
  have "length (pr_order ?w ts) \<le> n" using ts(3) by (simp add: length_pr_order new_prioritized_def)
  then have "take n (pr_order ?w ts) = first_choice senders max_gas 0 ts @ passed_over senders max_gas 0 ts"
    by (simp add: pr_order_def new_prioritized_def)
  moreover have "\<exists>w. iter_take (prioritized_next be_next) n ?w = Some (w, take n (pr_order ?w ts))"
    by (rule best.prioritized_take_order) (use ts(2,4) in \<open>simp_all add: new_prioritized_def\<close>)
  ultimately show ?thesis using ts(1) choice_senders choice_gas [of ts max_gas 0 senders] by auto
qed

text \<open>A pool with two transactions of one sender, the first of which takes more gas than the second.\<close>

definition example_gas_tx :: "SenderId \<Rightarrow> u64 \<Rightarrow> u64 \<Rightarrow> valid_pool_tx" where
  "example_gas_tx s n gas =
     (example_tx s n 5 50 10)\<lparr>vp_transaction := (vp_transaction (example_tx s n 5 50 10))\<lparr>pt_gas_limit := gas\<rparr>\<rparr>"

lemma iter_take_twice: "iter_take nxt 2 s = iter_take nxt (Suc (Suc 0)) s"
  by (simp add: numeral_2_eq_2)

lemmas best_eval = example_gas_tx_def example_tx_def tx_accessors pd_best_def pending_set_insert_def
  pending_key_def prioritized_next_def prioritize_loop.simps takes_priority_def new_prioritized_def be_next_def
  next_tx_and_priority.simps add_new_quiet quiet_def pop_best_def last_opt_def unlock_best_def unlocks_def descendant_def
  next_nonce_def iter_take_twice

definition example_gas_pool :: tx_pool where
  "example_gas_pool = example_run [OpSetBlockInfo (example_info 10 1), OpAdd (example_gas_tx 1 0 100) 1000 0 None,
     OpAdd (example_gas_tx 1 1 10) 1000 0 None]"

lemma example_gas_inv: "tp_inv example_gas_pool"
  unfolding example_gas_pool_def
  by (rule example_run_law) (simp_all add: nonce_matches_def example_gas_tx_def example_tx_def tx_accessors)

lemma example_gas_pending: "pd_len (tp_pending example_gas_pool) \<le> 2"
  by (simp add: example_gas_pool_def example_run_def example_gas_tx_def example_tx_def tx_accessors example_defs pool_eval
    del: remove_descendants.simps cong: let_weak_cong bind_weak_cong)

lemma example_gas_drained:
  "\<exists>b. iter_take be_next 2 (tp_best_transactions example_gas_pool) = Some (b, [example_gas_tx 1 0 100] @ example_gas_tx 1 1 10 # [])"
  by (simp add: example_gas_pool_def example_run_def example_defs tp_best_transactions_def best_eval pool_eval
    del: remove_descendants.simps cong: let_weak_cong bind_weak_cong)

lemma example_gas_first:
  "\<exists>w. prioritized_next be_next (new_prioritized [1] 50 (tp_best_transactions example_gas_pool)) = Some (w, Some (example_gas_tx 1 1 10)) \<and>
    pr_buffer w = [example_gas_tx 1 0 100]"
  by (simp add: example_gas_pool_def example_run_def example_defs tp_best_transactions_def best_eval pool_eval
    del: remove_descendants.simps cong: let_weak_cong bind_weak_cong)

theorem prioritized_order_witness:
  "\<exists>w. iter_take (prioritized_next be_next) 2 (new_prioritized [1] 50 (tp_best_transactions example_gas_pool)) =
     Some (w, [example_gas_tx 1 1 10, example_gas_tx 1 0 100])"
proof -
  obtain ts w where "ts = [example_gas_tx 1 0 100, example_gas_tx 1 1 10]"
      "iter_take (prioritized_next be_next) 2 (new_prioritized [1] 50 (tp_best_transactions example_gas_pool)) =
        Some (w, first_choice [1] 50 0 ts @ passed_over [1] 50 0 ts)"
    using prioritized_order [OF example_gas_inv example_gas_pending, of "[1]" 50] example_gas_drained by auto
  then show ?thesis by (simp add: may_go_first_def example_gas_tx_def example_tx_def tx_accessors)
qed

section \<open>Two consequences\<close>




text \<open>
  C33: marking a transaction as invalid reaches the iterator below the wrapper for prioritized senders and not its
  buffer: draining the wrapper afterwards yields of the sender of the transaction exactly what is in the
  buffer, and of the other senders everything that is in the buffer or still to come.
\<close>

theorem prioritized_yields_after_invalid:
  assumes "be_inv (pr_inner w)" and "quiet (pr_inner w)" and "length (be_all (pr_inner w)) + length (pr_buffer w) \<le> n"
  shows "\<exists>w' ts. iter_take (prioritized_next be_next) n (prioritized_mark_invalid be_mark_invalid t w) = Some (w', ts) \<and>
    (\<forall>s. mset (filter (\<lambda>u. tx_sender_id u = s) ts) =
       mset (filter (\<lambda>u. tx_sender_id u = s) (pr_buffer w)) +
       (if s = tx_sender_id t then {#} else mset (map pd_transaction (outlook (pr_inner w) s))))"
proof -
  let ?w = "prioritized_mark_invalid be_mark_invalid t w" and ?view = "\<lambda>b i. map pd_transaction (outlook b i)"
  have ok: "be_inv (pr_inner w) \<and> quiet (pr_inner w)" using assms(1,2) by simp
  note M = best.mark_law [OF ok, of t]
  have "be_inv (pr_inner ?w) \<and> quiet (pr_inner ?w)" "pr_left (\<lambda>b. length (be_all b)) ?w \<le> n"
    using M assms(3) by (simp_all add: prioritized_mark_invalid_def pr_left_def)
  then obtain w' ts where "iter_take (prioritized_next be_next) n ?w = Some (w', ts)"
      "\<forall>s. mset (filter (\<lambda>u. tx_sender_id u = s) ts) = pr_held ?view ?w s"
    using best.prioritized_take_law by blast
  moreover have "pr_held ?view ?w s = mset (filter (\<lambda>u. tx_sender_id u = s) (pr_buffer w)) +
       (if s = tx_sender_id t then {#} else mset (map pd_transaction (outlook (pr_inner w) s)))" for s
    using M by (auto simp: pr_held_def prioritized_mark_invalid_def fun_eq_iff)
  ultimately show ?thesis by auto
qed

theorem prioritized_yields_after_invalid_witness:
  "\<exists>w w' ts. prioritized_next be_next (new_prioritized [1] 50 (tp_best_transactions example_gas_pool)) =
       Some (w, Some (example_gas_tx 1 1 10)) \<and>
     iter_take (prioritized_next be_next) 2 (prioritized_mark_invalid be_mark_invalid (example_gas_tx 1 1 10) w) =
       Some (w', ts) \<and> filter (\<lambda>t. tx_sender_id t = 1) ts = [example_gas_tx 1 0 100]"
proof -
  let ?w0 = "new_prioritized [1] 50 (tp_best_transactions example_gas_pool)" and ?len = "\<lambda>b. length (be_all b)"
  have pd: "pd_inv (tp_pending example_gas_pool)" using subpools_invD(4) [OF tp_invD(1) [OF example_gas_inv]] .
  have ok: "be_inv (pr_inner ?w0) \<and> quiet (pr_inner ?w0)" "pr_left ?len ?w0 \<le> 2"
    using pd_best_law [OF pd] example_gas_pending
    by (simp_all add: new_prioritized_def tp_best_transactions_def pr_left_def pd_len_def)
  obtain w where w: "prioritized_next be_next ?w0 = Some (w, Some (example_gas_tx 1 1 10))"
      "pr_buffer w = [example_gas_tx 1 0 100]"
    using example_gas_first by blast
  have inner: "be_inv (pr_inner w)" "quiet (pr_inner w)" "length (be_all (pr_inner w)) + length (pr_buffer w) \<le> 2"
    using best.prioritized_next_law [OF ok(1)] w(1) ok(2) by (auto simp: pr_left_def)
  obtain w' ts where "iter_take (prioritized_next be_next) 2
      (prioritized_mark_invalid be_mark_invalid (example_gas_tx 1 1 10) w) = Some (w', ts)"
    "mset (filter (\<lambda>t. tx_sender_id t = 1) ts) = mset [example_gas_tx 1 0 100]"
    using prioritized_yields_after_invalid [OF inner, of "example_gas_tx 1 1 10"] w(2)
    by (auto simp: example_gas_tx_def example_tx_def tx_accessors)
  then show ?thesis using w(1) by (auto simp: mset_single_iff simp del: mset_filter)
qed

end
