(* ===== verification/Fee_Rechecks.thy ===== *)
theory Fee_Rechecks
  imports Pool_Additions Pool_Examples
begin

text \<open>
  Which transactions \<open>update_basefee\<close>, \<open>update_blob_fee\<close> and \<open>add_transaction\<close> recheck when the fees change, and
  which they do not (\<open>src/crates/transaction-pool/src/pool/txpool.rs\<close>). Two flags of a transaction say that it
  pays the fees of the pending block; the theorems state, for arbitrary pools and fees, in which situations a
  flag stays as it was although the fee it stands for has changed.
\<close>

section \<open>Which transactions a change of the fees touches\<close>

lemma at_get_refees:
  "refees fees f ids p p' \<Longrightarrow>
   at_get (tp_all p') i = (if i \<in> ids then map_option (with_state f) (at_get (tp_all p) i) else at_get (tp_all p) i)"
  by (simp add: refees_def map_of_restate at_get_def)

lemma subpool_unique:
  assumes "tp_inv p" and "subpool_contains sp i p" and "subpool_contains sp' i p"
  shows "sp = sp'"
  using assms(2,3) by (auto simp: subpool_contains_iff [OF assms(1)])

lemma pending_entry:
  assumes "tp_inv p"
  shows "map_of (pd_entries (tp_pending p)) i = Some t \<longleftrightarrow>
    subpool_contains Pending i p \<and> map_of (content p) i = Some t"
  using holdsD [OF tp_invD(3) [OF assms], of Pending i] subpool_contains_entries [of Pending i p]
  by (auto simp: pool_entries_def placed_def held_in_def content_at at_get_def split: option.splits if_splits)

lemma demoted_iff:
  assumes inv: "tp_inv p"
    and ts: "ts = map (pd_transaction \<circ> snd)
      (scan_removed (\<lambda>e. sender (fst e)) (\<lambda>e. bad (pd_transaction (snd e))) (pd_by_id (tp_pending p)))"
  shows "i \<in> transaction_id ` set ts \<longleftrightarrow> subpool_contains Pending i p \<and>
    (\<exists>j u. subpool_contains Pending j p \<and> map_of (content p) j = Some u \<and> sender j = sender i \<and> nonce j \<le> nonce i \<and> bad u)"
proof -
  note iff = pd_removed_by_scan [OF subpools_invD(4) [OF tp_invD(1) [OF inv]] ts, unfolded pending_entry [OF inv]]
  have "\<exists>t. map_of (content p) i = Some t \<and> transaction_id t = i" if "subpool_contains Pending i p"
    using that all_wf_at(2) [OF inv] by (auto simp: subpool_contains_iff [OF inv] content_at)
  moreover have "i \<in> transaction_id ` set ts \<longleftrightarrow> (\<exists>t. transaction_id t = i \<and> t \<in> set ts)" by auto
  ultimately show ?thesis unfolding iff tx_sender_id_def by metis
qed

lemma released_basefee:
  assumes "tp_inv p" and "t \<in> set (satisfy_base_fee_transactions fee (tp_basefee p))"
  shows "subpool_contains BaseFee (transaction_id t) p"
proof -
  obtain b where "evicts (pk_entries (tp_basefee p)) (satisfy_base_fee_transactions fee (tp_basefee p)) (pk_entries b)"
    by (rule enforce_basefee_law [OF subpools_invD(2) [OF tp_invD(1) [OF assms(1)]]])
  then show ?thesis using assms(2) by (auto simp: evicts_def subpool_contains_entries pool_entries_def)
qed

lemma released_blob:
  assumes "tp_inv p" and "i \<in> set (satisfy_pending_fee_ids fees (tp_blob p))"
  shows "subpool_contains Blob i p"
  using satisfy_pending_fee_iff [OF subpools_invD(3) [OF tp_invD(1) [OF assms(1)]]] assms(2)
  by (simp add: subpool_contains_entries pool_entries_def)

lemma demoted_by_base_fee:
  assumes "tp_inv p"
  shows "i \<in> transaction_id ` set (snd (pd_update_base_fee fee (tp_pending p))) \<longleftrightarrow>
    subpool_contains Pending i p \<and>
    (\<exists>j u. subpool_contains Pending j p \<and> map_of (content p) j = Some u \<and> sender j = sender i \<and> nonce j \<le> nonce i \<and>
       max_fee_per_gas u < ucast fee)"
  by (rule demoted_iff [OF assms]) (simp add: pd_update_base_fee_def clear_transactions_def Let_def)

lemma demoted_by_blob_fee:
  assumes "tp_inv p" and "i \<in> transaction_id ` set (snd (pd_update_blob_fee fee (tp_pending p)))"
  shows "subpool_contains Pending i p" and "map_of (content p) i = Some t \<Longrightarrow> is_eip4844 t"
proof -
  have "snd (pd_update_blob_fee fee (tp_pending p)) = map (pd_transaction \<circ> snd)
      (scan_removed (\<lambda>e. sender (fst e)) (\<lambda>e. below_blob_fee fee (pd_transaction (snd e))) (pd_by_id (tp_pending p)))"
    by (simp add: pd_update_blob_fee_def clear_transactions_def Let_def)
  note iff = demoted_iff [OF assms(1) this, of i]
  show "subpool_contains Pending i p" using iff assms(2) by blast
  obtain j u where "map_of (content p) j = Some u" "sender j = sender i" "is_eip4844 u"
    using iff assms(2) by (auto simp: below_blob_fee_def)
  then show "is_eip4844 t" if "map_of (content p) i = Some t"
    using that entries_okD(4) [OF all_wfD(1) [OF tp_invD(2) [OF assms(1)]], of i t j u] by (simp add: content_def)
qed

text \<open>
  A higher base fee leaves a transaction alone, unless it is pending and it or a pending predecessor does not
  pay; a change of the blob fee leaves the transactions alone that carry no blobs.
\<close>

definition pays_up_to :: "u64 \<Rightarrow> TransactionId \<Rightarrow> tx_pool \<Rightarrow> bool" where
  "pays_up_to fee i p \<longleftrightarrow>
     (\<forall>j u. subpool_contains Pending j p \<and> map_of (content p) j = Some u \<and> sender j = sender i \<and> nonce j \<le> nonce i \<longrightarrow>
        ucast fee \<le> max_fee_per_gas u)"

lemma after_inv: "after n p p' \<Longrightarrow> tp_inv p'"
  by (simp add: after_def)

lemma update_basefee_keeps:
  assumes inv: "tp_inv p" and room: "length (txs (tp_all p)) \<le> tp_room p"
    and rise: "base_fee (tracked_fees (tp_all p)) < fee" and run: "update_basefee fee p = Some (p', ts, ord)"
    and pays: "subpool_contains Pending i p \<Longrightarrow> pays_up_to fee i p"
  shows "at_get (tp_all p') i = at_get (tp_all p) i" and "tp_inv p'" and "length (txs (tp_all p')) = length (txs (tp_all p))"
    and "tp_room p \<le> tp_room p' + length (txs (tp_all p))"
proof -
  have gr: "cmp fee (base_fee (tracked_fees (tp_all p))) = Greater" using rise by (simp add: cmp_iff)
  obtain f ids where p1: "refees ((tracked_fees (tp_all p))\<lparr>base_fee := fee\<rparr>) f ids p p'"
      "ids = transaction_id ` set (snd (pd_update_base_fee fee (tp_pending p)))"
    by (rule update_basefee_law [OF inv room, of fee]) (use gr run in auto)
  have "i \<notin> ids" using demoted_by_base_fee [OF inv, of i fee] pays unfolding p1(2) pays_up_to_def by (auto simp: not_le [symmetric])
  then show "at_get (tp_all p') i = at_get (tp_all p) i" by (simp add: at_get_refees [OF p1(1)])
  show "tp_inv p'" by (rule after_inv [OF refees_after [OF p1(1)]])
  show "length (txs (tp_all p')) = length (txs (tp_all p))" by (rule refees_length [OF p1(1)])
  show "tp_room p \<le> tp_room p' + length (txs (tp_all p))" using refees_after [OF p1(1)] by (simp add: after_def)
qed

lemma update_blob_fee_keeps:
  assumes inv: "tp_inv p" and room: "length (txs (tp_all p)) \<le> tp_room p"
    and run: "update_blob_fee fee ord p = Some (p', us)"
    and x: "at_get (tp_all p) i = Some x" "\<not> is_eip4844 (it_transaction x)"
  shows "at_get (tp_all p') i = Some x"
proof -
  let ?fees = "(tracked_fees (tp_all p))\<lparr>blob_fee := fee\<rparr>"
  obtain f ids where p2: "refees ?fees f ids p p'"
      "ids \<subseteq> set (satisfy_pending_fee_ids ?fees (tp_blob p)) \<union>
         transaction_id ` set (snd (pd_update_blob_fee fee (tp_pending p)))"
    by (rule update_blob_fee_law [OF inv room refl refl, of fee ord])
      (use run in \<open>cases "cmp fee (blob_fee (tracked_fees (tp_all p)))"; cases ord; auto\<close>)
  have tx: "map_of (content p) i = Some (it_transaction x)" using x(1) by (simp add: content_at)
  have "\<not> subpool_contains Blob i p"
    using x all_wf_at(1) [OF inv x(1)] sub_pool_of_eq_Blob by (auto simp: subpool_contains_iff [OF inv] state_ok_def)
  then have "i \<notin> ids" using released_blob [OF inv] demoted_by_blob_fee(2) [OF inv _ tx] x(2) p2(2) by blast
  then show ?thesis by (simp add: at_get_refees [OF p2(1)] x(1))
qed

section \<open>A lower base fee\<close>

text \<open>
  C34: when the base fee falls, no pending transaction is rechecked, whatever the new blob fee is: each stays
  pending with the flags it had. This includes blob transactions whose blob fee cap is below the new blob fee.
\<close>

theorem blob_below_fee_stays_pending:
  assumes "tp_inv p" and "2 * tp_len p \<le> tp_room p"
    and "bi_pending_basefee info < base_fee (tracked_fees (tp_all p))" and "bi_pending_blob_fee info = Some g"
  shows "\<exists>p' oc. tp_set_block_info info p = Some (p', oc) \<and> tp_inv p' \<and>
    blob_fee (tracked_fees (tp_all p')) = g \<and>
    (\<forall>i. subpool_contains Pending i p \<longrightarrow>
       subpool_contains Pending i p' \<and> at_get (tp_all p') i = at_get (tp_all p) i)"
proof -
  let ?fee = "bi_pending_basefee info" and ?old = "base_fee (tracked_fees (tp_all p))"
  have less: "cmp ?fee ?old = Ordering.Less" using assms(3) by (simp add: cmp_iff)
  have room: "2 * length (txs (tp_all p)) \<le> tp_room p" using assms(2) by (simp add: tp_len_content(2))
  then have room1: "length (txs (tp_all p)) \<le> tp_room p" by simp
  obtain p1 ts f ids where p1: "update_basefee ?fee p = Some (p1, ts, Ordering.Less)"
      "refees ((tracked_fees (tp_all p))\<lparr>base_fee := ?fee\<rparr>) f ids p p1"
      "ids = transaction_id ` set (satisfy_base_fee_transactions ?fee (tp_basefee p))"
    by (rule update_basefee_law [OF assms(1) room1, of ?fee]) (use less in auto)
  have af1: "after (length (txs (tp_all p))) p p1" by (rule refees_after [OF p1(2)])
  have inv1: "tp_inv p1" using af1 by (simp add: after_def)
  have "length (txs (tp_all p1)) \<le> tp_room p1" using af1 room refees_length [OF p1(2)] by (simp add: after_def)
  then obtain p2 us f2 ids2 where p2: "update_blob_fee g Ordering.Less p1 = Some (p2, us)"
      "refees ((tracked_fees (tp_all p1))\<lparr>blob_fee := g\<rparr>) f2 ids2 p1 p2"
      "ids2 = set (satisfy_pending_fee_ids ((tracked_fees (tp_all p1))\<lparr>blob_fee := g\<rparr>) (tp_blob p1))"
    by (rule update_blob_fee_law [OF inv1 _ refl refl, of g Ordering.Less]) auto
  have inv2: "tp_inv p2" using refees_after [OF p2(2)] by (simp add: after_def)
  have same: "at_get (tp_all p2) i = at_get (tp_all p) i \<and> subpool_contains Pending i p2"
    if pend: "subpool_contains Pending i p" for i
  proof -
    obtain x where x: "at_get (tp_all p) i = Some x" "sub_pool_of (it_state x) = Pending"
      using pend by (auto simp: subpool_contains_iff [OF assms(1)])
    have "i \<notin> ids" using released_basefee [OF assms(1)] subpool_unique [OF assms(1) pend] by (fastforce simp: p1(3))
    then have x1: "at_get (tp_all p1) i = Some x" by (simp add: at_get_refees [OF p1(2)] x(1))
    then have pend1: "subpool_contains Pending i p1" using x(2) by (simp add: subpool_contains_iff [OF inv1])
    have "i \<notin> ids2" using released_blob [OF inv1] subpool_unique [OF inv1 pend1] by (fastforce simp: p2(3))
    then have "at_get (tp_all p2) i = Some x" by (simp add: at_get_refees [OF p2(2)] x1)
    then show ?thesis using x by (simp add: subpool_contains_iff [OF inv2])
  qed
  let ?p = "p2\<lparr>tp_all := at_set_block_info info (tp_all p2)\<rparr>"
  have "subpool_contains Pending i ?p \<longleftrightarrow> subpool_contains Pending i p2" "at_get (tp_all ?p) i = at_get (tp_all p2) i" for i
    by (simp_all add: subpool_contains_def at_get_def)
  moreover have "tp_set_block_info info p = Some (?p, default_outcome\<lparr>promoted := ts @ us\<rparr>)"
    using p1(1) p2(1) assms(4) by (simp add: tp_set_block_info_def)
  moreover have "blob_fee (tracked_fees (tp_all ?p)) = g" using assms(4) by (simp add: at_set_block_info_def)
  ultimately show ?thesis using same inv2 by auto
qed

definition example_cheap_blob :: tx_pool where
  "example_cheap_blob = example_run [OpSetBlockInfo (example_info 100 1), OpAdd (example_blob_tx 1 0 1000 5) 1000 0 None]"

lemma example_cheap_blob_law:
  "tp_inv example_cheap_blob" "2 * tp_len example_cheap_blob \<le> tp_room example_cheap_blob"
  "base_fee (tracked_fees (tp_all example_cheap_blob)) = 100" "subpool_contains Pending (TransactionId 1 0) example_cheap_blob"
  "map_option (max_fee_per_blob_gas \<circ> it_transaction) (at_get (tp_all example_cheap_blob) (TransactionId 1 0)) = Some (Some 5)"
proof -
  have ops: "list_all op_ok [OpSetBlockInfo (example_info 100 1), OpAdd (example_blob_tx 1 0 1000 5) 1000 0 None]"
    "ops_cost [OpSetBlockInfo (example_info 100 1), OpAdd (example_blob_tx 1 0 1000 5) 1000 0 None] 0 \<le> 1000"
    by (simp_all add: nonce_matches_def)
  show "tp_inv example_cheap_blob" unfolding example_cheap_blob_def by (rule example_run_law(1) [OF ops])
  have "tp_len example_cheap_blob = 1"
    by (simp add: example_cheap_blob_def example_run_def example_defs pool_eval
        del: remove_descendants.simps cong: let_weak_cong bind_weak_cong)
  then show "2 * tp_len example_cheap_blob \<le> tp_room example_cheap_blob"
    using example_run_law(2) [OF ops, of 2] by (simp add: example_cheap_blob_def)
qed (simp_all add: example_cheap_blob_def example_run_def example_defs pool_eval
    del: remove_descendants.simps cong: let_weak_cong bind_weak_cong)

theorem blob_below_fee_stays_pending_witness:
  "\<exists>p' oc t. tp_set_block_info (example_info 50 100) example_cheap_blob = Some (p', oc) \<and>
     blob_fee (tracked_fees (tp_all p')) = 100 \<and> subpool_contains Pending (TransactionId 1 0) p' \<and>
     at_get (tp_all p') (TransactionId 1 0) = Some t \<and> max_fee_per_blob_gas (it_transaction t) = Some 5"
proof -
  have "bi_pending_basefee (example_info 50 100) < base_fee (tracked_fees (tp_all example_cheap_blob))"
    "bi_pending_blob_fee (example_info 50 100) = Some 100"
    using example_cheap_blob_law(3) by (simp_all add: example_info_def)
  from blob_below_fee_stays_pending [OF example_cheap_blob_law(1,2) this] show ?thesis
    using example_cheap_blob_law(4,5) by fastforce
qed

section \<open>A higher base fee and an addition\<close>

lemma rise_keeps_queued:
  assumes inv: "tp_inv p" and room: "2 * tp_len p \<le> tp_room p"
    and rise: "base_fee (tracked_fees (tp_all p)) < bi_pending_basefee info"
    and run: "tp_set_block_info info p = Some (p', oc)"
    and x: "at_get (tp_all p) i = Some x" "it_subpool x = Queued"
  shows "at_get (tp_all p') i = Some x"
proof -
  have room': "2 * length (txs (tp_all p)) \<le> tp_room p" using room by (simp add: tp_len_content(2))
  then have room1: "length (txs (tp_all p)) \<le> tp_room p" by simp
  have st: "sub_pool_of (it_state x) = Queued" using x all_wf_at(3) [OF inv x(1)] by simp
  then have np: "\<not> subpool_contains Pending i p" using x(1) by (simp add: subpool_contains_iff [OF inv])
  have nb: "\<not> is_eip4844 (it_transaction x)"
    using st all_wf_at(1) [OF inv x(1)] by (auto simp: state_ok_def sub_pool_of_bits split: if_splits)
  obtain p1 ts ord where p1: "update_basefee (bi_pending_basefee info) p = Some (p1, ts, ord)"
    using run by (auto simp: tp_set_block_info_def split: bind_splits)
  note K = update_basefee_keeps [OF inv room1 rise p1, of i]
  have x1: "at_get (tp_all p1) i = Some x" using K(1) np x(1) by simp
  show ?thesis
  proof (cases "bi_pending_blob_fee info")
    case None
    then show ?thesis using run p1 x1 by (auto simp: tp_set_block_info_def at_get_def)
  next
    case (Some g)
    obtain p2 us where p2: "update_blob_fee g ord p1 = Some (p2, us)" "at_get (tp_all p') i = at_get (tp_all p2) i"
      using run p1 Some by (auto simp: tp_set_block_info_def at_get_def split: bind_splits)
    have "at_get (tp_all p2) i = Some x"
      by (rule update_blob_fee_keeps [OF _ _ p2(1) x1 nb]) (use K(2-4) np room' in auto)
    then show ?thesis using p2(2) by simp
  qed
qed

text \<open>The fee flag of a transaction is not among the flags that an insertion recomputes for the others.\<close>

definition same_fee_flag :: "TransactionId \<times> internal_tx \<Rightarrow> TransactionId \<times> internal_tx \<Rightarrow> bool" where
  "same_fee_flag e e' \<longleftrightarrow>
     fst e' = fst e \<and> it_transaction (snd e') = it_transaction (snd e) \<and>
     (st_contains (it_state (snd e')) ENOUGH_FEE_CAP_BLOCK \<longleftrightarrow> st_contains (it_state (snd e)) ENOUGH_FEE_CAP_BLOCK)"

lemma same_fee_flag_refl: "list_all2 same_fee_flag m m"
  by (simp add: list_all2_refl same_fee_flag_def)

lemma insert_scan_fee_flag:
  "insert_scan balance new nxt cost parked st m = (m', us, st') \<Longrightarrow> list_all2 same_fee_flag m m'"
proof (induction m arbitrary: nxt cost parked st m' us)
  case (Cons e m)
  obtain i x where e: "e = (i, x)" by fastforce
  show ?case
  proof (cases "nxt = nonce i")
    case False
    then have "m' = e # m" using Cons.prems e by simp
    then show ?thesis by (simp only: same_fee_flag_refl)
  next
    case True
    define x1 where "x1 = insert_visit balance cost parked x"
    obtain m2 us2 where rest: "insert_scan balance new (next_nonce i) (next_cumulative_cost x1)
        (\<not> st_is_pending (it_state x1)) (if new = i then it_state x1 else st) m = (m2, us2, st')"
      and m': "m' = (i, x1) # m2"
      using insert_scan_visit [OF _ True x1_def] Cons.prems e by blast
    have "same_fee_flag (i, x) (i, x1)"
      by (simp add: same_fee_flag_def x1_def insert_visit_def Let_def set_flag_def tx_flags)
    then show ?thesis using Cons.IH [OF rest] by (simp add: e m')
  qed
qed simp

lemma descendant_txs_mut_fee_flag:
  assumes "bsorted m" and "\<And>r. list_all2 same_fee_flag r (f r)"
  shows "list_all2 same_fee_flag m (descendant_txs_mut i f m)"
proof -
  let ?P = "\<lambda>e. sender (fst e) = sender i"
  have "list_all2 same_fee_flag (bbefore i m @ takeWhile ?P (bfrom i m) @ dropWhile ?P (bfrom i m))
      (bbefore i m @ f (takeWhile ?P (bfrom i m)) @ dropWhile ?P (bfrom i m))"
    by (intro list_all2_appendI same_fee_flag_refl assms(2))
  then show ?thesis using bbefore_bfrom [OF assms(1)] by (simp add: descendant_txs_mut_def)
qed

lemma map_of_fee_flag:
  assumes "list_all2 same_fee_flag m m'" and "map_of m' i = Some x'"
  shows "\<exists>x. map_of m i = Some x \<and> it_transaction x' = it_transaction x \<and>
    (st_contains (it_state x') ENOUGH_FEE_CAP_BLOCK \<longleftrightarrow> st_contains (it_state x) ENOUGH_FEE_CAP_BLOCK)"
  using assms by (induction rule: list_all2_induct) (auto simp: same_fee_flag_def split: if_splits)

lemma insert_tx_fee_flag:
  assumes wf: "all_wf a" and run: "insert_tx t balance on_chain_nonce a = Some (Inr (a', r))"
    and nm: "nonce_matches t" and fresh: "\<not> at_contains a (tx_hash t)"
    and i: "i \<noteq> transaction_id t" "map_of (txs a) i = Some x" "map_of (txs a') i = Some x'"
  shows "it_transaction x' = it_transaction x"
    and "st_contains (it_state x') ENOUGH_FEE_CAP_BLOCK \<longleftrightarrow> st_contains (it_state x) ENOUGH_FEE_CAP_BLOCK"
proof -
  obtain st x0 where a': "txs a' = descendant_txs_mut (TransactionId (tx_sender_id t) on_chain_nonce)
      (\<lambda>m. fst (insert_scan balance (transaction_id t) on_chain_nonce 0 False st m)) (bins (transaction_id t) x0 (txs a))"
    by (rule insert_tx_traversed [OF wf run nm fresh])
  have "list_all2 same_fee_flag (bins (transaction_id t) x0 (txs a)) (txs a')"
    unfolding a'
  proof (rule descendant_txs_mut_fee_flag [OF bsorted_bins [OF all_wfD(8) [OF wf]]])
    show "list_all2 same_fee_flag m (fst (insert_scan balance (transaction_id t) on_chain_nonce 0 False st m))" for m
      by (metis insert_scan_fee_flag prod.collapse)
  qed
  from map_of_fee_flag [OF this i(3)] show "it_transaction x' = it_transaction x"
    and "st_contains (it_state x') ENOUGH_FEE_CAP_BLOCK \<longleftrightarrow> st_contains (it_state x) ENOUGH_FEE_CAP_BLOCK"
    using i(1,2) by (auto simp: map_of_bins)
qed

text \<open>
  C35: a rise of the base fee is applied to the pending transactions only, and an addition computes the flags of the
  sender's other transactions anew except for the one of the fee. So when a queued transaction comes into line
  because the gap before it is closed, it becomes pending exactly if its predecessor is pending, the balance
  covers the costs so far, and it paid the base fee when its flag was set, before the rise; whether it pays
  the present base fee does not matter.
\<close>

theorem gap_fill_ignores_base_fee:
  assumes "tp_inv p" and "3 * tp_len p + 2 \<le> tp_room p"
    and "base_fee (tracked_fees (tp_all p)) < bi_pending_basefee info"
    and "tp_set_block_info info p = Some (p1, oc)"
    and "nonce_matches t" and "add_transaction keccak_empty t balance on_chain_nonce code_hash p1 = Some (p2, Inr r)"
    and "i = chain_id (tx_sender_id t) on_chain_nonce (Suc k)" and "unat on_chain_nonce + Suc k < 2 ^ 64"
    and "at_get (tp_all p) i = Some x" and "it_subpool x = Queued" and "i \<noteq> transaction_id t"
    and "\<forall>j\<le>Suc k. map_of (content p2) (chain_id (tx_sender_id t) on_chain_nonce j) = Some (u j)"
  shows "base_fee (tracked_fees (tp_all p2)) = bi_pending_basefee info \<and>
    (subpool_contains Pending i p2 \<longleftrightarrow>
       st_contains (it_state x) ENOUGH_FEE_CAP_BLOCK \<and>
       subpool_contains Pending (chain_id (tx_sender_id t) on_chain_nonce k) p2 \<and>
       (\<Sum>j\<le>Suc k. tx_cost (u j)) \<le> balance)"
proof -
  let ?c = "chain_id (tx_sender_id t) on_chain_nonce"
  have room: "2 * length (txs (tp_all p)) \<le> tp_room p" using assms(2) by (simp add: tp_len_content(2))
  obtain oc' where P1: "tp_set_block_info info p = Some (p1, oc')" "after (2 * length (txs (tp_all p))) p p1"
      "at_entries (tp_all p1) = at_entries (tp_all p)"
    by (rule set_block_info_law [OF assms(1) room, of info]) (use assms(4) in auto)
  have inv1: "tp_inv p1" and room1: "tp_len p1 + 2 \<le> tp_room p1"
    using P1(2,3) assms(2) by (auto simp: after_def pool_length)
  have x1: "at_get (tp_all p1) i = Some x"
    by (rule rise_keeps_queued [OF assms(1) _ assms(3,4,9,10)]) (use assms(2) in simp)
  obtain a ok where A: "\<not> at_contains (tp_all p1) (tx_hash t)" "all_wf (with_sender t balance on_chain_nonce (tp_all p1))"
      "insert_tx t balance on_chain_nonce (with_sender t balance on_chain_nonce (tp_all p1)) = Some (Inr (a, ok))"
      "txs (tp_all p2) = txs a" "settings (tp_all p2) = settings (tp_all p1)"
    by (rule add_transaction_traced [OF inv1 assms(5) room1 assms(6)])
  have inv2: "tp_inv p2" by (rule add_transaction_inv [OF inv1 assms(5) room1 assms(6)])
  have "\<exists>y. at_get (tp_all p2) (?c j) = Some y \<and> it_transaction y = u j" if "j \<le> Suc k" for j
    using assms(12) that by (auto simp: content_at)
  then obtain y where y: "at_get (tp_all p2) (?c j) = Some (y j) \<and> it_transaction (y j) = u j" if "j \<le> Suc k" for j
    by metis
  have line: "in_line balance 0 False y (Suc k)"
    by (rule add_transaction_chain [OF inv1 assms(5) room1 assms(6) assms(8)]) (use y in simp)
  have at: "map_of (txs (with_sender t balance on_chain_nonce (tp_all p1))) i = Some x" "map_of (txs a) i = Some (y (Suc k))"
    using x1 y [of "Suc k"] A(4) assms(7) by (simp_all add: at_get_def)
  have fresh: "\<not> at_contains (with_sender t balance on_chain_nonce (tp_all p1)) (tx_hash t)" using A(1) by simp
  note F = insert_tx_fee_flag [OF A(2,3) assms(5) fresh assms(11) at]
  have y': "at_get (tp_all p2) i = Some (y (Suc k))" "at_get (tp_all p2) (?c k) = Some (y k)" using y assms(7) by simp_all
  have "\<not> bit (it_state x) 1"
    using assms(10) all_wf_at(3) [OF assms(1,9)] by (auto simp: sub_pool_of_bits split: if_splits)
  then have "bit (it_state (y (Suc k))) 2 \<and> bit (it_state (y (Suc k))) 4"
    using all_wf_at(1) [OF assms(1,9)] all_wf_at(1) [OF inv2 y'(1)] F(1) by (simp add: state_ok_def)
  then have "st_is_pending (it_state (y (Suc k))) \<longleftrightarrow> st_contains (it_state x) ENOUGH_FEE_CAP_BLOCK \<and>
      st_is_pending (it_state (y k)) \<and> (\<Sum>j\<le>Suc k. tx_cost (it_transaction (y j))) \<le> balance"
    using line F(2) by (auto simp: in_line_def tx_flags)
  moreover have "(\<Sum>j\<le>Suc k. tx_cost (it_transaction (y j))) = (\<Sum>j\<le>Suc k. tx_cost (u j))" using y by (intro sum.cong) auto
  moreover have "base_fee (tracked_fees (tp_all p2)) = bi_pending_basefee info"
    using settings_eqD(1) [OF A(5)] room set_block_info_tracked [OF assms(1) _ assms(4), THEN arg_cong, of bi_pending_basefee]
    by (simp add: tp_block_info_def)
  ultimately show ?thesis using y' by (simp add: subpool_contains_iff [OF inv2] sub_pool_of_eq_Pending)
qed

lemma example_gap_run:
  "\<exists>p1 oc p2 r x. tp_set_block_info (example_info 100 1) (example_run [OpSetBlockInfo (example_info 10 1), example_add 1 1 50]) = Some (p1, oc) \<and>
     add_transaction 0 (example_tx 1 0 5 1000 10) 1000 0 None p1 = Some (p2, Inr r) \<and>
     at_get (tp_all (example_run [OpSetBlockInfo (example_info 10 1), example_add 1 1 50])) (TransactionId 1 1) = Some x \<and>
     it_subpool x = Queued \<and> it_state x = 28 \<and>
     map_of (content p2) (TransactionId 1 0) = Some (example_tx 1 0 5 1000 10) \<and>
     map_of (content p2) (TransactionId 1 1) = Some (example_tx 1 1 5 50 10) \<and>
     subpool_contains Pending (TransactionId 1 0) p2"
  by (simp add: example_run_def example_defs pool_eval content_def at_entries_def
        del: remove_descendants.simps cong: let_weak_cong bind_weak_cong)

theorem gap_fill_ignores_base_fee_witness:
  "\<exists>p1 oc p2 r. tp_set_block_info (example_info 100 1) (example_run [OpSetBlockInfo (example_info 10 1), example_add 1 1 50]) = Some (p1, oc) \<and>
     add_transaction 0 (example_tx 1 0 5 1000 10) 1000 0 None p1 = Some (p2, Inr r) \<and>
     base_fee (tracked_fees (tp_all p2)) = 100 \<and> subpool_contains Pending (TransactionId 1 1) p2 \<and>
     map_of (content p2) (TransactionId 1 1) = Some (example_tx 1 1 5 50 10)"
proof -
  let ?ops = "[OpSetBlockInfo (example_info 10 1), example_add 1 1 50]"
  let ?p = "example_run ?ops" and ?t = "example_tx 1 0 5 1000 10"
  let ?u = "\<lambda>j. if j = (0 :: nat) then ?t else example_tx 1 1 5 50 10"
  have ops: "list_all op_ok ?ops" "ops_cost ?ops 0 \<le> 1000" by (simp_all add: example_add_def nonce_matches_def)
  have p: "tp_len ?p = 1" "base_fee (tracked_fees (tp_all ?p)) = 10"
    by (simp_all add: example_run_def example_defs pool_eval del: remove_descendants.simps cong: let_weak_cong bind_weak_cong)
  obtain p1 oc p2 r x where R: "tp_set_block_info (example_info 100 1) ?p = Some (p1, oc)"
      "add_transaction 0 ?t 1000 0 None p1 = Some (p2, Inr r)"
      "at_get (tp_all ?p) (TransactionId 1 1) = Some x" "it_subpool x = Queued" "it_state x = 28"
      "map_of (content p2) (TransactionId 1 0) = Some ?t" "map_of (content p2) (TransactionId 1 1) = Some (example_tx 1 1 5 50 10)"
      "subpool_contains Pending (TransactionId 1 0) p2"
    using example_gap_run by blast
  have c: "chain_id 1 0 0 = TransactionId 1 0" "chain_id 1 0 (Suc 0) = TransactionId 1 1" by (simp_all add: chain_id_def)
  have "base_fee (tracked_fees (tp_all p2)) = bi_pending_basefee (example_info 100 1) \<and>
    (subpool_contains Pending (TransactionId 1 1) p2 \<longleftrightarrow> st_contains (it_state x) ENOUGH_FEE_CAP_BLOCK \<and>
       subpool_contains Pending (chain_id (tx_sender_id ?t) 0 0) p2 \<and> (\<Sum>j\<le>Suc 0. tx_cost (?u j)) \<le> 1000)"
    by (rule gap_fill_ignores_base_fee [OF example_run_law(1) [OF ops] _ _ R(1) _ R(2) _ _ R(3,4)])
      (use example_run_law(2) [OF ops, of 5] p R(6,7) c in
        \<open>auto simp: example_info_def nonce_matches_def le_Suc_eq\<close>)
  then show ?thesis using R c by (auto simp: example_info_def st_contains_def flag_defs)
qed

end
