(* ===== verification/Block_Rechecks.thy ===== *)
theory Block_Rechecks
  imports Fee_Rechecks
begin

text \<open>
  What \<open>AllTransactions::update\<close> does to the flags of a run of pending transactions when a block changes the
  base fee and not the account of their sender (\<open>src/crates/transaction-pool/src/pool/txpool.rs\<close>), and what
  is left of it after the other steps of \<open>on_canonical_state_change\<close>.
\<close>

section \<open>The pass over a run\<close>











section \<open>The steps of a block\<close>








section \<open>The run after a block\<close>





end
