(* ===== verification/Spec2Isabelle.thy ===== *)
theory Spec2Isabelle
  imports Prioritized_Senders Block_Rechecks
begin

text \<open>
  The transaction pool of the node (\<open>src/crates/transaction-pool/src\<close>), the part of the program that keeps the
  transactions that are not yet in a block, decides which of them can be executed next, and stays within
  configured limits. The development models the data structures and every operation of \<open>TxPool\<close> that changes
  state, and proves that no sequence of operations fails, that the indices never disagree, and what each
  operation does.

  The program. \<open>TxPool\<close> (\<open>pool/txpool.rs\<close>) owns a container of all transactions, \<open>AllTransactions\<close>, and four
  sub-pools: pending transactions (\<open>pool/pending.rs\<close>), two parked pools for those below the base fee and for
  those that wait for another one (\<open>pool/parked.rs\<close>), and blob transactions (\<open>pool/blob.rs\<close>). The container
  keeps for each transaction a byte of state flags (\<open>pool/state.rs\<close>) from which its sub-pool follows. An
  operation first changes the container, which answers with a list of moves, and then carries out the moves
  in the sub-pools.

  Conventions. Machine integers are words and wrap around as in a release build; lengths and counters of
  collections are natural numbers. \<open>BTreeMap\<close> and \<open>HashMap\<close> are lists of pairs in strictly ascending order of
  their keys (\<open>bmap\<close>); sets of hashes are lists without duplicates. An operation that can panic (\<open>expect\<close>,
  \<open>unwrap\<close>, \<open>assert\<close>, arithmetic on a missing entry) or loop returns an option whose \<open>None\<close> is the panic or the
  endless loop; a Rust \<open>Result\<close> is a sum with the error on the left. Code of other repositories is a
  parameter: the accessors of a transaction are the fields of the record \<open>pool_transaction\<close>, the ordering of
  the pending pool is a function, and the hash of empty code is an argument of \<open>add_transaction\<close>.

  The theories.
  \<^item> \<open>Prelude\<close>: words, sorted association lists with the interface \<open>finite_map\<close>, and scans that drop an entry
    together with its successors.
  \<^item> \<open>Pool_Types\<close>: \<open>identifier.rs\<close>, \<open>config.rs\<close>, \<open>ordering.rs\<close>, \<open>traits.rs\<close>, \<open>validate/mod.rs\<close>; the replacement
    rule and the bijection between senders and identifiers.
  \<^item> \<open>Tx_State\<close>: \<open>pool/state.rs\<close>; the flags as bits, so that the comparisons of the code become conjunctions.
  \<^item> \<open>Sub_Pool\<close>: the interfaces \<open>sub_pool\<close> and \<open>bounded_pool\<close> that \<open>TxPool\<close> relies on, with the lemmas that
    follow from them; \<open>Parked_Pool\<close>, \<open>Pending_Pool\<close> and \<open>Blob_Pool\<close> model the three kinds of sub-pools, prove their
    invariants and interpret both interfaces. The loops \<open>truncate_loop\<close> and \<open>remove_loop\<close> are shown to end.
  \<^item> \<open>All_Transactions\<close> and \<open>Pool_Moves\<close>: the container, its seven indices as functions of its content, and the
    moves that \<open>update\<close>, \<open>insert_tx\<close> and \<open>park_descendant_transactions\<close> return.
  \<^item> \<open>Tx_Pool\<close>: the model of \<open>TxPool\<close>. \<open>Pool_Invariant\<close>, \<open>Pool_Operations\<close>, \<open>Pool_Fees\<close> and \<open>Pool_Limits\<close> prove the
    laws of its operations: moves, additions and removals, fee changes and new blocks, eviction.
  \<^item> \<open>Pool_Run\<close>: the abstract pool, a map from identifiers to transactions with one step per operation, the
    refinement, and the pools reachable by sequences of operations.
  \<^item> \<open>Sender_Chain\<close>, \<open>Pool_Queries\<close>, \<open>Pool_Additions\<close>: the flags and costs along the nonces of a sender, the
    queries, and the conditions under which an addition succeeds.
  \<^item> \<open>Sub_Pool_Properties\<close>: the properties of the single components.
  \<^item> \<open>Best_Transactions\<close> and \<open>Best_Laws\<close>: the iterators over the best transactions (\<open>pool/best.rs\<close>) with the
    interfaces \<open>best_iterator\<close> and \<open>markable_iterator\<close>, the order in which they yield, and the wrapper for
    given fees. \<open>Prioritized_Senders\<close>: the wrapper for prioritized senders, its order as two passes over what the
    iterator below yields, its bound on the gas, and what it does to nonces and invalid transactions.
  \<^item> \<open>Fee_Rechecks\<close> and \<open>Block_Rechecks\<close>: which flags a change of the fees, an addition and a new block recompute
    and which they leave as they were. Three of these theorems state, for arbitrary pools, behaviour that the
    comments in the code rule out.
  \<^item> \<open>Pool_Examples\<close>: evaluated runs for the witnesses, and when the assertions of the test builds hold.
  \<^item> This theory: the properties of the pool as a whole.

  Bounds. A sub-pool numbers its transactions with a counter of 64 bits that wraps around in a release build,
  after which two transactions could share a number. \<open>tp_room\<close> is how many numbers are left, each law states
  how many an operation takes at most, and \<open>op_cost\<close> adds them up; a theorem about an operation assumes that
  they are available. From an empty pool this allows sequences that cost up to \<open>2 ^ 64\<close>. \<open>no_overflow\<close> assumes
  that the sizes of all transactions together fit into a machine word, which the size trackers need. There is
  no fuel: the loops are partial functions in the option type, with theorems that they return.

  The laws of the iterators are for iterators with no messages waiting in their channel. Messages that arrive
  while an iterator is in use are part of the model (\<open>add_new_transactions\<close>) and not of these laws.

  Not modelled. Metrics, log output, size hints, and the timing of locks and channels. \<open>PoolInner\<close> and
  everything around \<open>TxPool\<close> (\<open>pool/mod.rs\<close>, \<open>pool/listener.rs\<close>, \<open>maintain.rs\<close>, \<open>batcher.rs\<close>), which is locking,
  notification and background tasks. The validation of new transactions (\<open>validate/eth.rs\<close>), which asks the
  state of the chain and a cryptographic library; its verdict reaches the pool as the transaction, the balance
  and the nonce that \<open>add_transaction\<close> is given. The blob stores, which are files. The other crates (network,
  storage, trie, engine, consensus rules, execution, RPC, node) are adapters to databases, sockets and external
  libraries.
\<close>

section \<open>The pool as a whole\<close>

text \<open>
  C1: no sequence of operations on an empty pool fails (no \<open>expect\<close> of a missing transaction, no failed
  \<open>assert\<close>, no loop of \<open>discard_worst\<close>, \<open>truncate_pool\<close> or \<open>remove_to_limit\<close> that does not end), as long as
  the sequence takes less than \<open>2 ^ 64\<close> submission identifiers and transactions are added with a nonce that
  is not below the on-chain one; and the container and the four sub-pools agree at the end.
\<close>

theorem operations_succeed:
  assumes "list_all op_ok ops" and "ops_cost ops 0 < 2 ^ 64"
  shows "\<exists>p. run_ops keccak_empty ops (new_tx_pool ord cfg) = Some p \<and> tp_inv p \<and> tp_config p = cfg"
  using run_ops_new [OF assms, of keccak_empty ord cfg] by metis

theorem operations_succeed_witness:
  "\<exists>p. run_ops 0 example_ops (new_tx_pool (coinbase_tip_ordering (\<lambda>_ _. Some 0)) default_pool_config) = Some p \<and>
     tp_inv p \<and> tp_config p = default_pool_config"
  by (rule operations_succeed) (simp_all add: example_ops_ok)

text \<open>
  C3: in every reachable pool each transaction of the container is in the sub-pool that its state flags
  determine and in no other, the sub-pools hold nothing else, the four sizes add up to the size of the
  container, and looking up the hash of a transaction finds that transaction.
\<close>

theorem reachable_consistent:
  assumes "reaches keccak_empty cfg n p" and "n < 2 ^ 64"
  shows "(\<forall>sp i. subpool_contains sp i p \<longleftrightarrow> (\<exists>x. at_get (tp_all p) i = Some x \<and> sub_pool_of (it_state x) = sp)) \<and>
    total_is_sum (tp_size p) \<and>
    (\<forall>h t. tp_get p h = Some t \<longleftrightarrow> tx_hash t = h \<and> map_of (content p) (transaction_id t) = Some t)"
proof -
  have inv: "tp_inv p" using reaches_inv [OF assms] by blast
  show ?thesis using subpool_contains_iff [OF inv] total_size_law [OF inv] tp_get_content [OF inv] by blast
qed

theorem reachable_consistent_witness:
  "total_is_sum (tp_size example_pool) \<and> subpool_contains Queued (TransactionId 2 3) example_pool \<and>
   tp_get example_pool 1001 = Some (example_tx 1 1 5 50 10)"
proof -
  obtain n where n: "reaches 0 default_pool_config n example_pool" "n < 2 ^ 64" using example_reaches by blast
  note consistent = reachable_consistent [OF n]
  have "\<exists>x. at_get (tp_all example_pool) (TransactionId 2 3) = Some x \<and> sub_pool_of (it_state x) = Queued"
    by (simp add: at_get_def example_pool_eq pool_eval)
  then have "subpool_contains Queued (TransactionId 2 3) example_pool" using consistent by blast
  moreover have "map_of (content example_pool) (transaction_id (example_tx 1 1 5 50 10)) = Some (example_tx 1 1 5 50 10)"
    "tx_hash (example_tx 1 1 5 50 10) = 1001"
    by (simp_all add: example_content)
  ultimately show ?thesis using consistent by blast
qed

text \<open>
  C2: the pool refines a map from identifiers to transactions. Every operation that returns does to the
  content what the abstract step allows: an addition inserts or changes nothing, the removals and a new
  block drop exactly the named and the stale transactions, a change of the fees and the block information
  drops none, and the limits drop an upper part of the nonces of each sender.
\<close>

theorem pool_refines_map:
  assumes "tp_inv p" and "op_ok op" and "op_cost op (tp_len p) \<le> tp_room p"
  shows "\<exists>p'. apply_op keccak_empty op p = Some p' \<and> tp_inv p' \<and> spec_step op (content p) (content p')"
  using apply_op_law [OF assms, of keccak_empty] by (auto simp: steps_well_def after_def)

theorem pool_refines_map_witness:
  "\<exists>p'. apply_op 0 (OpRemoveBySender 1) example_pool = Some p' \<and> tp_inv p' \<and>
     content p' = [(TransactionId 2 3, example_tx 2 3 5 40 10)]"
  using pool_refines_map [OF example_pool_run(2), of "OpRemoveBySender 1" 0] by (simp add: example_content)

text \<open>
  C4: \<open>add_transaction\<close> either reports an error for this transaction, or puts the transaction into the sub-pool
  that it reports, at its identifier and nowhere else. After an error the pool is the one before the call,
  container and sub-pools, except that the balance and the nonce of the sender's account are recorded when
  the transaction was not known and the check of delegated accounts has passed. What a success reports as
  replaced is what was there before, and has been outbid. What it reports as promoted are the other
  transactions that became pending.
\<close>

theorem add_transaction_effect:
  assumes "tp_inv p" and "nonce_matches t" and "on_chain_nonce \<le> tx_nonce t" and "tp_len p + 2 \<le> tp_room p"
  shows "\<exists>p' res. add_transaction keccak_empty t balance on_chain_nonce code_hash p = Some (p', res) \<and> tp_inv p' \<and>
    (case res of
       Inl e \<Rightarrow> pe_hash e = tx_hash t \<and> content p' = content p \<and>
         p' = (if tp_contains p (tx_hash t) \<or> validate_auth keccak_empty t on_chain_nonce code_hash p \<noteq> Inr () then p
               else p\<lparr>tp_all := with_sender t balance on_chain_nonce (tp_all p)\<rparr>)
     | Inr r \<Rightarrow>
         content p' = bins (transaction_id t) t (content p) \<and>
         reported r = (t, snd (reported r)) \<and> subpool_contains (snd (reported r)) (transaction_id t) p' \<and>
         replaced_by r = map_of (content p) (transaction_id t) \<and>
         (\<forall>old. replaced_by r = Some old \<longrightarrow> \<not> is_underpriced old t (price_bumps (tp_all p))) \<and>
         reports_promoted r (transaction_id t) (tp_all p) (tp_all p'))"
proof -
  have "Suc (Suc (length (txs (tp_all p)))) \<le> tp_room p" using assms(4) by (simp add: tp_len_content(2))
  then obtain p' res where p': "add_transaction keccak_empty t balance on_chain_nonce code_hash p = Some (p', res)"
      "after (Suc (Suc (length (txs (tp_all p))))) p p'" "added t p res p'"
    by (rule add_transaction_law [OF assms(1-3)])
  have inv': "tp_inv p'" using p'(2) by (simp add: after_def)
  show ?thesis
  proof (cases res)
    case (Inl e)
    have "p' = (if tp_contains p (tx_hash t) \<or> validate_auth keccak_empty t on_chain_nonce code_hash p \<noteq> Inr () then p
               else p\<lparr>tp_all := with_sender t balance on_chain_nonce (tp_all p)\<rparr>)"
      using add_transaction_Inl p'(1) Inl by blast
    moreover have "pe_hash e = tx_hash t" "content p' = content p"
      using p'(3) Inl by (simp_all add: added_def content_def at_entries_def)
    ultimately show ?thesis using p'(1) inv' Inl by auto
  next
    case (Inr r)
    have "map_of (pool_entries (snd (reported r)) p') (transaction_id t) = Some t"
      using holdsD [OF tp_invD(3) [OF inv']] p'(3) Inr by (simp add: added_def)
    then show ?thesis
      using p' inv' Inr by (simp add: added_def content_def subpool_contains_entries prod_eq_iff)
  qed
qed

theorem add_transaction_effect_witness:
  "(\<exists>p' r. add_transaction 0 (example_tx 1 2 5 70 10) 1000 0 None example_pool = Some (p', Inr r) \<and> tp_inv p' \<and>
      map_of (content p') (TransactionId 1 2) = Some (example_tx 1 2 5 70 10) \<and> replaced_by r = None) \<and>
   (\<exists>e. add_transaction 0 (example_tx 1 1 5 50 10) 2000 0 None example_pool = Some (example_pool, Inl e) \<and>
      pe_hash e = 1001)"
proof (rule conjI)
  have hyps: "nonce_matches (example_tx 1 n 5 fee 10)" "0 \<le> tx_nonce (example_tx 1 n 5 fee 10)"
    for n fee by (simp_all add: nonce_matches_def)
  have room: "tp_len example_pool + 2 \<le> tp_room example_pool" using example_room [of 5] by (simp add: example_content)
  note eff = add_transaction_effect [where keccak_empty = 0 and code_hash = None, OF example_pool_run(2) hyps room]
  show "\<exists>p' r. add_transaction 0 (example_tx 1 2 5 70 10) 1000 0 None example_pool = Some (p', Inr r) \<and> tp_inv p' \<and>
      map_of (content p') (TransactionId 1 2) = Some (example_tx 1 2 5 70 10) \<and> replaced_by r = None"
    using eff [of 2 70 1000] example_addition by (auto simp: map_of_bins example_content simp del: bins.simps)
  have "tp_contains example_pool (tx_hash (example_tx 1 1 5 50 10))"
    by (auto simp: contains_content [OF example_pool_run(2)] example_content)
  then show "\<exists>e. add_transaction 0 (example_tx 1 1 5 50 10) 2000 0 None example_pool = Some (example_pool, Inl e) \<and>
      pe_hash e = 1001"
    using eff [of 1 50 2000] by (auto simp: add_transaction_def)
qed

text \<open>
  C5: \<open>add_transaction\<close> reports success exactly when the transaction is admissible (it is not known, its
  sender has a free slot or it is next in line or local, it fits into a block, its type does not conflict
  with the sender's other transactions, it pays the minimal fee and outbids what it replaces), the checks on
  delegated accounts pass, and a blob transaction closes no gap and is covered by the balance.
\<close>

theorem add_transaction_succeeds:
  assumes "tp_inv p" and "nonce_matches t" and "on_chain_nonce \<le> tx_nonce t" and "tp_len p + 2 \<le> tp_room p"
  shows "\<exists>p' res. add_transaction keccak_empty t balance on_chain_nonce code_hash p = Some (p', res) \<and>
    ((\<exists>r. res = Inr r) \<longleftrightarrow>
       admissible t on_chain_nonce p \<and> validate_auth keccak_empty t on_chain_nonce code_hash p = Inr () \<and>
       (is_eip4844 t \<longrightarrow>
          ensure_valid_blob_transaction t balance (ancestor (tx_nonce t) on_chain_nonce (tx_sender_id t)) (tp_all p) = Inr ()))"
proof -
  have "Suc (Suc (length (txs (tp_all p)))) \<le> tp_room p" using assms(4) by (simp add: tp_len_content(2))
  then obtain p' res where "add_transaction keccak_empty t balance on_chain_nonce code_hash p = Some (p', res)"
    by (rule add_transaction_law [OF assms(1-3)])
  then show ?thesis using add_transaction_Inr_iff [OF assms(1,3)] by blast
qed

theorem add_transaction_succeeds_witness:
  "\<exists>p' r. add_transaction 0 (example_tx 1 2 5 70 10) 1000 0 None example_pool = Some (p', Inr r)"
proof -
  have hyps: "nonce_matches (example_tx 1 2 5 70 10)" "0 \<le> tx_nonce (example_tx 1 2 5 70 10)"
    "tp_len example_pool + 2 \<le> tp_room example_pool"
    using example_room [of 5] by (simp_all add: nonce_matches_def example_content)
  have "admissible (example_tx 1 2 5 70 10) 0 example_pool"
    by (simp add: admissible_def example_content example_settings sender_count_def)
  moreover have "validate_auth 0 (example_tx 1 2 5 70 10) 0 None example_pool = Inr ()"
    by (simp add: validate_auth_def check_delegation_limit_def example_settings)
  ultimately show ?thesis
    using add_transaction_succeeds [OF example_pool_run(2) hyps, of 0 1000 None] by auto
qed

text \<open>
  C7: a new block removes exactly the mined transactions and those whose nonce is below the new nonce of
  their sender, keeps everything else, and reports the block and the mined hashes.
\<close>

theorem canonical_state_change:
  assumes "tp_inv p" and "3 * tp_len p \<le> tp_room p"
  shows "\<exists>p' oc. on_canonical_state_change info mined changed p = Some (p', oc) \<and> tp_inv p' \<and>
    content p' = filter (\<lambda>e. tx_hash (snd e) \<notin> set mined \<and> \<not> stale changed (fst e)) (content p) \<and>
    co_mined oc = mined \<and> co_block_hash oc = bi_last_seen_block_hash info"
proof -
  have "3 * length (txs (tp_all p)) \<le> tp_room p" using assms(2) by (simp add: tp_len_content(2))
  then obtain p' oc where "on_canonical_state_change info mined changed p = Some (p', oc)"
      "after (3 * length (txs (tp_all p))) p p'"
      "at_entries (tp_all p') = filter (\<lambda>e. tx_hash (snd e) \<notin> set mined \<and> \<not> stale changed (fst e)) (at_entries (tp_all p))"
      "co_mined oc = mined" "co_block_hash oc = bi_last_seen_block_hash info"
    by (rule on_canonical_state_change_law [OF assms(1)])
  then show ?thesis by (auto simp: after_def content_def)
qed

theorem canonical_state_change_witness:
  "\<exists>p' oc. on_canonical_state_change (example_info 20 1) [1000] [(2, \<lparr>si_state_nonce = 4, si_balance = 9\<rparr>)] example_pool =
     Some (p', oc) \<and> content p' = [(TransactionId 1 1, example_tx 1 1 5 50 10)]"
proof -
  have "3 * tp_len example_pool \<le> tp_room example_pool" using example_room [of 9] by (simp add: example_content)
  then show ?thesis
    using canonical_state_change [OF example_pool_run(2), of "example_info 20 1" "[1000]" "[(2, \<lparr>si_state_nonce = 4, si_balance = 9\<rparr>)]"]
    by (auto simp: example_content stale_def)
qed

text \<open>
  C8: unless the sizes of the transactions add up to more than a machine word, \<open>discard_worst\<close> ends with a
  pool within all its limits. It returns exactly the transactions that are gone, and of each sender only the
  highest nonces go.
\<close>

theorem discard_worst_limits:
  assumes "tp_inv p" and "no_overflow p"
  shows "\<exists>p' us. discard_worst p = Some (p', us) \<and> tp_inv p' \<and> \<not> is_exceeded p' \<and>
    keeps_prefix (content p) (content p') \<and>
    set us = {t. \<exists>i. map_of (content p) i = Some t \<and> map_of (content p') i = None}"
proof -
  obtain p' us where "discard_worst p = Some (p', us)" "dropped p us p'" "\<not> is_exceeded p'"
    using discard_worst_law [OF assms(1)] assms(2) by metis
  then show ?thesis using droppedD(1-3) [of p us p'] by (auto simp: after_def)
qed

theorem discard_worst_limits_witness:
  "\<exists>p' us. discard_worst example_pool = Some (p', us) \<and> tp_inv p' \<and> \<not> is_exceeded p'"
proof -
  have "no_overflow example_pool" by (simp add: no_overflow_def example_content)
  then show ?thesis using discard_worst_limits [OF example_pool_run(2)] by blast
qed

text \<open>
  C9: removing a transaction by its hash returns it and takes only it out of the content. Every transaction
  of the sender with a higher nonce loses its place: it has a nonce gap and is not pending.
\<close>

theorem removal_parks_descendants:
  assumes "tp_inv p" and "tp_len p \<le> tp_room p" and "tp_get p h = Some t"
  shows "\<exists>p'. remove_transaction_by_hash h p = Some (p', Some t) \<and> tp_inv p' \<and>
    content p' = filter (\<lambda>e. tx_hash (snd e) \<noteq> h) (content p) \<and>
    (\<forall>j x. at_get (tp_all p') j = Some x \<longrightarrow> sender j = tx_sender_id t \<longrightarrow> nonce (transaction_id t) < nonce j \<longrightarrow>
       has_nonce_gap (it_state x) \<and> \<not> subpool_contains Pending j p')"
proof -
  obtain p' where "remove_transaction_by_hash h p = Some (p', Some t)" "tp_inv p'"
      "content p' = filter (\<lambda>e. tx_hash (snd e) \<noteq> h) (content p)"
      "\<forall>j x. at_get (tp_all p') j = Some x \<longrightarrow> j \<in> higher (transaction_id t) \<longrightarrow>
         has_nonce_gap (it_state x) \<and> \<not> subpool_contains Pending j p'"
    by (rule removed_parks [OF assms])
  then show ?thesis by (auto simp: higher_def tx_sender_id_def)
qed

theorem removal_parks_descendants_witness:
  "\<exists>p'. remove_transaction_by_hash 1000 example_pool = Some (p', Some (example_tx 1 0 5 1000 10)) \<and>
     map_of (content p') (TransactionId 1 1) = Some (example_tx 1 1 5 50 10) \<and>
     \<not> subpool_contains Pending (TransactionId 1 1) p'"
proof -
  have get: "tp_get example_pool 1000 = Some (example_tx 1 0 5 1000 10)"
    by (simp add: tp_get_content [OF example_pool_run(2)] example_content)
  have room: "tp_len example_pool \<le> tp_room example_pool" using example_room [of 3] by (simp add: example_content)
  obtain p' where p': "remove_transaction_by_hash 1000 example_pool = Some (p', Some (example_tx 1 0 5 1000 10))"
      "content p' = filter (\<lambda>e. tx_hash (snd e) \<noteq> 1000) (content example_pool)"
      "\<forall>j x. at_get (tp_all p') j = Some x \<longrightarrow> sender j = 1 \<longrightarrow> 0 < nonce j \<longrightarrow> \<not> subpool_contains Pending j p'"
    using removal_parks_descendants [OF example_pool_run(2) room get] by auto
  have there: "map_of (content p') (TransactionId 1 1) = Some (example_tx 1 1 5 50 10)"
    using p'(2) by (simp add: example_content)
  then obtain x where "at_get (tp_all p') (TransactionId 1 1) = Some x" by (auto simp: content_at)
  then show ?thesis using p'(1,3) there by auto
qed

text \<open>
  C6: after a successful addition the transactions of the sender that follow the on-chain nonce without a
  gap carry the costs of those before them, are marked as affordable exactly when the balance covers all
  costs up to and including their own, are marked as having no parked ancestor exactly when the one before
  is pending, and are in the sub-pool of these flags.
\<close>

theorem addition_lines_up_sender:
  assumes "tp_inv p" and "nonce_matches t" and "tp_len p + 2 \<le> tp_room p"
    and "add_transaction keccak_empty t balance on_chain_nonce code_hash p = Some (p', Inr r)"
    and "unat on_chain_nonce + k < 2 ^ 64"
    and "\<forall>j\<le>k. at_get (tp_all p') (TransactionId (tx_sender_id t) (on_chain_nonce + of_nat j)) = Some (x j)"
  shows "it_cumulative_cost (x k) = (\<Sum>j<k. tx_cost (it_transaction (x j))) \<and>
    \<not> has_nonce_gap (it_state (x k)) \<and>
    (st_contains (it_state (x k)) ENOUGH_BALANCE \<longleftrightarrow> (\<Sum>j\<le>k. tx_cost (it_transaction (x j))) \<le> balance) \<and>
    (st_contains (it_state (x k)) NO_PARKED_ANCESTORS \<longleftrightarrow> k = 0 \<or> st_is_pending (it_state (x (k - 1)))) \<and>
    subpool_contains (sub_pool_of (it_state (x k))) (TransactionId (tx_sender_id t) (on_chain_nonce + of_nat k)) p'"
proof -
  have line: "in_line balance 0 False x k"
    by (rule add_transaction_chain [OF assms(1-5)]) (use assms(6) in \<open>simp add: chain_id_def\<close>)
  have "tp_inv p'" by (rule add_transaction_inv [OF assms(1-4)])
  then show ?thesis using line assms(6) by (auto simp: in_line_def subpool_contains_iff)
qed

theorem addition_lines_up_sender_witness:
  "\<exists>p' r x. add_transaction 0 (example_tx 1 2 5 70 10) 1000 0 None example_pool = Some (p', Inr r) \<and>
     at_get (tp_all p') (TransactionId 1 2) = Some x \<and> it_cumulative_cost x = 10 \<and> st_contains (it_state x) ENOUGH_BALANCE \<and>
     subpool_contains Pending (TransactionId 1 2) p'"
proof -
  obtain p' r where run: "add_transaction 0 (example_tx 1 2 5 70 10) 1000 0 None example_pool = Some (p', Inr r)"
    and m: "map_of (txs (tp_all p')) (TransactionId 1 0) =
        Some \<lparr>it_transaction = example_tx 1 0 5 1000 10, it_subpool = Pending, it_state = 252, it_cumulative_cost = 0\<rparr>"
      "map_of (txs (tp_all p')) (TransactionId 1 1) =
        Some \<lparr>it_transaction = example_tx 1 1 5 50 10, it_subpool = Pending, it_state = 252, it_cumulative_cost = 5\<rparr>"
      "map_of (txs (tp_all p')) (TransactionId 1 2) =
        Some \<lparr>it_transaction = example_tx 1 2 5 70 10, it_subpool = Pending, it_state = 252, it_cumulative_cost = 10\<rparr>"
    using example_addition by blast
  define x where "x j = the (map_of (txs (tp_all p')) (TransactionId 1 (of_nat j)))" for j
  have hyps: "nonce_matches (example_tx 1 2 5 70 10)" "tp_len example_pool + 2 \<le> tp_room example_pool"
    using example_room [of 5] by (simp_all add: nonce_matches_def example_content)
  have all: "\<forall>j\<le>2. at_get (tp_all p') (TransactionId (tx_sender_id (example_tx 1 2 5 70 10)) (0 + of_nat j)) = Some (x j)"
    using m by (auto simp: x_def at_get_def numeral_2_eq_2 le_Suc_eq)
  note line = addition_lines_up_sender [OF example_pool_run(2) hyps run _ all]
  have x: "it_transaction (x 0) = example_tx 1 0 5 1000 10" "it_transaction (x (Suc 0)) = example_tx 1 1 5 50 10"
    "it_transaction (x 2) = example_tx 1 2 5 70 10" "it_state (x 2) = 252"
    using m by (simp_all add: x_def)
  have sets: "{..<2::nat} = {0, Suc 0}" "{..2::nat} = {0, Suc 0, 2}" by auto
  have "it_cumulative_cost (x 2) = 10" "st_contains (it_state (x 2)) ENOUGH_BALANCE"
    "subpool_contains (sub_pool_of (it_state (x 2))) (TransactionId 1 2) p'"
    using line by (simp_all add: sets x)
  moreover have "sub_pool_of (it_state (x 2)) = Pending" by (simp add: x pool_eval)
  moreover have "at_get (tp_all p') (TransactionId 1 2) = Some (x 2)" using m(3) by (simp add: at_get_def x_def)
  ultimately show ?thesis using run by auto
qed

text \<open>
  C11: the block information that \<open>set_block_info\<close> was given is what \<open>block_info\<close> returns afterwards, except
  that an absent blob fee keeps the one tracked so far. No transaction enters or leaves the pool.
\<close>

theorem block_info_roundtrip:
  assumes "tp_inv p" and "2 * tp_len p \<le> tp_room p"
  shows "\<exists>p' oc. tp_set_block_info info p = Some (p', oc) \<and> tp_inv p' \<and> content p' = content p \<and>
    tp_block_info p' = info\<lparr>bi_pending_blob_fee :=
      Some (case bi_pending_blob_fee info of None \<Rightarrow> blob_fee (tracked_fees (tp_all p)) | Some f \<Rightarrow> f)\<rparr>"
proof -
  have room: "2 * length (txs (tp_all p)) \<le> tp_room p" using assms(2) by (simp add: tp_len_content(2))
  obtain p' oc where run: "tp_set_block_info info p = Some (p', oc)"
    and p': "after (2 * length (txs (tp_all p))) p p'" "at_entries (tp_all p') = at_entries (tp_all p)"
    by (rule set_block_info_law [OF assms(1) room])
  have "tp_block_info p' = info\<lparr>bi_pending_blob_fee :=
      Some (case bi_pending_blob_fee info of None \<Rightarrow> blob_fee (tracked_fees (tp_all p)) | Some f \<Rightarrow> f)\<rparr>"
    by (rule set_block_info_tracked [OF assms(1) _ run]) (use room in simp)
  then show ?thesis using run p' by (auto simp: after_def content_def)
qed

theorem block_info_roundtrip_witness:
  "\<exists>p' oc. tp_set_block_info (example_info 60 9) example_pool = Some (p', oc) \<and> tp_block_info p' = example_info 60 9"
proof -
  have "2 * tp_len example_pool \<le> tp_room example_pool" using example_room [of 6] by (simp add: example_content)
  then show ?thesis
    using block_info_roundtrip [OF example_pool_run(2), of "example_info 60 9"] by (auto simp: example_info_def)
qed

text \<open>
  C10: when the base fee rises, \<open>update_basefee\<close> keeps every transaction, promotes none, and what is still
  pending pays the new base fee.
\<close>

theorem base_fee_rise_demotes:
  assumes "tp_inv p" and "tp_len p \<le> tp_room p" and "base_fee (tracked_fees (tp_all p)) < fee"
  shows "\<exists>p'. update_basefee fee p = Some (p', [], Greater) \<and> tp_inv p' \<and> content p' = content p \<and>
    (\<forall>i t. subpool_contains Pending i p' \<longrightarrow> map_of (content p') i = Some t \<longrightarrow>
       subpool_contains Pending i p \<and> ucast fee \<le> max_fee_per_gas t)"
proof -
  have room: "length (txs (tp_all p)) \<le> tp_room p" using assms(2) by (simp add: tp_len_content(2))
  obtain p' ts where run: "update_basefee fee p = Some (p', ts, cmp fee (base_fee (tracked_fees (tp_all p))))"
    by (rule update_basefee_law [OF assms(1) room])
  note R = base_fee_rise [OF assms(1,2,3) run]
  have "cmp fee (base_fee (tracked_fees (tp_all p))) = Greater" using assms(3) by (auto simp: cmp_def)
  then show ?thesis using run R(1-3) R(4,5) by auto
qed

theorem base_fee_rise_demotes_witness:
  "\<exists>p'. update_basefee 60 example_pool = Some (p', [], Greater) \<and> \<not> subpool_contains Pending (TransactionId 1 1) p'"
proof -
  have hyps: "tp_len example_pool \<le> tp_room example_pool" "base_fee (tracked_fees (tp_all example_pool)) < 60"
    using example_room [of 3] by (simp_all add: example_content example_pool_eq)
  obtain p' where p': "update_basefee 60 example_pool = Some (p', [], Greater)" "content p' = content example_pool"
      "\<forall>i t. subpool_contains Pending i p' \<longrightarrow> map_of (content p') i = Some t \<longrightarrow> ucast (60 :: u64) \<le> max_fee_per_gas t"
    using base_fee_rise_demotes [OF example_pool_run(2) hyps] by blast
  have "\<not> subpool_contains Pending (TransactionId 1 1) p'"
    using p'(3) [rule_format, of "TransactionId 1 1" "example_tx 1 1 5 50 10"] by (auto simp: p'(2) example_content)
  then show ?thesis using p'(1) by blast
qed

text \<open>
  C12: the three ways to take a transaction out of the container (\<open>remove_transaction\<close>, by identifier and by
  hash) update its seven indices to the same result.
\<close>

theorem container_removals_agree:
  assumes "reaches keccak_empty cfg n p" and "n < 2 ^ 64" and "tp_get p h = Some t"
  shows "at_remove_transaction_by_hash h (tp_all p) = at_remove_transaction_by_id (transaction_id t) (tp_all p) \<and>
    at_remove_transaction (transaction_id t) (tp_all p) = at_remove_transaction_by_id (transaction_id t) (tp_all p) \<and>
    at_get (fst (at_remove_transaction_by_id (transaction_id t) (tp_all p))) (transaction_id t) = None"
proof -
  have wf: "all_wf (tp_all p)" using reaches_inv [OF assms(1,2)] tp_invD(2) by blast
  have h: "map_of (by_hash (tp_all p)) h = Some t" using assms(3) by (simp add: tp_get_def)
  show ?thesis
    using at_remove_by_hash_eq [OF wf h] at_remove_eq_by_id [OF wf, of "transaction_id t"] removed_by_id_gone [OF wf]
    by blast
qed

theorem container_removals_agree_witness:
  "at_remove_transaction_by_hash 1000 (tp_all example_pool) = at_remove_transaction (TransactionId 1 0) (tp_all example_pool)"
proof -
  obtain n where n: "reaches 0 default_pool_config n example_pool" "n < 2 ^ 64" using example_reaches by blast
  have get: "tp_get example_pool 1000 = Some (example_tx 1 0 5 1000 10)"
    by (simp add: tp_get_content [OF example_pool_run(2)] example_content)
  show ?thesis using container_removals_agree [OF n get] by simp
qed

text \<open>
  C13: in every reachable pool the transactions of one sender are all blob transactions or none of them is,
  the number of transactions of each sender is what the counter says, and every nonce of a sender is taken
  by at most one transaction, whose identifier it is.
\<close>

theorem one_type_per_sender:
  assumes "reaches keccak_empty cfg n p" and "n < 2 ^ 64"
  shows "(\<forall>i j t u. map_of (content p) i = Some t \<longrightarrow> map_of (content p) j = Some u \<longrightarrow> sender i = sender j \<longrightarrow>
      is_eip4844 t = is_eip4844 u) \<and>
    (\<forall>s. tx_count (tp_all p) s = length (get_transactions_by_sender s p)) \<and>
    (\<forall>i t. map_of (content p) i = Some t \<longrightarrow> transaction_id t = i \<and> nonce i = tx_nonce t)"
proof -
  have inv: "tp_inv p" using reaches_inv [OF assms] by blast
  have ok: "entries_ok (content p)" using all_wfD(1) [OF tp_invD(2) [OF inv]] by (simp add: content_def)
  have "get_transactions_by_sender s p = map snd (filter (\<lambda>e. sender (fst e) = s) (content p))" for s
    by (rule remove_by_sender_law [OF inv])
  then have "tx_count (tp_all p) s = length (get_transactions_by_sender s p)" for s
    by (simp add: tx_count_content [OF inv] sender_count_def)
  moreover have "transaction_id t = i \<and> nonce i = tx_nonce t" if "map_of (content p) i = Some t" for i t
    using entries_okD(2,3) [OF ok that] by (auto simp: nonce_matches_def)
  ultimately show ?thesis using entries_okD(4) [OF ok] by blast
qed

theorem one_type_per_sender_witness:
  "tx_count (tp_all example_pool) 1 = 2 \<and> length (get_transactions_by_sender 1 example_pool) = 2"
proof -
  obtain n where n: "reaches 0 default_pool_config n example_pool" "n < 2 ^ 64" using example_reaches by blast
  have "tx_count (tp_all example_pool) 1 = 2"
    by (simp add: tx_count_content [OF example_pool_run(2)] sender_count_def example_content)
  then show ?thesis using one_type_per_sender [OF n] by simp
qed

text \<open>
  C18: \<open>get_highest_consecutive_transaction_by_sender\<close> returns the last transaction of the run of nonces that
  starts at the on-chain nonce (the given one or the tracked one, whichever is higher).
\<close>

theorem highest_consecutive:
  assumes "tp_inv p"
    and "n = (case map_of (sender_info (tp_all p)) (sender on_chain) of
       None \<Rightarrow> nonce on_chain | Some current \<Rightarrow> max (nonce on_chain) (si_state_nonce current))"
    and "unat n + Suc k < 2 ^ 64"
    and "\<forall>j\<le>k. map_of (content p) (TransactionId (sender on_chain) (n + of_nat j)) \<noteq> None"
    and "map_of (content p) (TransactionId (sender on_chain) (n + of_nat (Suc k))) = None"
  shows "get_highest_consecutive_transaction_by_sender on_chain p =
    map_of (content p) (TransactionId (sender on_chain) (n + of_nat k))"
  using highest_consecutive_run [OF assms(1-3)] assms(4,5) unfolding chain_id_def content_at option.map_disc_iff by blast

theorem highest_consecutive_witness:
  "get_highest_consecutive_transaction_by_sender (TransactionId 1 0) example_pool = Some (example_tx 1 1 5 50 10)"
proof -
  have "get_highest_consecutive_transaction_by_sender (TransactionId 1 0) example_pool =
      map_of (content example_pool) (TransactionId (sender (TransactionId 1 0)) (0 + of_nat 1))"
    by (rule highest_consecutive [OF example_pool_run(2)]) (auto simp: example_pool_eq example_content le_Suc_eq)
  then show ?thesis by (simp add: example_content)
qed

end
